(* ===== verification/Prelude.thy ===== *)
theory Prelude
  imports Main "HOL-Library.Word"
begin

text \<open>
  Shared vocabulary of the development: the machine types of the Go sources, byte slices
  (\<open>bslice\<close> reads \<open>p[a:b]\<close>, \<open>blit\<close> writes a run of bytes into a buffer), the
  big-endian integers of \<open>encoding/binary\<close>, and the lemmas on lists and words
  that the codec theories use. The collection \<open>go_simps\<close> holds the rewrite rules that
  turn buffer writes and bslice reads into list equations.
\<close>

unbundle bit_operations_syntax

named_theorems go_simps

type_synonym byte = "8 word"
type_synonym u8 = "8 word"
type_synonym u16 = "16 word"
type_synonym u32 = "32 word"
type_synonym u64 = "64 word"

section \<open>Byte slices\<close>

text \<open>\<open>bslice p a b\<close> is Go's \<open>p[a:b]\<close>; every use in the models stands behind the length
  check that makes the Go expression legal.\<close>

definition bslice :: "'a list \<Rightarrow> nat \<Rightarrow> nat \<Rightarrow> 'a list" where
  "bslice p a b = take (b - a) (drop a p)"

text \<open>\<open>blit dst i bs\<close> is the buffer \<open>dst\<close> after \<open>copy(dst[i:], bs)\<close> with \<open>bs\<close>
  inside the buffer.\<close>

definition blit :: "'a list \<Rightarrow> nat \<Rightarrow> 'a list \<Rightarrow> 'a list" where
  "blit dst i bs = take i dst @ bs @ drop (i + length bs) dst"

lemma length_bslice [simp]: "length (bslice p a b) = min (b - a) (length p - a)"
  by (simp add: bslice_def)

lemma bslice_0 [go_simps]: "bslice p 0 b = take b p"
  by (simp add: bslice_def)

lemma bslice_all [simp]: "bslice p 0 (length p) = p"
  by (simp add: bslice_def)

lemma bslice_append1 [go_simps]: "b \<le> length xs \<Longrightarrow> bslice (xs @ ys) a b = bslice xs a b"
  by (simp add: bslice_def)

lemma bslice_append2 [go_simps]:
  "length xs \<le> a \<Longrightarrow> bslice (xs @ ys) a b = bslice ys (a - length xs) (b - length xs)"
  by (simp add: bslice_def)

lemma bslice_join:
  assumes "a \<le> b" and "b \<le> c"
  shows "bslice p a b @ bslice p b c = bslice p a c"
proof -
  have "c - a = (b - a) + (c - b)" using assms by simp
  then show ?thesis using assms unfolding bslice_def by (simp only: take_add drop_drop) simp
qed

lemma take_join: "a \<le> b \<Longrightarrow> take a p @ bslice p a b = take b p"
  using bslice_join [of 0 a b p] by (simp add: bslice_0)

lemma nth_bslice: "i < b - a \<Longrightarrow> b \<le> length p \<Longrightarrow> bslice p a b ! i = p ! (a + i)"
  by (simp add: bslice_def)

lemma bslice_Suc: "a < length p \<Longrightarrow> bslice p a (Suc a) = [p ! a]"
  by (simp add: bslice_def take_Suc_conv_app_nth)

lemma length_blit [simp]: "i + length bs \<le> length dst \<Longrightarrow> length (blit dst i bs) = length dst"
  by (simp add: blit_def)

lemma blit_blit_0 [go_simps]:
  "length xs = i \<Longrightarrow> i + length ys \<le> length dst \<Longrightarrow>
   blit (blit dst 0 xs) i ys = blit dst 0 (xs @ ys)"
  by (simp add: blit_def ac_simps)

lemma take_blit_0 [simp]:
  "length bs = n \<Longrightarrow> n \<le> length dst \<Longrightarrow> take n (blit dst 0 bs) = bs"
  by (simp add: blit_def)

lemma blit_overwrite [go_simps]:
  "length xs = i \<Longrightarrow> length ys = length zs \<Longrightarrow> i + length ys \<le> length dst \<Longrightarrow>
   blit (blit dst 0 (xs @ ys)) i zs = blit dst 0 (xs @ zs)"
  by (simp add: blit_def)

section \<open>Words\<close>

lemma xor_cancel_left: "a XOR b = a XOR c \<longleftrightarrow> b = (c :: 'a::len word)"
  by (auto simp: bit_eq_iff bit_xor_iff)

lemma xor_cancel_right: "b XOR a = c XOR a \<longleftrightarrow> b = (c :: 'a::len word)"
  by (auto simp: bit_eq_iff bit_xor_iff)

lemma xor_eq_0: "a XOR b = 0 \<longleftrightarrow> a = (b :: 'a::len word)"
  by (auto simp: bit_eq_iff bit_xor_iff)

section \<open>Big-endian integers\<close>

text \<open>\<open>be_put k n\<close> are the \<open>k\<close> bytes of \<open>binary.BigEndian.PutUint\<close>, most significant
  first; \<open>be_get\<close> is \<open>binary.BigEndian.Uint\<close> as a number.\<close>

fun be_put :: "nat \<Rightarrow> nat \<Rightarrow> byte list" where
  "be_put 0 n = []"
| "be_put (Suc k) n = be_put k (n div 256) @ [of_nat n]"

definition be_get :: "byte list \<Rightarrow> nat" where
  "be_get bs = foldl (\<lambda>a b. a * 256 + unat b) 0 bs"

definition be_word :: "nat \<Rightarrow> 'a::len word \<Rightarrow> byte list" where
  "be_word k w = be_put k (unat w)"

definition word_be :: "byte list \<Rightarrow> 'a::len word" where
  "word_be bs = of_nat (be_get bs)"

abbreviation PutUint16 :: "u16 \<Rightarrow> byte list" where "PutUint16 \<equiv> be_word 2"
abbreviation PutUint32 :: "u32 \<Rightarrow> byte list" where "PutUint32 \<equiv> be_word 4"
abbreviation PutUint64 :: "u64 \<Rightarrow> byte list" where "PutUint64 \<equiv> be_word 8"

lemma length_be_put [simp]: "length (be_put k n) = k"
  by (induction k arbitrary: n) auto

lemma length_be_word [simp]: "length (be_word k w) = k"
  by (simp add: be_word_def)

lemma byte_le: "unat (b :: byte) \<le> 255"
  using unsigned_less [where 'a = nat, of b] by simp

lemma be_put_0: "be_put k 0 = replicate k 0"
  by (induction k) (auto simp: replicate_append_same)

lemma be_get_Nil [simp]: "be_get [] = 0"
  by (simp add: be_get_def)

lemma be_get_snoc [simp]: "be_get (bs @ [b]) = be_get bs * 256 + unat b"
  by (simp add: be_get_def)

lemma be_get_bound: "be_get bs < 256 ^ length bs"
proof (induction bs rule: rev_induct)
  case Nil
  then show ?case by simp
next
  case (snoc b bs)
  have "unat b < 256" using unsigned_less [of b] by simp
  with snoc show ?case by simp
qed

lemma be_get_be_put: "be_get (be_put k n) = n mod 256 ^ k"
proof (induction k arbitrary: n)
  case 0
  then show ?case by simp
next
  case (Suc k)
  have "unat (of_nat n :: byte) = n mod 256"
    by (simp add: unsigned_of_nat take_bit_eq_mod)
  with Suc show ?case
    by (simp add: mod_mult2_eq [of n 256 "256 ^ k"] mult.commute)
qed

lemma be_put_be_get: "length bs = k \<Longrightarrow> be_put k (be_get bs) = bs"
proof (induction bs arbitrary: k rule: rev_induct)
  case Nil
  then show ?case by simp
next
  case (snoc b bs)
  have b: "unat b < 256" using unsigned_less [of b] by simp
  have "(256 :: byte) = 0" by simp
  then have "(of_nat (be_get bs * 256 + unat b) :: byte) = b"
    by (simp only: of_nat_add of_nat_mult of_nat_numeral) simp
  moreover have "(be_get bs * 256 + unat b) div 256 = be_get bs" using b by simp
  ultimately show ?case using snoc by auto
qed

lemma word_be_be_word [simp]:
  fixes w :: "'a::len word"
  assumes "LENGTH('a) \<le> 8 * k"
  shows "word_be (be_word k w) = w"
proof -
  have "unat w < 2 ^ LENGTH('a)" by (rule unsigned_less)
  also have "(2::nat) ^ LENGTH('a) \<le> 2 ^ (8 * k)" using assms by (intro power_increasing) auto
  also have "(2::nat) ^ (8 * k) = 256 ^ k" by (simp add: power_mult)
  finally show ?thesis by (simp add: word_be_def be_word_def be_get_be_put)
qed

lemma be_word_word_be:
  assumes "length bs = k" and "8 * k \<le> LENGTH('a::len)"
  shows "be_word k (word_be bs :: 'a word) = bs"
proof -
  have "be_get bs < 256 ^ k" using be_get_bound [of bs] assms(1) by simp
  also have "(256::nat) ^ k = 2 ^ (8 * k)" by (simp add: power_mult)
  also have "(2::nat) ^ (8 * k) \<le> 2 ^ LENGTH('a)" using assms(2) by (intro power_increasing) auto
  finally have "unat (of_nat (be_get bs) :: 'a word) = be_get bs"
    by (simp add: unsigned_of_nat take_bit_eq_mod)
  then show ?thesis by (simp add: be_word_def word_be_def be_put_be_get assms(1))
qed

section \<open>Testing one bit\<close>

lemma and_push_bit_1:
  assumes "n < LENGTH('a::len)"
  shows "(x :: 'a word) AND push_bit n 1 \<noteq> 0 \<longleftrightarrow> bit x n"
proof
  assume "x AND push_bit n 1 \<noteq> 0"
  then obtain j where "bit (x AND push_bit n 1) j" by (metis bit_word_eqI bit_0_eq bot_apply bot_bool_def)
  then show "bit x n" by (auto simp: bit_simps)
next
  assume "bit x n"
  then have "bit (x AND push_bit n 1) n" using assms by (simp add: bit_simps)
  then show "x AND push_bit n 1 \<noteq> 0" by (metis bit_0_eq bot_apply bot_bool_def)
qed

end
