(* ===== verification/Wire_Frame.thy ===== *)
theory Wire_Frame
  imports Prelude
begin

text \<open>
  The frame layer of wire format v2: \<open>internal/wire/const.go\<close> (types, flags, limits),
  \<open>internal/wire/errors.go\<close> (the decoding errors) and \<open>internal/wire/frame.go\<close> (the
  13-byte header, the CRC32C trailer, \<open>AppendFrame\<close> and \<open>DecodeFrame\<close>). An encoder
  returns \<open>None\<close> where the Go function panics; a decoder returns \<open>Inl e\<close> for the error
  \<open>e\<close>. The lemmas show that a header or frame round-trips, that decoding is canonical
  (only the bytes the encoder writes are accepted for core types), and that the CRC
  detects every corruption confined to one byte.
\<close>

section \<open>Errors, sizes and frame types\<close>

datatype werr =
    ErrShort | ErrTrailing | ErrMagic | ErrMajor | ErrFeature | ErrMalformed | ErrCRC
  | ErrType | ErrFlags | ErrHandle | ErrLength | ErrReserved | ErrValue | ErrFlowHeader

definition Major :: u8 where [simp]: "Major = 2"
definition PrefaceLen :: nat where [simp]: "PrefaceLen = 40"
definition HeaderLen :: nat where [simp]: "HeaderLen = 13"
definition TrailerLen :: nat where [simp]: "TrailerLen = 4"
definition FrameOverhead :: nat where [simp]: "FrameOverhead = HeaderLen + TrailerLen"
definition MaxFramePayload :: nat where [simp]: "MaxFramePayload = 1048576"
definition DataPrefixLen :: nat where [simp]: "DataPrefixLen = 8"
definition OpenFixedLen :: nat where [simp]: "OpenFixedLen = 32"
definition OpenAckFixedLen :: nat where [simp]: "OpenAckFixedLen = 10"
definition JoinLen :: nat where [simp]: "JoinLen = 25"
definition JoinAckLen :: nat where [simp]: "JoinAckLen = 9"
definition AckLen :: nat where [simp]: "AckLen = 16"
definition FinLen :: nat where [simp]: "FinLen = 8"
definition RstFixedLen :: nat where [simp]: "RstFixedLen = 5"
definition SchedFixedLen :: nat where [simp]: "SchedFixedLen = 29"
definition PingFixedLen :: nat where [simp]: "PingFixedLen = 20"
definition ReasonLen :: nat where [simp]: "ReasonLen = 1"
definition MaxSchedIDs :: nat where [simp]: "MaxSchedIDs = 16"
definition MaxMsg :: nat where [simp]: "MaxMsg = 255"
definition MaxMetadata :: nat where [simp]: "MaxMetadata = 65535"
definition MaxPingPad :: nat where [simp]: "MaxPingPad = 64 * 1024 - PingFixedLen"
definition DgramPrefixLen :: nat where [simp]: "DgramPrefixLen = 8"
definition PackLen :: nat where [simp]: "PackLen = 20"
definition RelHeadLen :: nat where [simp]: "RelHeadLen = 10"
definition RackLen :: nat where [simp]: "RackLen = 8"
definition DetachLen :: nat where [simp]: "DetachLen = 5"
definition DownLen :: nat where [simp]: "DownLen = 4"

definition TypeOpen :: u8 where [simp]: "TypeOpen = 0x01"
definition TypeOpenAck :: u8 where [simp]: "TypeOpenAck = 0x02"
definition TypeJoin :: u8 where [simp]: "TypeJoin = 0x03"
definition TypeJoinAck :: u8 where [simp]: "TypeJoinAck = 0x04"
definition TypeData :: u8 where [simp]: "TypeData = 0x10"
definition TypeAck :: u8 where [simp]: "TypeAck = 0x11"
definition TypeFin :: u8 where [simp]: "TypeFin = 0x12"
definition TypeRst :: u8 where [simp]: "TypeRst = 0x13"
definition TypeSched :: u8 where [simp]: "TypeSched = 0x14"
definition TypeDgram :: u8 where [simp]: "TypeDgram = 0x20"
definition TypePack :: u8 where [simp]: "TypePack = 0x21"
definition TypePing :: u8 where [simp]: "TypePing = 0x30"
definition TypePong :: u8 where [simp]: "TypePong = 0x31"
definition TypeClose :: u8 where [simp]: "TypeClose = 0x32"
definition TypeGoAway :: u8 where [simp]: "TypeGoAway = 0x33"
definition TypeRel :: u8 where [simp]: "TypeRel = 0x34"
definition TypeRack :: u8 where [simp]: "TypeRack = 0x35"
definition TypeDetach :: u8 where [simp]: "TypeDetach = 0x36"
definition TypeDown :: u8 where [simp]: "TypeDown = 0x37"
definition TypeReservedR :: u8 where [simp]: "TypeReservedR = 0x52"

definition Extension :: "u8 \<Rightarrow> bool" where
  "Extension t \<longleftrightarrow> 0x80 \<le> t"

definition CarrierLevel :: "u8 \<Rightarrow> bool" where
  "CarrierLevel t \<longleftrightarrow> t \<in> {TypePing, TypePong, TypeClose, TypeGoAway, TypeRel, TypeRack,
     TypeDetach, TypeDown}"

definition Known :: "u8 \<Rightarrow> bool" where
  "Known t \<longleftrightarrow> t \<in> {TypeOpen, TypeOpenAck, TypeJoin, TypeJoinAck, TypeData, TypeAck, TypeFin,
     TypeRst, TypeSched, TypePing, TypePong, TypeClose, TypeGoAway,
     TypeDgram, TypePack, TypeRel, TypeRack, TypeDetach, TypeDown}"

definition Type_String :: "u8 \<Rightarrow> string" where
  "Type_String t =
     (if t = TypeOpen then ''OPEN''
      else if t = TypeOpenAck then ''OPEN_ACK''
      else if t = TypeJoin then ''JOIN''
      else if t = TypeJoinAck then ''JOIN_ACK''
      else if t = TypeData then ''DATA''
      else if t = TypeAck then ''ACK''
      else if t = TypeFin then ''FIN''
      else if t = TypeRst then ''RST''
      else if t = TypeSched then ''SCHED''
      else if t = TypePing then ''PING''
      else if t = TypePong then ''PONG''
      else if t = TypeClose then ''CLOSE''
      else if t = TypeGoAway then ''GOAWAY''
      else if t = TypeDgram then ''DGRAM''
      else if t = TypePack then ''PACK''
      else if t = TypeRel then ''REL''
      else if t = TypeRack then ''RACK''
      else if t = TypeDetach then ''DETACH''
      else if t = TypeDown then ''DOWN''
      else let hex = ''0123456789abcdef''
           in ''0x'' @ [hex ! unat (drop_bit 4 t), hex ! unat (t AND 0x0F)])"

definition FlagAckFinDelivered :: u8 where [simp]: "FlagAckFinDelivered = 1"
definition FlagAckDone :: u8 where [simp]: "FlagAckDone = 2"
definition FlagPingBusy :: u8 where [simp]: "FlagPingBusy = 1"
definition SchedCauseMask :: u8 where [simp]: "SchedCauseMask = 3"
definition FlagPackFinDelivered :: u8 where [simp]: "FlagPackFinDelivered = 1"
definition FlagPackDone :: u8 where [simp]: "FlagPackDone = 2"

definition AllowedFlags :: "u8 \<Rightarrow> u8" where
  "AllowedFlags t =
     (if Extension t then 0xFF
      else if t = TypeAck then FlagAckFinDelivered OR FlagAckDone
      else if t = TypePack then FlagPackFinDelivered OR FlagPackDone
      else if t = TypePing then FlagPingBusy
      else if t = TypeSched then SchedCauseMask
      else 0)"

text \<open>The codec's handle rule: 0 exactly for carrier-level types.\<close>

definition handleOK :: "u8 \<Rightarrow> u32 \<Rightarrow> bool" where
  "handleOK t handle = (CarrierLevel t = (handle = 0))"

definition PayloadBounds :: "u8 \<Rightarrow> nat \<times> nat \<times> bool" where
  "PayloadBounds t =
     (if Extension t then (0, MaxFramePayload, True)
      else if t = TypeOpen then (OpenFixedLen, OpenFixedLen + MaxMetadata, True)
      else if t = TypeOpenAck then (OpenAckFixedLen, OpenAckFixedLen + MaxMsg, True)
      else if t = TypeJoin then (JoinLen, JoinLen, True)
      else if t = TypeJoinAck then (JoinAckLen, JoinAckLen, True)
      else if t = TypeData then (DataPrefixLen + 1, MaxFramePayload, True)
      else if t = TypeAck then (AckLen, AckLen, True)
      else if t = TypeFin then (FinLen, FinLen, True)
      else if t = TypeRst then (RstFixedLen, RstFixedLen + MaxMsg, True)
      else if t = TypeSched then (SchedFixedLen + 4, SchedFixedLen + 4 * MaxSchedIDs, True)
      else if t = TypePing \<or> t = TypePong then (PingFixedLen, PingFixedLen + MaxPingPad, True)
      else if t = TypeClose \<or> t = TypeGoAway then (ReasonLen, ReasonLen, True)
      else if t = TypeDgram then (DgramPrefixLen, MaxFramePayload, True)
      else if t = TypePack then (PackLen, PackLen, True)
      else if t = TypeRel then (RelHeadLen, MaxFramePayload, True)
      else if t = TypeRack then (RackLen, RackLen, True)
      else if t = TypeDetach then (DetachLen, DetachLen, True)
      else if t = TypeDown then (DownLen, DownLen, True)
      else (0, 0, False))"

section \<open>The frame header\<close>

record header =
  h_Type :: u8
  h_Flags :: u8
  h_Len :: u32
  h_Fseq :: u32
  h_Handle :: u32

definition u24_get :: "byte \<Rightarrow> byte \<Rightarrow> byte \<Rightarrow> u32" where
  "u24_get a b c = push_bit 16 (ucast a) OR push_bit 8 (ucast b) OR ucast c"

definition PutHeader :: "byte list \<Rightarrow> header \<Rightarrow> byte list option" where
  "PutHeader b h =
     (if unat (h_Len h) > MaxFramePayload \<or> length b < HeaderLen then None
      else Some
       (let b = blit b 0 [h_Type h];
            b = blit b 1 [h_Flags h];
            b = blit b 2 [ucast (drop_bit 16 (h_Len h)), ucast (drop_bit 8 (h_Len h)), ucast (h_Len h)];
            b = blit b 5 (PutUint32 (h_Fseq h))
        in blit b 9 (PutUint32 (h_Handle h))))"

definition ParseHeader :: "byte list \<Rightarrow> werr + header" where
  "ParseHeader b =
     (if length b < HeaderLen then Inl ErrShort
      else
        let h = \<lparr>h_Type = b ! 0, h_Flags = b ! 1, h_Len = u24_get (b ! 2) (b ! 3) (b ! 4),
                 h_Fseq = word_be (bslice b 5 9), h_Handle = word_be (bslice b 9 13)\<rparr>
        in if unat (h_Len h) > MaxFramePayload then Inl ErrLength
           else if Extension (h_Type h) then Inr h
           else if \<not> Known (h_Type h) then Inl ErrType
           else if h_Flags h AND NOT (AllowedFlags (h_Type h)) \<noteq> 0 then Inl ErrFlags
           else if \<not> handleOK (h_Type h) (h_Handle h) then Inl ErrHandle
           else let (lo, hi, ok) = PayloadBounds (h_Type h)
                in if unat (h_Len h) < lo \<or> unat (h_Len h) > hi then Inl ErrLength
                   else Inr h)"

section \<open>CRC32C and the frame trailer\<close>

text \<open>\<open>hash/crc32\<close> with the Castagnoli table: the reversed polynomial, one table entry per
  byte value, and the table-driven update \<open>tab[byte(crc)^v] ^ (crc >> 8)\<close> on the
  complemented register.\<close>

definition crc_bit :: "u32 \<Rightarrow> u32" where
  "crc_bit c = (if c AND 1 = 1 then drop_bit 1 c XOR 0x82F63B78 else drop_bit 1 c)"

definition Table :: "byte \<Rightarrow> u32" where
  "Table i = (crc_bit ^^ 8) (ucast i)"

definition crc_byte :: "u32 \<Rightarrow> byte \<Rightarrow> u32" where
  "crc_byte c v = Table (ucast c XOR v) XOR drop_bit 8 c"

definition CRCUpdate :: "u32 \<Rightarrow> byte list \<Rightarrow> u32" where
  "CRCUpdate crc p = NOT (foldl crc_byte (NOT crc) p)"

definition CRC :: "byte list \<Rightarrow> u32" where
  "CRC b = CRCUpdate 0 b"

definition PutTrailer :: "byte list \<Rightarrow> u32 \<Rightarrow> byte list option" where
  "PutTrailer b crc =
     (if length b < TrailerLen then None
      else Some (blit b 0 [ucast (drop_bit 24 crc), ucast (drop_bit 16 crc),
                           ucast (drop_bit 8 crc), ucast crc]))"

definition Trailer :: "byte list \<Rightarrow> u32" where
  "Trailer b = push_bit 24 (ucast (b ! 0)) OR push_bit 16 (ucast (b ! 1))
     OR push_bit 8 (ucast (b ! 2)) OR ucast (b ! 3)"

text \<open>\<open>AppendFrame\<close> grows \<open>dst\<close>, writes the header, appends the payload and writes the
  trailer over the header and payload; \<open>None\<close> is its panic.\<close>

definition AppendFrame :: "byte list \<Rightarrow> header \<Rightarrow> byte list \<Rightarrow> byte list option" where
  "AppendFrame dst h payload =
     (if length payload > MaxFramePayload then None
      else let h = h\<lparr>h_Len := of_nat (length payload)\<rparr>
           in case PutHeader (replicate HeaderLen 0) h of
                None \<Rightarrow> None
              | Some hb \<Rightarrow>
                  (case PutTrailer (replicate TrailerLen 0) (CRC (hb @ payload)) of
                     None \<Rightarrow> None
                   | Some tr \<Rightarrow> Some (dst @ (hb @ payload) @ tr)))"

record frame =
  f_Header :: header
  f_Payload :: "byte list"

definition DecodeFrame :: "byte list \<Rightarrow> werr + (frame \<times> nat)" where
  "DecodeFrame b =
     (case ParseHeader b of
        Inl e \<Rightarrow> Inl e
      | Inr h \<Rightarrow>
          let end = HeaderLen + unat (h_Len h)
          in if length b < end + TrailerLen then Inl ErrShort
             else if CRC (take end b) \<noteq> Trailer (drop end b) then Inl ErrCRC
             else Inr (\<lparr>f_Header = h, f_Payload = bslice b HeaderLen end\<rparr>, end + TrailerLen))"

text \<open>Serial-number order (RFC 1982) on 32-bit numbers: \<open>int32(b-a) > 0\<close>.\<close>

definition SeqLess :: "u32 \<Rightarrow> u32 \<Rightarrow> bool" where
  "SeqLess a b \<longleftrightarrow> a \<noteq> b \<and> 0 <s b - a"



section \<open>Header lemmas\<close>

lemma bit_u24_get: "bit (u24_get a b c) n \<longleftrightarrow>
   (if n < 8 then bit c n else if n < 16 then bit b (n - 8)
    else if n < 24 then bit a (n - 16) else False)"
  by (auto simp: u24_get_def bit_simps dest: bit_imp_le_length)

lemma u24_get_less: "u24_get a b c < 2 ^ 24"
proof -
  have "u24_get a b c = take_bit 24 (u24_get a b c)"
    by (rule bit_word_eqI) (auto simp: bit_u24_get bit_simps)
  also have "\<dots> < 2 ^ 24"
    using and_mask_less' [of 24 "u24_get a b c"] by (simp add: take_bit_eq_mask)
  finally show ?thesis .
qed

lemma u24_get_put [simp]:
  assumes "unat n \<le> MaxFramePayload"
  shows "u24_get (ucast (drop_bit 16 n)) (ucast (drop_bit 8 n)) (ucast n) = n"
proof -
  have "n < 2 ^ 24" using assms by (simp add: word_less_nat_alt)
  then have t: "take_bit 24 n = n" by (simp add: less_mask_eq take_bit_eq_mask)
  have hi: "\<not> bit n i" if "24 \<le> i" for i
    using that by (subst t [symmetric]) (simp add: bit_take_bit_iff)
  show ?thesis by (rule bit_word_eqI) (auto simp: bit_u24_get bit_simps hi)
qed

lemma u24_put_get:
  "[ucast (drop_bit 16 (u24_get a b c)), ucast (drop_bit 8 (u24_get a b c)),
    ucast (u24_get a b c)] = [a, b, c]"
  by simp (intro conjI bit_word_eqI; simp add: bit_u24_get bit_simps)

text \<open>The 13 bytes of a header.\<close>

definition enc_header :: "header \<Rightarrow> byte list" where
  "enc_header h =
     [h_Type h, h_Flags h,
      ucast (drop_bit 16 (h_Len h)), ucast (drop_bit 8 (h_Len h)), ucast (h_Len h)]
     @ PutUint32 (h_Fseq h) @ PutUint32 (h_Handle h)"

lemma length_enc_header [simp]: "length (enc_header h) = 13"
  by (simp add: enc_header_def)

lemma PutHeader_enc:
  "PutHeader b h = (if unat (h_Len h) > MaxFramePayload \<or> length b < HeaderLen then None
                    else Some (blit b 0 (enc_header h)))"
  by (simp add: PutHeader_def enc_header_def go_simps Let_def)

definition header_ok :: "header \<Rightarrow> bool" where
  "header_ok h \<longleftrightarrow> unat (h_Len h) \<le> MaxFramePayload \<and>
     (Extension (h_Type h) \<or>
       (Known (h_Type h) \<and> h_Flags h AND NOT (AllowedFlags (h_Type h)) = 0 \<and>
        handleOK (h_Type h) (h_Handle h) \<and>
        (case PayloadBounds (h_Type h) of (lo, hi, ok) \<Rightarrow>
           lo \<le> unat (h_Len h) \<and> unat (h_Len h) \<le> hi)))"

lemma ParseHeader_enc:
  assumes "header_ok h"
  shows "ParseHeader (enc_header h @ rest) = Inr h"
proof -
  let ?b = "enc_header h @ rest"
  have s: "bslice ?b 5 9 = PutUint32 (h_Fseq h)" "bslice ?b 9 13 = PutUint32 (h_Handle h)"
    by (simp_all add: bslice_def enc_header_def)
  have n: "?b ! 0 = h_Type h" "?b ! Suc 0 = h_Flags h"
    "u24_get (?b ! 2) (?b ! 3) (?b ! 4) = h_Len h"
    using assms by (simp_all add: enc_header_def header_ok_def)
  show ?thesis
    using assms unfolding ParseHeader_def Let_def s
    by (auto simp: n header_ok_def)
qed

lemma ParseHeader_Inr:
  assumes "ParseHeader b = Inr h"
  shows "header_ok h" and "take 13 b = enc_header h" and "13 \<le> length b"
proof -
  from assms show l: "13 \<le> length b"
    by (simp add: ParseHeader_def split: if_splits)
  from assms l have h: "h = \<lparr>h_Type = b ! 0, h_Flags = b ! 1,
      h_Len = u24_get (b ! 2) (b ! 3) (b ! 4),
      h_Fseq = word_be (bslice b 5 9), h_Handle = word_be (bslice b 9 13)\<rparr>"
    by (simp add: ParseHeader_def Let_def split: if_splits prod.splits)
  show "header_ok h"
    using assms l unfolding ParseHeader_def Let_def h [symmetric]
    by (auto simp: header_ok_def not_less split: if_splits prod.splits)
  have "take 13 b = bslice b 0 5 @ bslice b 5 9 @ bslice b 9 13"
    by (simp add: bslice_join bslice_0 take_join)
  moreover have "bslice b 0 5 = [b ! 0, b ! 1, b ! 2, b ! 3, b ! 4]"
    using l by (auto simp: list_eq_iff_nth_eq nth_bslice less_Suc_eq numeral_eq_Suc)
  ultimately show "take 13 b = enc_header h"
    using l u24_put_get [of "b ! 2" "b ! 3" "b ! 4"]
    by (simp add: enc_header_def h be_word_word_be)
qed



section \<open>CRC lemmas\<close>

lemma ucast_byte_inj: "(ucast (v::byte) :: u32) = ucast w \<longleftrightarrow> v = w"
proof
  assume eq: "(ucast v :: u32) = ucast w"
  show "v = w"
  proof (rule bit_word_eqI)
    fix n assume "n < LENGTH(8)"
    moreover have "bit (ucast v :: u32) n = bit (ucast w :: u32) n" by (simp only: eq)
    ultimately show "bit v n = bit w n" by (simp add: bit_ucast_iff)
  qed
qed simp

lemma and_one_iff: "(c::u32) AND 1 = 1 \<longleftrightarrow> bit c 0"
  by (simp add: and_one_eq odd_iff_mod_2_eq_one bit_0)

lemma crc_bit_xor: "crc_bit (x XOR y) = crc_bit x XOR crc_bit y"
  by (rule bit_word_eqI) (auto simp: crc_bit_def and_one_iff bit_simps)

lemma crc_bit_0 [simp]: "crc_bit 0 = 0"
  by (simp add: crc_bit_def)

lemma crc_bit_eq_0: "crc_bit z = 0 \<Longrightarrow> z = 0"
proof (cases "bit z 0")
  case True
  assume "crc_bit z = 0"
  with True have "\<not> bit (drop_bit 1 z XOR 0x82F63B78) 31"
    by (simp add: crc_bit_def and_one_iff)
  moreover have "bit (0x82F63B78 :: u32) 31" by simp
  moreover have "\<not> bit (drop_bit 1 z) 31"
    using bit_imp_le_length [of z 32] by (auto simp: bit_simps)
  ultimately have False by (auto simp: bit_xor_iff simp del: bit_numeral_iff)
  then show ?thesis ..
next
  case False
  assume "crc_bit z = 0"
  with False have d: "drop_bit 1 z = 0" by (simp add: crc_bit_def and_one_iff)
  show ?thesis
  proof (rule bit_word_eqI)
    fix n
    have "\<not> bit (drop_bit 1 z) (n - 1)" unfolding d by simp
    with False show "bit z n = bit 0 n" by (cases n) (auto simp: bit_simps)
  qed
qed

lemma crc_bit_inj: "crc_bit x = crc_bit y \<Longrightarrow> x = y"
  using crc_bit_eq_0 [of "x XOR y"] by (simp add: crc_bit_xor xor_eq_0)

lemma crc_bits_xor: "(crc_bit ^^ n) (x XOR y) = (crc_bit ^^ n) x XOR (crc_bit ^^ n) y"
  by (induction n) (auto simp: crc_bit_xor)

lemma crc_bits_inj: "(crc_bit ^^ n) x = (crc_bit ^^ n) y \<Longrightarrow> x = y"
  by (induction n) (auto dest: crc_bit_inj)

lemma crc_bits_shift: "\<forall>i<n. \<not> bit z i \<Longrightarrow> (crc_bit ^^ n) z = drop_bit n z"
proof (induction n)
  case (Suc n)
  then have "(crc_bit ^^ n) z = drop_bit n z" and "\<not> bit (drop_bit n z) 0"
    by (auto simp: bit_simps)
  then have "(crc_bit ^^ Suc n) z = drop_bit 1 (drop_bit n z)"
    by (simp add: crc_bit_def and_one_iff)
  then show ?case by (simp add: drop_bit_drop_bit ac_simps)
qed simp

text \<open>The table-driven step is eight bit steps on the register with the byte mixed in.\<close>

lemma crc_byte_eq: "crc_byte c v = (crc_bit ^^ 8) (c XOR ucast v)"
proof -
  have lo: "c XOR ucast v = ucast (ucast c XOR v :: byte) XOR (c AND NOT (mask 8))"
    by (rule bit_word_eqI) (auto simp: bit_simps)
  have hi: "(crc_bit ^^ 8) (c AND NOT (mask 8)) = drop_bit 8 (c AND NOT (mask 8))"
    by (rule crc_bits_shift) (simp add: bit_simps)
  have d: "drop_bit 8 (c AND NOT (mask 8)) = drop_bit 8 c"
    by (rule bit_word_eqI) (auto simp: bit_simps dest: bit_imp_le_length)
  show ?thesis unfolding lo crc_bits_xor hi d by (simp add: crc_byte_def Table_def)
qed

lemma crc_byte_inj_reg: "crc_byte c v = crc_byte d v \<Longrightarrow> c = d"
  using crc_bits_inj [of 8 "c XOR ucast v" "d XOR ucast v"]
  by (simp add: crc_byte_eq xor_cancel_right)

lemma crc_byte_inj_byte: "crc_byte c v = crc_byte c w \<Longrightarrow> v = w"
  using crc_bits_inj [of 8 "c XOR ucast v" "c XOR ucast w"]
  by (simp add: crc_byte_eq xor_cancel_left ucast_byte_inj)

lemma foldl_crc_byte_inj: "foldl crc_byte c p = foldl crc_byte d p \<Longrightarrow> c = d"
  by (induction p arbitrary: c d) (auto dest: crc_byte_inj_reg)

lemma CRCUpdate_append: "CRCUpdate (CRCUpdate crc p) q = CRCUpdate crc (p @ q)"
  by (simp add: CRCUpdate_def)

lemma CRC_byte_change:
  assumes "i < length p" and "v \<noteq> p ! i"
  shows "CRC (p[i := v]) \<noteq> CRC p"
proof
  assume eq: "CRC (p[i := v]) = CRC p"
  have p: "p = take i p @ p ! i # drop (Suc i) p" using assms(1) by (simp add: id_take_nth_drop)
  have q: "p[i := v] = take i p @ v # drop (Suc i) p" using assms(1) by (simp add: upd_conv_take_nth_drop)
  let ?c = "foldl crc_byte (NOT 0) (take i p)"
  have "foldl crc_byte (crc_byte ?c v) (drop (Suc i) p)
      = foldl crc_byte (crc_byte ?c (p ! i)) (drop (Suc i) p)"
    using eq unfolding CRC_def CRCUpdate_def q by (subst (asm) (3) p) simp
  then have "crc_byte ?c v = crc_byte ?c (p ! i)" by (rule foldl_crc_byte_inj)
  then show False using assms(2) by (auto dest: crc_byte_inj_byte)
qed

lemma funpow8: "(f ^^ 8) x = f (f (f (f (f (f (f (f x)))))))"
  by (simp add: numeral_eq_Suc)



section \<open>Frame lemmas\<close>

definition trailer_bytes :: "u32 \<Rightarrow> byte list" where
  "trailer_bytes crc = [ucast (drop_bit 24 crc), ucast (drop_bit 16 crc),
                        ucast (drop_bit 8 crc), ucast crc]"

lemma length_trailer_bytes [simp]: "length (trailer_bytes c) = 4"
  by (simp add: trailer_bytes_def)

lemma bit_Trailer: "bit (Trailer b) n \<longleftrightarrow>
   (if n < 8 then bit (b ! 3) n else if n < 16 then bit (b ! 2) (n - 8)
    else if n < 24 then bit (b ! 1) (n - 16)
    else if n < 32 then bit (b ! 0) (n - 24) else False)"
  by (auto simp: Trailer_def bit_simps dest: bit_imp_le_length)

lemma Trailer_bytes [simp]: "Trailer (trailer_bytes c @ r) = c"
  by (rule bit_word_eqI) (auto simp: bit_Trailer trailer_bytes_def bit_simps)

lemma bytes_Trailer: "4 \<le> length b \<Longrightarrow> trailer_bytes (Trailer b) = take 4 b"
proof -
  assume l: "4 \<le> length b"
  have "trailer_bytes (Trailer b) = [b ! 0, b ! 1, b ! 2, b ! 3]"
    unfolding trailer_bytes_def list.inject
    by (intro conjI bit_word_eqI; simp add: bit_Trailer bit_simps)
  also have "\<dots> = take 4 b"
    using l by (auto simp: list_eq_iff_nth_eq less_Suc_eq numeral_eq_Suc)
  finally show ?thesis .
qed

text \<open>A whole frame: the header with the payload's length, the payload, the CRC of both.\<close>

definition enc_frame :: "header \<Rightarrow> byte list \<Rightarrow> byte list" where
  "enc_frame h p =
     (let hb = enc_header (h\<lparr>h_Len := of_nat (length p)\<rparr>)
      in hb @ p @ trailer_bytes (CRC (hb @ p)))"

lemma length_enc_frame [simp]: "length (enc_frame h p) = length p + FrameOverhead"
  by (simp add: enc_frame_def Let_def)

lemma unat_len [simp]: "n \<le> MaxFramePayload \<Longrightarrow> unat (of_nat n :: u32) = n"
  by (simp add: unsigned_of_nat take_bit_eq_mod)

lemma AppendFrame_enc:
  "AppendFrame dst h p =
     (if length p > MaxFramePayload then None else Some (dst @ enc_frame h p))"
  unfolding AppendFrame_def PutHeader_enc PutTrailer_def enc_frame_def Let_def
  by (auto simp: trailer_bytes_def blit_def simp del: MaxFramePayload_def)

lemma DecodeFrame_enc:
  assumes ok: "header_ok (h\<lparr>h_Len := of_nat (length p)\<rparr>)" and l: "length p \<le> MaxFramePayload"
  shows "DecodeFrame (enc_frame h p @ rest) =
     Inr (\<lparr>f_Header = h\<lparr>h_Len := of_nat (length p)\<rparr>, f_Payload = p\<rparr>, length p + FrameOverhead)"
proof -
  define h' where "h' = h\<lparr>h_Len := of_nat (length p)\<rparr>"
  define b where "b = enc_frame h p @ rest"
  have b: "b = enc_header h' @ p @ trailer_bytes (CRC (enc_header h' @ p)) @ rest"
    by (simp add: b_def h'_def enc_frame_def Let_def)
  have e: "unat (h_Len h') = length p" using l by (simp add: h'_def)
  have "ParseHeader b = Inr h'" unfolding b by (rule ParseHeader_enc) (use ok in \<open>simp add: h'_def\<close>)
  moreover have "take (13 + length p) b = enc_header h' @ p" unfolding b by simp
  moreover have "drop (13 + length p) b = trailer_bytes (CRC (enc_header h' @ p)) @ rest"
    unfolding b by simp
  moreover have "bslice b 13 (13 + length p) = p" unfolding b by (simp add: bslice_def)
  moreover have "13 + length p + 4 \<le> length b" unfolding b by simp
  ultimately have "DecodeFrame b = Inr (\<lparr>f_Header = h', f_Payload = p\<rparr>, length p + FrameOverhead)"
    unfolding DecodeFrame_def Let_def by (simp add: e)
  then show ?thesis by (simp add: b_def h'_def)
qed

lemma DecodeFrame_Inr:
  assumes "DecodeFrame b = Inr (f, n)"
  shows "n \<le> length b" and "n = length (f_Payload f) + FrameOverhead"
    and "take n b = enc_frame (f_Header f) (f_Payload f)"
    and "header_ok (f_Header f)" and "h_Len (f_Header f) = of_nat (length (f_Payload f))"
    and "length (f_Payload f) \<le> MaxFramePayload"
proof -
  obtain h where ph: "ParseHeader b = Inr h"
    using assms by (auto simp: DecodeFrame_def split: sum.splits)
  let ?e = "13 + unat (h_Len h)"
  have le: "?e + 4 \<le> length b" and crc: "CRC (take ?e b) = Trailer (drop ?e b)"
    and f: "f = \<lparr>f_Header = h, f_Payload = bslice b 13 ?e\<rparr>" and n: "n = ?e + 4"
    using assms by (auto simp: DecodeFrame_def ph Let_def split: if_splits)
  note hd = ParseHeader_Inr [OF ph]
  have lp: "length (f_Payload f) = unat (h_Len h)" using le by (simp add: f)
  show "n \<le> length b" and "n = length (f_Payload f) + FrameOverhead" using le by (simp_all add: n lp)
  show "header_ok (f_Header f)" using hd(1) by (simp add: f)
  show "length (f_Payload f) \<le> MaxFramePayload" using hd(1) by (simp add: lp header_ok_def)
  show hl: "h_Len (f_Header f) = of_nat (length (f_Payload f))" unfolding lp by (simp add: f)
  have "take ?e b = enc_header h @ f_Payload f"
    using take_join [of 13 ?e b] hd(2) by (simp add: f)
  moreover have "take n b = take ?e b @ take 4 (drop ?e b)" unfolding n by (rule take_add)
  moreover have "take 4 (drop ?e b) = trailer_bytes (CRC (take ?e b))"
    using le bytes_Trailer [of "drop ?e b"] by (simp add: crc)
  moreover have "h\<lparr>h_Len := of_nat (length (f_Payload f))\<rparr> = h" using hl by (simp add: f)
  ultimately show "take n b = enc_frame (f_Header f) (f_Payload f)"
    by (simp add: enc_frame_def Let_def f)
qed

text \<open>Changing one byte outside the length field is always noticed.\<close>

lemma DecodeFrame_corrupt:
  assumes d: "DecodeFrame b = Inr (f, n)" and i: "i < n" "i \<notin> {2, 3, 4}" and v: "v \<noteq> b ! i"
  shows "\<exists>e. DecodeFrame (b[i := v]) = Inl e"
proof (cases "ParseHeader (b[i := v])")
  case (Inr h')
  let ?b = "b[i := v]"
  obtain h where ph: "ParseHeader b = Inr h"
    using d by (auto simp: DecodeFrame_def split: sum.splits)
  let ?e = "13 + unat (h_Len h)"
  have le: "?e + 4 \<le> length b" and crc: "CRC (take ?e b) = Trailer (drop ?e b)" and n: "n = ?e + 4"
    using d by (auto simp: DecodeFrame_def ph Let_def split: if_splits)
  have "h_Len h' = u24_get (?b ! 2) (?b ! 3) (?b ! 4)" "h_Len h = u24_get (b ! 2) (b ! 3) (b ! 4)"
    using Inr ph by (auto simp: ParseHeader_def Let_def split: if_splits prod.splits)
  with i have hl: "h_Len h' = h_Len h" by simp
  have "CRC (take ?e ?b) \<noteq> Trailer (drop ?e ?b)"
  proof (cases "i < ?e")
    case True
    have "drop ?e ?b = drop ?e b" using True by (simp add: drop_update_cancel)
    moreover have "CRC (take ?e ?b) \<noteq> CRC (take ?e b)"
      using CRC_byte_change [of i "take ?e b" v] True v le by (simp add: take_update_swap)
    ultimately show ?thesis using crc by simp
  next
    case False
    then have t: "take ?e ?b = take ?e b" by simp
    have "take 4 (drop ?e ?b) \<noteq> take 4 (drop ?e b)"
    proof
      assume "take 4 (drop ?e ?b) = take 4 (drop ?e b)"
      then have "take 4 (drop ?e ?b) ! (i - ?e) = take 4 (drop ?e b) ! (i - ?e)" by simp
      then show False using False i n le v by (simp add: less_diff_conv2)
    qed
    then have "Trailer (drop ?e ?b) \<noteq> Trailer (drop ?e b)"
      using bytes_Trailer [of "drop ?e b"] bytes_Trailer [of "drop ?e ?b"] le by fastforce
    with crc t show ?thesis by simp
  qed
  then show ?thesis using le unfolding DecodeFrame_def Inr by (simp add: Let_def hl)
qed (simp add: DecodeFrame_def)

section \<open>Properties of frames\<close>

definition sample_header :: header where
  "sample_header = \<lparr>h_Type = TypeData, h_Flags = 0, h_Len = 9, h_Fseq = 1, h_Handle = 1\<rparr>"

definition sample_payload :: "byte list" where
  "sample_payload = [0, 0, 0, 0, 0, 0, 0, 7, 0x61]"

lemma sample_ok:
  "header_ok (sample_header\<lparr>h_Len := of_nat (length sample_payload)\<rparr>)"
  "length sample_payload \<le> MaxFramePayload"
  by (simp_all add: header_ok_def sample_header_def sample_payload_def Known_def Extension_def
      AllowedFlags_def handleOK_def CarrierLevel_def PayloadBounds_def)

lemmas sample_decodes = DecodeFrame_enc [OF sample_ok, of "[]"]

text \<open>Claim C4: frames round-trip. For a header the codec accepts with the payload's length,
  \<open>AppendFrame\<close> succeeds, extends its destination by the payload plus 17 bytes, and
  \<open>DecodeFrame\<close> at the start of the appended bytes returns exactly that header and payload and
  consumes exactly those bytes, whatever follows them in the stream.\<close>

theorem frame_roundtrip:
  assumes "header_ok (h\<lparr>h_Len := of_nat (length p)\<rparr>)" and "length p \<le> MaxFramePayload"
  shows "\<exists>fr. AppendFrame dst h p = Some (dst @ fr) \<and> length fr = length p + FrameOverhead \<and>
    DecodeFrame (fr @ rest) =
      Inr (\<lparr>f_Header = h\<lparr>h_Len := of_nat (length p)\<rparr>, f_Payload = p\<rparr>, length fr)"
  using assms by (intro exI [of _ "enc_frame h p"]) (simp add: AppendFrame_enc DecodeFrame_enc)

theorem frame_roundtrip_witness:
  "\<exists>fr. AppendFrame [1, 2] sample_header sample_payload = Some ([1, 2] @ fr) \<and>
    length fr = 26 \<and>
    DecodeFrame (fr @ [5]) = Inr (\<lparr>f_Header = sample_header, f_Payload = sample_payload\<rparr>, 26)"
proof -
  have "sample_header\<lparr>h_Len := of_nat (length sample_payload)\<rparr> = sample_header"
    and "length sample_payload = 9"
    by (simp_all add: sample_header_def sample_payload_def)
  then show ?thesis using frame_roundtrip [OF sample_ok, of "[1, 2]" "[5]"] by auto
qed

text \<open>Claim C6: decoding is canonical. Whenever \<open>DecodeFrame\<close> accepts the front of a buffer,
  the bytes it consumed are exactly what \<open>AppendFrame\<close> writes for the decoded header and payload,
  the header passes every rule of the codec and its length is the payload's, at most
  \<open>MaxFramePayload\<close>.\<close>

theorem frame_canonical:
  assumes "DecodeFrame b = Inr (f, n)"
  shows "AppendFrame [] (f_Header f) (f_Payload f) = Some (take n b) \<and> n \<le> length b \<and>
    n = length (f_Payload f) + FrameOverhead \<and> header_ok (f_Header f) \<and>
    unat (h_Len (f_Header f)) = length (f_Payload f) \<and> length (f_Payload f) \<le> MaxFramePayload"
  using DecodeFrame_Inr [OF assms] by (simp add: AppendFrame_enc)

theorem frame_canonical_witness:
  "DecodeFrame (enc_frame sample_header sample_payload) =
     Inr (\<lparr>f_Header = sample_header, f_Payload = sample_payload\<rparr>, 26) \<and>
   AppendFrame [] sample_header sample_payload =
     Some (take 26 (enc_frame sample_header sample_payload))"
proof -
  have s: "sample_header\<lparr>h_Len := of_nat (length sample_payload)\<rparr> = sample_header"
    "length sample_payload = 9"
    by (simp_all add: sample_header_def sample_payload_def)
  have d: "DecodeFrame (enc_frame sample_header sample_payload) =
     Inr (\<lparr>f_Header = sample_header, f_Payload = sample_payload\<rparr>, 26)"
    using sample_decodes s by simp
  show ?thesis using d frame_canonical [OF d] by simp
qed

text \<open>Claim C9: single-byte corruption is detected. If a buffer decodes to a frame and one of
  the frame's bytes outside the three length bytes is replaced by any other value, then
  \<open>DecodeFrame\<close> rejects the changed buffer: a header rule fails or the CRC32C does not match.\<close>

theorem frame_corruption_detected:
  assumes "DecodeFrame b = Inr (f, n)" and "i < n" and "i \<notin> {2, 3, 4}" and "v \<noteq> b ! i"
  shows "\<exists>e. DecodeFrame (b[i := v]) = Inl e"
  using assms by (rule DecodeFrame_corrupt)

theorem frame_corruption_detected_witness:
  "\<exists>e. DecodeFrame ((enc_frame sample_header sample_payload)[0 := 0x11]) = Inl e"
proof -
  have s: "sample_header\<lparr>h_Len := of_nat (length sample_payload)\<rparr> = sample_header"
    "length sample_payload = 9"
    by (simp_all add: sample_header_def sample_payload_def)
  have d: "DecodeFrame (enc_frame sample_header sample_payload) =
     Inr (\<lparr>f_Header = sample_header, f_Payload = sample_payload\<rparr>, 26)"
    using sample_decodes s by simp
  have "enc_frame sample_header sample_payload ! 0 = 0x10"
    by (simp add: enc_frame_def enc_header_def Let_def sample_header_def)
  then show ?thesis by (intro frame_corruption_detected [OF d]) auto
qed

end
