(* ===== verification/Codec.thy ===== *)
theory Codec
  imports Prelude
begin

text \<open>
  The contract of one payload codec of \<open>internal/wire\<close>: an encoder that writes into a
  caller's buffer and returns the number of bytes (\<open>None\<close> is its panic), a decoder of the
  exact payload, the bytes \<open>enc\<close> of a value and the values \<open>valid\<close> the format can carry.
  The lemmas of the locale are proved once and used for every payload: round trip,
  canonical form, injectivity, and that exactly the encodings of valid values decode.
\<close>

locale codec =
  fixes put :: "byte list \<Rightarrow> 'a \<Rightarrow> (byte list \<times> nat) option"
    and parse :: "byte list \<Rightarrow> 'e + 'a"
    and enc :: "'a \<Rightarrow> byte list"
    and valid :: "'a \<Rightarrow> bool"
  assumes put_enc: "valid x \<Longrightarrow> put dst x =
      (if length dst < length (enc x) then None else Some (blit dst 0 (enc x), length (enc x)))"
    and parse_enc: "valid x \<Longrightarrow> parse (enc x) = Inr x"
    and parse_Inr: "parse p = Inr x \<Longrightarrow> valid x \<and> enc x = p"
begin

lemma roundtrip:
  assumes "valid x" and "put dst x = Some (d, n)"
  shows "parse (take n d) = Inr x" and "drop n d = drop n dst"
  using assms by (auto simp: put_enc parse_enc blit_def split: if_splits)

lemma put_total: "valid x \<Longrightarrow> length (enc x) \<le> length dst \<Longrightarrow> \<exists>d. put dst x = Some (d, length (enc x))"
  by (simp add: put_enc)

lemma canonical: "parse p = Inr x \<Longrightarrow> length dst = length p \<Longrightarrow> put dst x = Some (p, length p)"
  by (auto simp: put_enc blit_def dest!: parse_Inr)

lemma parse_iff: "parse p = Inr x \<longleftrightarrow> valid x \<and> enc x = p"
  using parse_enc parse_Inr by blast

lemma parse_iff_put:
  "parse p = Inr x \<longleftrightarrow> valid x \<and> put (replicate (length p) 0) x = Some (p, length p)"
  by (auto simp: parse_iff put_enc blit_def split: if_splits)

lemma parse_inj: "parse p = Inr x \<Longrightarrow> parse q = Inr x \<Longrightarrow> p = q"
  by (auto simp: parse_iff)

lemma enc_inj: "valid x \<Longrightarrow> valid y \<Longrightarrow> enc x = enc y \<Longrightarrow> x = y"
  by (metis parse_enc sum.inject(2))

end

end
