(* ===== verification/Wire_Payload.thy ===== *)
theory Wire_Payload
  imports Wire_Frame Codec
begin

text \<open>
  The payload codecs of \<open>internal/wire/payload.go\<close>, \<open>detach.go\<close> and \<open>down.go\<close>: one record
  per payload struct, one definition per \<open>Put\<close> and \<open>Parse\<close> function with its checks in the
  source's order. Every codec is an interpretation of the locale \<open>codec\<close>.
\<close>

section \<open>Enumerations\<close>

definition KindStream :: u8 where [simp]: "KindStream = 1"
definition KindDatagram :: u8 where [simp]: "KindDatagram = 2"
definition MaxMode :: u8 where [simp]: "MaxMode = 3"
definition OpenFlagEarly :: u16 where [simp]: "OpenFlagEarly = 1"
definition StatusOK :: u8 where [simp]: "StatusOK = 0"
definition StatusGoingAway :: u8 where [simp]: "StatusGoingAway = 5"
definition CloseRetire :: u8 where [simp]: "CloseRetire = 1"
definition CloseCapacity :: u8 where [simp]: "CloseCapacity = 2"
definition GoAwayShutdown :: u8 where [simp]: "GoAwayShutdown = 1"
definition DetachEnded :: u8 where [simp]: "DetachEnded = 1"
definition DetachRetired :: u8 where [simp]: "DetachRetired = 2"
definition MinPacketPayload :: nat where [simp]: "MinPacketPayload = 512"
definition MaxPacketPayload :: nat where [simp]: "MaxPacketPayload = 65507"
definition DgramOverhead :: nat where [simp]: "DgramOverhead = FrameOverhead + DgramPrefixLen"
definition MinFrameBudget :: nat where [simp]: "MinFrameBudget = MinPacketPayload + DgramOverhead"
definition MaxDatagram :: nat where [simp]: "MaxDatagram = 65507"

text \<open>\<open>exactTail\<close>: the error (if any) of comparing the bytes present with those required.\<close>

definition exactTail :: "nat \<Rightarrow> nat \<Rightarrow> werr option" where
  "exactTail have' want =
     (if have' < want then Some ErrShort else if have' > want then Some ErrTrailing else None)"

section \<open>OPEN and OPEN\_ACK\<close>

record open_p =
  o_SID :: "byte list"
  o_Kind :: u8
  o_Mode :: u8
  o_Flags :: u16
  o_RetainMs :: u32
  o_Window :: u32
  o_PMTU :: u16
  o_Metadata :: "byte list"

definition PutOpen :: "byte list \<Rightarrow> open_p \<Rightarrow> (byte list \<times> nat) option" where
  "PutOpen dst x =
     (let n = OpenFixedLen + length (o_Metadata x)
      in if length (o_Metadata x) > MaxMetadata \<or> length dst < n then None
         else Some
          (let d = blit dst 0 (o_SID x);
               d = blit d 16 [o_Kind x];
               d = blit d 17 [o_Mode x];
               d = blit d 18 (PutUint16 (o_Flags x));
               d = blit d 20 (PutUint32 (o_RetainMs x));
               d = blit d 24 (PutUint32 (o_Window x));
               d = blit d 28 (PutUint16 (o_PMTU x));
               d = blit d 30 (PutUint16 (of_nat (length (o_Metadata x))))
           in blit d OpenFixedLen (o_Metadata x), n))"

definition ParseOpen :: "byte list \<Rightarrow> int \<Rightarrow> werr + open_p" where
  "ParseOpen p maxMeta =
     (if length p < OpenFixedLen then Inl ErrShort
      else
       let maxMeta = min (max maxMeta 0) (int MaxMetadata);
           mlen = be_get (bslice p 30 32)
       in if int mlen > maxMeta then Inl ErrLength
          else case exactTail (length p - OpenFixedLen) mlen of
            Some e \<Rightarrow> Inl e
          | None \<Rightarrow>
             let x = \<lparr>o_SID = bslice p 0 16, o_Kind = p ! 16, o_Mode = p ! 17,
                      o_Flags = word_be (bslice p 18 20), o_RetainMs = word_be (bslice p 20 24),
                      o_Window = word_be (bslice p 24 28), o_PMTU = word_be (bslice p 28 30),
                      o_Metadata = bslice p OpenFixedLen (length p)\<rparr>
             in if o_SID x = replicate 16 0 then Inl ErrReserved
                else if o_Kind x \<noteq> KindStream \<and> o_Kind x \<noteq> KindDatagram then Inl ErrValue
                else if o_Mode x < 1 \<or> o_Mode x > MaxMode then Inl ErrValue
                else if o_Flags x AND NOT OpenFlagEarly \<noteq> 0 then Inl ErrReserved
                else if o_Flags x AND OpenFlagEarly \<noteq> 0 \<and> o_Kind x \<noteq> KindStream then Inl ErrReserved
                else if o_Kind x = KindStream \<and> o_PMTU x \<noteq> 0 then Inl ErrReserved
                else if o_Kind x = KindDatagram \<and>
                  (unat (o_PMTU x) < MinPacketPayload \<or> unat (o_PMTU x) > MaxPacketPayload)
                then Inl ErrValue
                else if o_Kind x = KindDatagram \<and> o_Window x \<noteq> 0 \<and>
                  (unat (o_Window x) < MinFrameBudget \<or> unat (o_Window x) > MaxDatagram)
                then Inl ErrValue
                else Inr x)"

record openack_p =
  oa_Status :: u8
  oa_Window :: u32
  oa_Code :: u32
  oa_Msg :: "byte list"

definition PutOpenAck :: "byte list \<Rightarrow> openack_p \<Rightarrow> (byte list \<times> nat) option" where
  "PutOpenAck dst a =
     (if length (oa_Msg a) > MaxMsg then None
      else
       let (window, code, msg) =
             (if oa_Status a = StatusOK then (oa_Window a, 0, []) else (0, oa_Code a, oa_Msg a));
           n = OpenAckFixedLen + length msg
       in if length dst < n then None
          else Some
           (let d = blit dst 0 [oa_Status a];
                d = blit d 1 (PutUint32 window);
                d = blit d 5 (PutUint32 code);
                d = blit d 9 [of_nat (length msg)]
            in blit d OpenAckFixedLen msg, n))"

definition ParseOpenAck :: "byte list \<Rightarrow> werr + openack_p" where
  "ParseOpenAck p =
     (if length p < OpenAckFixedLen then Inl ErrShort
      else
       let mlen = unat (p ! 9)
       in case exactTail (length p - OpenAckFixedLen) mlen of
            Some e \<Rightarrow> Inl e
          | None \<Rightarrow>
             let a = \<lparr>oa_Status = p ! 0, oa_Window = word_be (bslice p 1 5),
                      oa_Code = word_be (bslice p 5 9),
                      oa_Msg = bslice p OpenAckFixedLen (length p)\<rparr>
             in if oa_Status a > StatusGoingAway then Inl ErrValue
                else if oa_Status a = StatusOK \<and> (oa_Code a \<noteq> 0 \<or> mlen \<noteq> 0) then Inl ErrReserved
                else if oa_Status a \<noteq> StatusOK \<and> oa_Window a \<noteq> 0 then Inl ErrReserved
                else Inr a)"

section \<open>JOIN and JOIN\_ACK\<close>

record join_p =
  j_SID :: "byte list"
  j_Mode :: u8
  j_RxNext :: u64

definition PutJoin :: "byte list \<Rightarrow> join_p \<Rightarrow> (byte list \<times> nat) option" where
  "PutJoin dst j =
     (if length dst < JoinLen then None
      else Some
       (let d = blit dst 0 (j_SID j); d = blit d 16 [j_Mode j]
        in blit d 17 (PutUint64 (j_RxNext j)), JoinLen))"

definition ParseJoin :: "byte list \<Rightarrow> werr + join_p" where
  "ParseJoin p =
     (case exactTail (length p) JoinLen of
        Some e \<Rightarrow> Inl e
      | None \<Rightarrow>
         let j = \<lparr>j_SID = bslice p 0 16, j_Mode = p ! 16, j_RxNext = word_be (bslice p 17 25)\<rparr>
         in if j_SID j = replicate 16 0 then Inl ErrReserved
            else if j_Mode j < 1 \<or> j_Mode j > MaxMode then Inl ErrValue
            else Inr j)"

record joinack_p =
  ja_Status :: u8
  ja_RxNext :: u64

definition PutJoinAck :: "byte list \<Rightarrow> joinack_p \<Rightarrow> (byte list \<times> nat) option" where
  "PutJoinAck dst a =
     (if length dst < JoinAckLen then None
      else
       let rx = (if ja_Status a \<noteq> StatusOK then 0 else ja_RxNext a)
       in Some (blit (blit dst 0 [ja_Status a]) 1 (PutUint64 rx), JoinAckLen))"

definition ParseJoinAck :: "byte list \<Rightarrow> werr + joinack_p" where
  "ParseJoinAck p =
     (case exactTail (length p) JoinAckLen of
        Some e \<Rightarrow> Inl e
      | None \<Rightarrow>
         let a = \<lparr>ja_Status = p ! 0, ja_RxNext = word_be (bslice p 1 9)\<rparr>
         in if ja_Status a > StatusGoingAway then Inl ErrValue
            else if ja_Status a \<noteq> StatusOK \<and> ja_RxNext a \<noteq> 0 then Inl ErrReserved
            else Inr a)"

definition PutJoinAckMux :: "byte list \<Rightarrow> joinack_p \<Rightarrow> u32 \<Rightarrow> (byte list \<times> nat) option" where
  "PutJoinAckMux dst a code =
     (case PutJoinAck dst a of
        None \<Rightarrow> None
      | Some (d, n) \<Rightarrow>
          Some (if ja_Status a \<noteq> StatusOK then blit d 1 (PutUint64 (ucast code)) else d, n))"

definition ParseJoinAckMux :: "byte list \<Rightarrow> werr + (joinack_p \<times> u32)" where
  "ParseJoinAckMux p =
     (case exactTail (length p) JoinAckLen of
        Some e \<Rightarrow> Inl e
      | None \<Rightarrow>
         let a = \<lparr>ja_Status = p ! 0, ja_RxNext = word_be (bslice p 1 9)\<rparr>
         in if ja_Status a > StatusGoingAway then Inl ErrValue
            else if ja_Status a = StatusOK then Inr (a, 0)
            else if drop_bit 32 (ja_RxNext a) \<noteq> 0 then Inl ErrReserved
            else Inr (a\<lparr>ja_RxNext := 0\<rparr>, ucast (ja_RxNext a)))"

section \<open>DATA, ACK, FIN and RST\<close>

definition PutDataOffset :: "byte list \<Rightarrow> u64 \<Rightarrow> byte list option" where
  "PutDataOffset dst off =
     (if length dst < 8 then None
      else Some (blit (blit dst 0
         [ucast (drop_bit 56 off), ucast (drop_bit 48 off), ucast (drop_bit 40 off), ucast (drop_bit 32 off)]) 4
         [ucast (drop_bit 24 off), ucast (drop_bit 16 off), ucast (drop_bit 8 off), ucast off]))"

text \<open>\<open>n\<close> is a Go \<open>int\<close>; the second test is \<open>off > MaxUint64 - uint64(n)\<close>.\<close>

definition DataEnd :: "u64 \<Rightarrow> int \<Rightarrow> werr + u64" where
  "DataEnd off n =
     (if n < 1 \<or> n > int MaxFramePayload - int DataPrefixLen then Inl ErrLength
      else if off > - 1 - of_int n then Inl ErrValue
      else Inr (off + of_int n))"

definition ParseDataOffset :: "byte list \<Rightarrow> werr + u64" where
  "ParseDataOffset p =
     (if length p < DataPrefixLen then Inl ErrLength
      else
       let off = word_be (bslice p 0 DataPrefixLen)
       in case DataEnd off (int (length p) - int DataPrefixLen) of Inl e \<Rightarrow> Inl e | Inr _ \<Rightarrow> Inr off)"

record ack_p =
  a_Delivered :: u64
  a_Window :: u32
  a_EpochEcho :: u32

definition PutAck :: "byte list \<Rightarrow> ack_p \<Rightarrow> (byte list \<times> nat) option" where
  "PutAck dst a =
     (if length dst < AckLen then None
      else Some
       (let d = blit dst 0 (PutUint64 (a_Delivered a)); d = blit d 8 (PutUint32 (a_Window a))
        in blit d 12 (PutUint32 (a_EpochEcho a)), AckLen))"

definition ParseAck :: "byte list \<Rightarrow> werr + ack_p" where
  "ParseAck p =
     (case exactTail (length p) AckLen of
        Some e \<Rightarrow> Inl e
      | None \<Rightarrow> Inr \<lparr>a_Delivered = word_be (bslice p 0 8), a_Window = word_be (bslice p 8 12),
                     a_EpochEcho = word_be (bslice p 12 16)\<rparr>)"

definition PutFin :: "byte list \<Rightarrow> u64 \<Rightarrow> (byte list \<times> nat) option" where
  "PutFin dst off =
     (if length dst < FinLen then None else Some (blit dst 0 (PutUint64 off), FinLen))"

definition ParseFin :: "byte list \<Rightarrow> werr + u64" where
  "ParseFin p =
     (case exactTail (length p) FinLen of Some e \<Rightarrow> Inl e | None \<Rightarrow> Inr (word_be (bslice p 0 8)))"

record rst_p =
  r_Code :: u32
  r_Msg :: "byte list"

definition PutRst :: "byte list \<Rightarrow> rst_p \<Rightarrow> (byte list \<times> nat) option" where
  "PutRst dst r =
     (let n = RstFixedLen + length (r_Msg r)
      in if length (r_Msg r) > MaxMsg \<or> length dst < n then None
         else Some
          (let d = blit dst 0 (PutUint32 (r_Code r)); d = blit d 4 [of_nat (length (r_Msg r))]
           in blit d RstFixedLen (r_Msg r), n))"

definition ParseRst :: "byte list \<Rightarrow> werr + rst_p" where
  "ParseRst p =
     (if length p < RstFixedLen then Inl ErrShort
      else
       let mlen = unat (p ! 4)
       in case exactTail (length p - RstFixedLen) mlen of
            Some e \<Rightarrow> Inl e
          | None \<Rightarrow> Inr \<lparr>r_Code = word_be (bslice p 0 4), r_Msg = bslice p RstFixedLen (length p)\<rparr>)"

section \<open>SCHED, PING, CLOSE, GOAWAY, DETACH and DOWN\<close>

text \<open>\<open>s_IDs\<close> is the fixed array of 16 carrier IDs, of which the first \<open>s_N\<close> are used.\<close>

record sched_p =
  s_Epoch :: u32
  s_Death :: u64
  s_Quality :: u64
  s_Explicit :: u64
  s_N :: nat
  s_IDs :: "u32 list"

primrec put_ids :: "byte list \<Rightarrow> nat \<Rightarrow> u32 list \<Rightarrow> byte list" where
  "put_ids d i [] = d"
| "put_ids d i (x # xs) = put_ids (blit d (SchedFixedLen + 4 * i) (PutUint32 x)) (Suc i) xs"

definition PutSched :: "byte list \<Rightarrow> sched_p \<Rightarrow> (byte list \<times> nat) option" where
  "PutSched dst s =
     (let n = SchedFixedLen + 4 * s_N s
      in if s_N s < 1 \<or> s_N s > MaxSchedIDs \<or> length dst < n then None
         else Some
          (let d = blit dst 0 (PutUint32 (s_Epoch s));
               d = blit d 4 (PutUint64 (s_Death s));
               d = blit d 12 (PutUint64 (s_Quality s));
               d = blit d 20 (PutUint64 (s_Explicit s));
               d = blit d 28 [of_nat (s_N s)]
           in put_ids d 0 (take (s_N s) (s_IDs s)), n))"

text \<open>The ID loop of \<open>ParseSched\<close>: positions \<open>i\<close> to \<open>i + k - 1\<close>, each ID non-zero and different
  from the ones before it.\<close>

fun parse_ids :: "byte list \<Rightarrow> nat \<Rightarrow> nat \<Rightarrow> u32 list \<Rightarrow> werr + u32 list" where
  "parse_ids p i 0 ids = Inr ids"
| "parse_ids p i (Suc k) ids =
     (let idv = word_be (bslice p (SchedFixedLen + 4 * i) (SchedFixedLen + 4 * i + 4))
      in if idv = 0 then Inl ErrValue
         else if idv \<in> set (take i ids) then Inl ErrValue
         else parse_ids p (Suc i) k (ids[i := idv]))"

definition ParseSched :: "byte list \<Rightarrow> werr + sched_p" where
  "ParseSched p =
     (if length p < SchedFixedLen then Inl ErrShort
      else
       let n = unat (p ! 28)
       in if n < 1 \<or> n > MaxSchedIDs then Inl ErrValue
          else case exactTail (length p - SchedFixedLen) (4 * n) of
            Some e \<Rightarrow> Inl e
          | None \<Rightarrow>
             case parse_ids p 0 n (replicate MaxSchedIDs 0) of
               Inl e \<Rightarrow> Inl e
             | Inr ids \<Rightarrow>
                 Inr \<lparr>s_Epoch = word_be (bslice p 0 4), s_Death = word_be (bslice p 4 12),
                      s_Quality = word_be (bslice p 12 20), s_Explicit = word_be (bslice p 20 28),
                      s_N = n, s_IDs = ids\<rparr>)"

record ping_p =
  p_ID :: u32
  p_TS :: u64
  p_Nonce :: u64
  p_Pad :: int

definition PutPing :: "byte list \<Rightarrow> ping_p \<Rightarrow> (byte list \<times> nat) option" where
  "PutPing dst x =
     (if p_Pad x < 0 \<or> p_Pad x > int MaxPingPad \<or> length dst < PingFixedLen + nat (p_Pad x) then None
      else Some
       (let d = blit dst 0 (PutUint32 (p_ID x));
            d = blit d 4 (PutUint64 (p_TS x));
            d = blit d 12 (PutUint64 (p_Nonce x))
        in blit d PingFixedLen (replicate (nat (p_Pad x)) 0), PingFixedLen + nat (p_Pad x)))"

text \<open>\<open>CheckPad\<close> compares eight bytes at a time as a little-endian word, then byte by byte.\<close>

function CheckPad :: "byte list \<Rightarrow> werr option" where
  "CheckPad b =
     (if 8 \<le> length b
      then if (word_be (rev (take 8 b)) :: u64) \<noteq> 0 then Some ErrReserved else CheckPad (drop 8 b)
      else if list_ex (\<lambda>c. c \<noteq> 0) b then Some ErrReserved else None)"
  by pat_completeness auto
termination
  by (relation "measure length") auto

declare CheckPad.simps [simp del]

definition ParsePing :: "byte list \<Rightarrow> werr + ping_p" where
  "ParsePing p =
     (if length p < PingFixedLen then Inl ErrShort
      else if length p - PingFixedLen > MaxPingPad then Inl ErrLength
      else case CheckPad (drop PingFixedLen p) of
        Some e \<Rightarrow> Inl e
      | None \<Rightarrow> Inr \<lparr>p_ID = word_be (bslice p 0 4), p_TS = word_be (bslice p 4 12),
                     p_Nonce = word_be (bslice p 12 20),
                     p_Pad = int (length p) - int PingFixedLen\<rparr>)"

definition PutReason :: "byte list \<Rightarrow> u8 \<Rightarrow> (byte list \<times> nat) option" where
  "PutReason dst r = (if length dst < 1 then None else Some (blit dst 0 [r], ReasonLen))"

definition ParseClose :: "byte list \<Rightarrow> werr + u8" where
  "ParseClose p =
     (case exactTail (length p) ReasonLen of
        Some e \<Rightarrow> Inl e
      | None \<Rightarrow> if p ! 0 = CloseRetire \<or> p ! 0 = CloseCapacity then Inr (p ! 0) else Inl ErrValue)"

definition ParseGoAway :: "byte list \<Rightarrow> werr + u8" where
  "ParseGoAway p =
     (case exactTail (length p) ReasonLen of
        Some e \<Rightarrow> Inl e
      | None \<Rightarrow> if p ! 0 = GoAwayShutdown then Inr (p ! 0) else Inl ErrValue)"

record detach_p =
  d_Handle :: u32
  d_Reason :: u8

definition PutDetach :: "byte list \<Rightarrow> detach_p \<Rightarrow> (byte list \<times> nat) option" where
  "PutDetach dst d =
     (if length dst < DetachLen then None
      else Some (blit (blit dst 0 (PutUint32 (d_Handle d))) 4 [d_Reason d], DetachLen))"

definition ParseDetach :: "byte list \<Rightarrow> werr + detach_p" where
  "ParseDetach p =
     (case exactTail (length p) DetachLen of
        Some e \<Rightarrow> Inl e
      | None \<Rightarrow>
         let d = \<lparr>d_Handle = word_be (bslice p 0 4), d_Reason = p ! 4\<rparr>
         in if d_Handle d = 0 \<or> d_Reason d < DetachEnded \<or> d_Reason d > DetachRetired
            then Inl ErrValue else Inr d)"

definition PutDown :: "byte list \<Rightarrow> u32 \<Rightarrow> (byte list \<times> nat) option" where
  "PutDown dst carrierID =
     (if length dst < DownLen then None else Some (blit dst 0 (PutUint32 carrierID), DownLen))"

definition ParseDown :: "byte list \<Rightarrow> werr + u32" where
  "ParseDown p =
     (case exactTail (length p) DownLen of
        Some e \<Rightarrow> Inl e
      | None \<Rightarrow> let idv = word_be (bslice p 0 DownLen) in if idv = 0 then Inl ErrValue else Inr idv)"

section \<open>The codecs as interpretations of the contract\<close>

named_theorems canon_simps

lemma nth_Cons_bslice [canon_simps]:
  assumes "a < length p" and "Suc a = b" and "b \<le> c"
  shows "p ! a # bslice p b c = bslice p a c"
proof -
  have "[p ! a] = bslice p a b" using assms by (auto simp: bslice_Suc)
  then have "p ! a # bslice p b c = bslice p a b @ bslice p b c" by simp
  then show ?thesis using assms bslice_join [of a b c p] by simp
qed

lemma nth_Cons_end [canon_simps]: "Suc a = length p \<Longrightarrow> [p ! a] = bslice p a (length p)"
  by (metis bslice_Suc lessI)

lemma bslice_append_join [canon_simps]:
  "a \<le> b \<Longrightarrow> b \<le> c \<Longrightarrow> bslice p a b @ bslice p b c = bslice p a c"
  by (rule bslice_join)

lemma be_word_bslice [canon_simps]:
  "b \<le> length p \<Longrightarrow> b - a = k \<Longrightarrow> 8 * k \<le> LENGTH('a::len) \<Longrightarrow>
   be_word k (word_be (bslice p a b) :: 'a word) = bslice p a b"
  by (rule be_word_word_be) auto

lemma bslice_whole [canon_simps]: "b = length p \<Longrightarrow> bslice p 0 b = p"
  by simp

lemma bslice_empty [simp]: "b \<le> a \<Longrightarrow> bslice p a b = []"
  by (simp add: bslice_def)

lemma exactTail_None [simp]: "exactTail a b = None \<longleftrightarrow> a = b"
  by (simp add: exactTail_def)

lemma exactTail_refl [simp]: "exactTail a a = None"
  by (simp add: exactTail_def)

definition sid_ok :: "byte list \<Rightarrow> bool" where
  "sid_ok s \<longleftrightarrow> length s = 16 \<and> s \<noteq> replicate 16 0"

definition enc_join :: "join_p \<Rightarrow> byte list" where
  "enc_join j = j_SID j @ [j_Mode j] @ PutUint64 (j_RxNext j)"
definition join_ok :: "join_p \<Rightarrow> bool" where
  "join_ok j \<longleftrightarrow> sid_ok (j_SID j) \<and> j_Mode j \<noteq> 0 \<and> j_Mode j \<le> MaxMode"

interpretation join: codec PutJoin ParseJoin enc_join join_ok
proof (standard, goal_cases)
  case (1 x dst)
  then show ?case by (auto simp: PutJoin_def enc_join_def join_ok_def sid_ok_def go_simps Let_def)
next
  case (2 x)
  then show ?case
    by (auto simp: ParseJoin_def enc_join_def join_ok_def sid_ok_def bslice_def nth_append Let_def not_less)
next
  case (3 p x)
  then show ?case
    by (auto simp: ParseJoin_def enc_join_def join_ok_def sid_ok_def canon_simps Let_def not_less
        split: option.splits if_splits)
qed

definition enc_ack :: "ack_p \<Rightarrow> byte list" where
  "enc_ack a = PutUint64 (a_Delivered a) @ PutUint32 (a_Window a) @ PutUint32 (a_EpochEcho a)"

interpretation ack: codec PutAck ParseAck enc_ack "\<lambda>_. True"
proof (standard, goal_cases)
  case (1 x dst)
  then show ?case by (auto simp: PutAck_def enc_ack_def go_simps Let_def)
next
  case (2 x)
  then show ?case by (auto simp: ParseAck_def enc_ack_def bslice_def)
next
  case (3 p x)
  then show ?case by (auto simp: ParseAck_def enc_ack_def canon_simps split: option.splits)
qed

definition enc_open :: "open_p \<Rightarrow> byte list" where
  "enc_open x = o_SID x @ [o_Kind x] @ [o_Mode x] @ PutUint16 (o_Flags x) @ PutUint32 (o_RetainMs x)
     @ PutUint32 (o_Window x) @ PutUint16 (o_PMTU x)
     @ PutUint16 (of_nat (length (o_Metadata x))) @ o_Metadata x"

definition open_ok :: "int \<Rightarrow> open_p \<Rightarrow> bool" where
  "open_ok maxMeta x \<longleftrightarrow>
     int (length (o_Metadata x)) \<le> min (max maxMeta 0) (int MaxMetadata) \<and> sid_ok (o_SID x) \<and>
     (o_Kind x = KindStream \<or> o_Kind x = KindDatagram) \<and> o_Mode x \<noteq> 0 \<and> o_Mode x \<le> MaxMode \<and>
     o_Flags x AND NOT OpenFlagEarly = 0 \<and>
     (o_Kind x = KindStream \<longrightarrow> o_PMTU x = 0) \<and>
     (o_Kind x = KindDatagram \<longrightarrow> o_Flags x AND OpenFlagEarly = 0 \<and>
        MinPacketPayload \<le> unat (o_PMTU x) \<and> unat (o_PMTU x) \<le> MaxPacketPayload \<and>
        (o_Window x \<noteq> 0 \<longrightarrow> MinFrameBudget \<le> unat (o_Window x) \<and> unat (o_Window x) \<le> MaxDatagram))"

interpretation opn: codec PutOpen "\<lambda>p. ParseOpen p maxMeta" enc_open "open_ok maxMeta" for maxMeta
proof (standard, goal_cases)
  case (1 x dst)
  then show ?case by (auto simp: PutOpen_def enc_open_def open_ok_def sid_ok_def go_simps Let_def)
next
  case (2 x)
  have "be_get (PutUint16 (of_nat (length (o_Metadata x)))) = length (o_Metadata x)"
    using 2 by (simp add: be_word_def be_get_be_put open_ok_def unsigned_of_nat take_bit_eq_mod)
  then show ?case using 2
    by (auto simp: ParseOpen_def enc_open_def open_ok_def sid_ok_def bslice_def nth_append Let_def not_less)
next
  case (3 p x)
  then have l: "32 \<le> length p" and m: "be_get (bslice p 30 32) = length p - 32"
    by (auto simp: ParseOpen_def Let_def split: if_splits option.splits)
  from 3 l have x: "x = \<lparr>o_SID = bslice p 0 16, o_Kind = p ! 16, o_Mode = p ! 17,
      o_Flags = word_be (bslice p 18 20), o_RetainMs = word_be (bslice p 20 24),
      o_Window = word_be (bslice p 24 28), o_PMTU = word_be (bslice p 28 30),
      o_Metadata = bslice p 32 (length p)\<rparr>"
    by (simp add: ParseOpen_def Let_def split: if_splits option.splits)
  have "PutUint16 (of_nat (length p - 32)) = bslice p 30 32"
    using l be_word_bslice [of 32 p 30 2, where 'a = 16] by (simp add: word_be_def m)
  then have "enc_open x = p" using l by (simp add: enc_open_def x canon_simps)
  moreover have "length (o_Metadata x) = length p - 32" "length (o_SID x) = 16"
    using l by (simp_all add: x)
  then have "open_ok maxMeta x"
    using 3 l unfolding ParseOpen_def open_ok_def Let_def
    by (simp add: x [symmetric] m sid_ok_def not_less split: if_splits option.splits) auto
  ultimately show ?case by simp
qed

definition enc_openack :: "openack_p \<Rightarrow> byte list" where
  "enc_openack a = [oa_Status a] @ PutUint32 (oa_Window a) @ PutUint32 (oa_Code a)
     @ [of_nat (length (oa_Msg a))] @ oa_Msg a"

definition openack_ok :: "openack_p \<Rightarrow> bool" where
  "openack_ok a \<longleftrightarrow> oa_Status a \<le> StatusGoingAway \<and> length (oa_Msg a) \<le> MaxMsg \<and>
     (if oa_Status a = StatusOK then oa_Code a = 0 \<and> oa_Msg a = [] else oa_Window a = 0)"

lemma unat_byte_len [simp]: "n \<le> 255 \<Longrightarrow> unat (of_nat n :: byte) = n"
  by (simp add: unsigned_of_nat take_bit_eq_mod)

interpretation openack: codec PutOpenAck ParseOpenAck enc_openack openack_ok
proof (standard, goal_cases)
  case (1 x dst)
  then show ?case
    by (auto simp: PutOpenAck_def enc_openack_def openack_ok_def go_simps Let_def split: if_splits)
next
  case (2 x)
  then show ?case
    by (auto simp: ParseOpenAck_def enc_openack_def openack_ok_def bslice_def nth_append Let_def
        not_less split: if_splits)
next
  case (3 p x)
  then have l: "10 \<le> length p" and m: "unat (p ! 9) = length p - 10"
    by (auto simp: ParseOpenAck_def Let_def split: if_splits option.splits)
  from 3 l have x: "x = \<lparr>oa_Status = p ! 0, oa_Window = word_be (bslice p 1 5),
      oa_Code = word_be (bslice p 5 9), oa_Msg = bslice p 10 (length p)\<rparr>"
    by (simp add: ParseOpenAck_def Let_def split: if_splits option.splits)
  have "of_nat (length p - 10) = p ! 9" by (simp flip: m)
  then have "enc_openack x = p" using l
    by (simp add: enc_openack_def x canon_simps del: length_greater_0_conv)
  moreover have "openack_ok x"
    using 3 l byte_le [of "p ! 9"]
    by (auto simp: ParseOpenAck_def openack_ok_def Let_def x m not_less split: if_splits option.splits)
  ultimately show ?case by simp
qed

definition enc_joinack :: "joinack_p \<Rightarrow> byte list" where
  "enc_joinack a = [ja_Status a] @ PutUint64 (ja_RxNext a)"

definition joinack_ok :: "joinack_p \<Rightarrow> bool" where
  "joinack_ok a \<longleftrightarrow> ja_Status a \<le> StatusGoingAway \<and> (ja_Status a \<noteq> StatusOK \<longrightarrow> ja_RxNext a = 0)"

interpretation joinack: codec PutJoinAck ParseJoinAck enc_joinack joinack_ok
proof (standard, goal_cases)
  case (1 x dst)
  then show ?case by (auto simp: PutJoinAck_def enc_joinack_def joinack_ok_def go_simps Let_def)
next
  case (2 x)
  then show ?case
    by (auto simp: ParseJoinAck_def enc_joinack_def joinack_ok_def bslice_def Let_def not_less)
next
  case (3 p x)
  then have l: "length p = 9" and x: "x = \<lparr>ja_Status = p ! 0, ja_RxNext = word_be (bslice p 1 9)\<rparr>"
    by (simp_all add: ParseJoinAck_def Let_def split: option.splits if_splits)
  have "enc_joinack x = p" using l by (simp add: enc_joinack_def x canon_simps)
  moreover have "joinack_ok x"
    using 3 l unfolding ParseJoinAck_def joinack_ok_def Let_def x [symmetric]
    by (auto simp: not_less split: if_splits)
  ultimately show ?case by simp
qed

definition enc_joinackmux :: "joinack_p \<times> u32 \<Rightarrow> byte list" where
  "enc_joinackmux = (\<lambda>(a, code). [ja_Status a] @
     PutUint64 (if ja_Status a = StatusOK then ja_RxNext a else ucast code))"

definition joinackmux_ok :: "joinack_p \<times> u32 \<Rightarrow> bool" where
  "joinackmux_ok = (\<lambda>(a, code). ja_Status a \<le> StatusGoingAway \<and>
     (if ja_Status a = StatusOK then code = 0 else ja_RxNext a = 0))"

lemma ucast_ucast_low: "drop_bit 32 x = 0 \<Longrightarrow> ucast (ucast (x::u64) :: u32) = x"
proof (rule bit_word_eqI)
  fix n assume d: "drop_bit 32 x = 0"
  have "\<not> bit (drop_bit 32 x) (n - 32)" unfolding d by simp
  then show "bit (ucast (ucast x :: u32) :: u64) n = bit x n"
    by (cases "n < 32") (auto simp: bit_simps dest: bit_imp_le_length)
qed

lemma drop_ucast_high: "drop_bit 32 (ucast (c::u32) :: u64) = 0"
  by (rule bit_word_eqI) (auto simp: bit_simps dest: bit_imp_le_length)

lemma ucast_ucast_u32: "ucast (ucast (c::u32) :: u64) = c"
  by (rule bit_word_eqI) (auto simp: bit_simps)

interpretation joinackmux: codec "\<lambda>d (a, c). PutJoinAckMux d a c" ParseJoinAckMux
  enc_joinackmux joinackmux_ok
proof (standard, goal_cases)
  case (1 x dst)
  then show ?case
    by (auto simp: PutJoinAckMux_def PutJoinAck_def enc_joinackmux_def joinackmux_ok_def go_simps Let_def
        blit_overwrite [of "[_]", simplified] split: prod.splits)
next
  case (2 x)
  then show ?case
    by (auto simp: ParseJoinAckMux_def enc_joinackmux_def joinackmux_ok_def bslice_def Let_def not_less
        drop_ucast_high ucast_ucast_u32 split: prod.splits if_splits)
next
  case (3 p x)
  let ?a = "\<lparr>ja_Status = p ! 0, ja_RxNext = word_be (bslice p 1 9)\<rparr>"
  from 3 have l: "length p = 9" and
    x: "if p ! 0 = 0 then x = (?a, 0) else drop_bit 32 (ja_RxNext ?a) = 0 \<and>
        x = (?a\<lparr>ja_RxNext := 0\<rparr>, ucast (ja_RxNext ?a))" and st: "p ! 0 \<le> 5"
    by (simp_all add: ParseJoinAckMux_def Let_def not_less split: option.splits if_splits)
  have "enc_joinackmux x = p ! 0 # bslice p 1 9"
    using x l by (cases "p ! 0 = 0") (simp_all add: enc_joinackmux_def ucast_ucast_low be_word_bslice)
  moreover have "p ! 0 # bslice p 1 9 = p" using l by (simp add: canon_simps)
  moreover have "joinackmux_ok x" using x st by (simp add: joinackmux_ok_def split: if_splits)
  ultimately show ?case by simp
qed

interpretation fin: codec PutFin ParseFin "PutUint64" "\<lambda>_. True"
  by standard (auto simp: PutFin_def ParseFin_def be_word_word_be bslice_def split: option.splits)

definition enc_rst :: "rst_p \<Rightarrow> byte list" where
  "enc_rst r = PutUint32 (r_Code r) @ [of_nat (length (r_Msg r))] @ r_Msg r"

definition rst_ok :: "rst_p \<Rightarrow> bool" where
  "rst_ok r \<longleftrightarrow> length (r_Msg r) \<le> MaxMsg"

interpretation rst: codec PutRst ParseRst enc_rst rst_ok
proof (standard, goal_cases)
  case (1 x dst)
  then show ?case by (auto simp: PutRst_def enc_rst_def rst_ok_def go_simps Let_def)
next
  case (2 x)
  then show ?case by (auto simp: ParseRst_def enc_rst_def rst_ok_def bslice_def nth_append Let_def)
next
  case (3 p x)
  then have l: "5 \<le> length p" and m: "unat (p ! 4) = length p - 5"
    and x: "x = \<lparr>r_Code = word_be (bslice p 0 4), r_Msg = bslice p 5 (length p)\<rparr>"
    by (auto simp: ParseRst_def Let_def split: if_splits option.splits)
  have "of_nat (length p - 5) = p ! 4" by (simp flip: m)
  moreover have "unat (p ! 4) \<le> 255" using byte_le [of "p ! 4"] by simp
  ultimately show ?case using l m by (simp add: enc_rst_def rst_ok_def x canon_simps)
qed

definition enc_detach :: "detach_p \<Rightarrow> byte list" where
  "enc_detach d = PutUint32 (d_Handle d) @ [d_Reason d]"

definition detach_ok :: "detach_p \<Rightarrow> bool" where
  "detach_ok d \<longleftrightarrow> d_Handle d \<noteq> 0 \<and> d_Reason d \<noteq> 0 \<and> d_Reason d \<le> DetachRetired"

interpretation detach: codec PutDetach ParseDetach enc_detach detach_ok
proof (standard, goal_cases)
  case (1 x dst)
  then show ?case by (auto simp: PutDetach_def enc_detach_def go_simps)
next
  case (2 x)
  then show ?case
    by (auto simp: ParseDetach_def enc_detach_def detach_ok_def bslice_def nth_append Let_def not_less)
next
  case (3 p x)
  then show ?case
    by (auto simp: ParseDetach_def enc_detach_def detach_ok_def canon_simps Let_def not_less
        split: option.splits if_splits)
qed

interpretation down: codec PutDown ParseDown PutUint32 "\<lambda>c. c \<noteq> 0"
  by standard (auto simp: PutDown_def ParseDown_def be_word_word_be bslice_def Let_def
      split: option.splits if_splits)

subsection \<open>PING and SCHED\<close>

lemma CheckPad_all_zero: "CheckPad b = (if \<forall>c\<in>set b. c = 0 then None else Some ErrReserved)"
proof (induction b rule: CheckPad.induct)
  case (1 b)
  have z: "(word_be (rev (take 8 b)) :: u64) = 0 \<longleftrightarrow> (\<forall>c\<in>set (take 8 b). c = 0)" if "8 \<le> length b"
  proof
    assume "(word_be (rev (take 8 b)) :: u64) = 0"
    then have "be_word 8 (0 :: u64) = rev (take 8 b)"
      using be_word_word_be [of "rev (take 8 b)" 8, where 'a = 64] that by simp
    moreover have "be_word 8 (0 :: u64) = replicate 8 0"
      by (simp add: be_word_def be_put_0)
    ultimately have "set (take 8 b) = set (replicate 8 0)" by (metis set_rev)
    then show "\<forall>c\<in>set (take 8 b). c = 0" by auto
  next
    assume "\<forall>c\<in>set (take 8 b). c = 0"
    then have "rev (take 8 b) = replicate 8 0"
      using that by (intro replicate_eqI) auto
    moreover have "be_get (replicate n 0) = 0" for n
      by (induction n) (auto simp: be_get_def)
    ultimately show "(word_be (rev (take 8 b)) :: u64) = 0" by (simp add: word_be_def)
  qed
  have s: "set b = set (take 8 b) \<union> set (drop 8 b)"
    by (metis append_take_drop_id set_append)
  show ?case
  proof (cases "8 \<le> length b")
    case True
    with 1 z show ?thesis by (subst CheckPad.simps) (auto simp: s)
  next
    case False
    then show ?thesis by (subst CheckPad.simps) (auto simp: list_ex_iff)
  qed
qed

definition enc_ping :: "ping_p \<Rightarrow> byte list" where
  "enc_ping x = PutUint32 (p_ID x) @ PutUint64 (p_TS x) @ PutUint64 (p_Nonce x)
     @ replicate (nat (p_Pad x)) 0"

definition ping_ok :: "ping_p \<Rightarrow> bool" where
  "ping_ok x \<longleftrightarrow> 0 \<le> p_Pad x \<and> p_Pad x \<le> int MaxPingPad"

interpretation ping: codec PutPing ParsePing enc_ping ping_ok
proof (standard, goal_cases)
  case (1 x dst)
  then show ?case by (auto simp: PutPing_def enc_ping_def ping_ok_def go_simps Let_def)
next
  case (2 x)
  then show ?case
    by (auto simp: ParsePing_def enc_ping_def ping_ok_def CheckPad_all_zero bslice_def)
next
  case (3 p x)
  then have l: "20 \<le> length p" "length p - 20 \<le> MaxPingPad" and z: "\<forall>c\<in>set (drop 20 p). c = 0"
    and x: "x = \<lparr>p_ID = word_be (bslice p 0 4), p_TS = word_be (bslice p 4 12),
       p_Nonce = word_be (bslice p 12 20), p_Pad = int (length p) - 20\<rparr>"
    by (auto simp: ParsePing_def CheckPad_all_zero split: if_splits option.splits)
  have "replicate (nat (p_Pad x)) 0 = bslice p 20 (length p)"
    using z l by (intro sym [OF replicate_eqI]) (auto simp: bslice_def x)
  then have "enc_ping x = p" using l by (simp add: enc_ping_def x canon_simps)
  then show ?case using l by (simp add: ping_ok_def x)
qed

definition enc_sched :: "sched_p \<Rightarrow> byte list" where
  "enc_sched s = PutUint32 (s_Epoch s) @ PutUint64 (s_Death s) @ PutUint64 (s_Quality s)
     @ PutUint64 (s_Explicit s) @ [of_nat (s_N s)] @ concat (map PutUint32 (take (s_N s) (s_IDs s)))"

definition sched_ok :: "sched_p \<Rightarrow> bool" where
  "sched_ok s \<longleftrightarrow> 1 \<le> s_N s \<and> s_N s \<le> MaxSchedIDs \<and> length (s_IDs s) = MaxSchedIDs \<and>
     0 \<notin> set (take (s_N s) (s_IDs s)) \<and> distinct (take (s_N s) (s_IDs s)) \<and>
     drop (s_N s) (s_IDs s) = replicate (MaxSchedIDs - s_N s) 0"

lemma length_concat_ids [simp]: "length (concat (map PutUint32 xs)) = 4 * length xs"
  by (induction xs) auto

lemma put_ids_blit:
  "length pre = SchedFixedLen + 4 * i \<Longrightarrow> length pre + 4 * length xs \<le> length dst \<Longrightarrow>
   put_ids (blit dst 0 pre) i xs = blit dst 0 (pre @ concat (map PutUint32 xs))"
proof (induction xs arbitrary: i pre)
  case (Cons x xs)
  have "put_ids (blit dst 0 pre) i (x # xs) = put_ids (blit dst 0 (pre @ PutUint32 x)) (Suc i) xs"
    using Cons.prems by (simp add: go_simps)
  also have "\<dots> = blit dst 0 ((pre @ PutUint32 x) @ concat (map PutUint32 xs))"
    using Cons.prems by (intro Cons.IH) auto
  finally show ?case by simp
qed simp

text \<open>The ID loop succeeds exactly when the IDs are non-zero and distinct, and then stores them.\<close>

lemma parse_ids_eq:
  assumes "\<And>j. j < k \<Longrightarrow> word_be (bslice p (SchedFixedLen + 4 * (i + j)) (SchedFixedLen + 4 * (i + j) + 4)) = xs ! j"
    and "length xs = k" and "i + k \<le> length ids"
  shows "parse_ids p i k ids =
    (if 0 \<notin> set xs \<and> distinct xs \<and> set xs \<inter> set (take i ids) = {}
     then Inr (take i ids @ xs @ drop (i + k) ids) else Inl ErrValue)"
  using assms
proof (induction k arbitrary: i ids xs)
  case (Suc k)
  then obtain y ys where xs: "xs = y # ys" by (cases xs) auto
  have y: "word_be (bslice p (29 + 4 * i) (33 + 4 * i)) = y"
    using Suc.prems(1) [of 0] by (simp add: xs)
  have "parse_ids p (Suc i) k (ids[i := y]) =
    (if 0 \<notin> set ys \<and> distinct ys \<and> set ys \<inter> set (take (Suc i) (ids[i := y])) = {}
     then Inr (take (Suc i) (ids[i := y]) @ ys @ drop (Suc i + k) (ids[i := y])) else Inl ErrValue)"
  proof (rule Suc.IH)
    fix j assume "j < k"
    then show "word_be (bslice p (SchedFixedLen + 4 * (Suc i + j)) (SchedFixedLen + 4 * (Suc i + j) + 4)) = ys ! j"
      using Suc.prems(1) [of "Suc j"] by (simp add: xs algebra_simps)
  qed (use Suc.prems in \<open>auto simp: xs\<close>)
  moreover have "take (Suc i) (ids[i := y]) = take i ids @ [y]"
    using Suc.prems(3) by (simp add: take_Suc_conv_app_nth)
  moreover have "drop (Suc i + k) (ids[i := y]) = drop (i + Suc k) ids" by simp
  ultimately show ?case by (auto simp: xs y Let_def)
qed simp

lemma bslice_concat_ids:
  "j < length xs \<Longrightarrow> bslice (concat (map PutUint32 xs)) (4 * j) (4 * j + 4) = PutUint32 (xs ! j)"
proof (induction xs arbitrary: j)
  case (Cons x xs)
  then show ?case by (cases j) (auto simp: bslice_def)
qed simp

lemma concat_bslices: "concat (map (\<lambda>j. bslice q (4 * j) (4 * j + 4)) [0..<n]) = take (4 * n) q"
proof (induction n)
  case (Suc n)
  then show ?case using take_join [of "4 * n" "4 * n + 4" q] by (simp add: ac_simps)
qed simp

lemma bslice_drop: "bslice (drop m p) a b = bslice p (m + a) (m + b)"
  by (simp add: bslice_def add.commute)

lemma ParseSched_enc:
  assumes ok: "sched_ok x"
  shows "ParseSched (enc_sched x) = Inr x"
proof -
  let ?p = "enc_sched x" and ?xs = "take (s_N x) (s_IDs x)"
  have N: "1 \<le> s_N x" "s_N x \<le> 16" "length (s_IDs x) = 16" using ok by (auto simp: sched_ok_def)
  have len: "length ?p = 29 + 4 * s_N x" using N by (simp add: enc_sched_def)
  have n28: "?p ! 28 = of_nat (s_N x)" by (simp add: enc_sched_def nth_append)
  have d: "drop 29 ?p = concat (map PutUint32 ?xs)" by (simp add: enc_sched_def)
  have "bslice ?p (29 + 4 * j) (29 + 4 * j + 4) = PutUint32 (?xs ! j)" if "j < s_N x" for j
    using bslice_concat_ids [of j ?xs] that N bslice_drop [of 29 ?p "4 * j" "4 * j + 4"]
    by (simp only: d add.assoc) simp
  then have "word_be (bslice ?p (29 + 4 * j) (29 + 4 * j + 4)) = ?xs ! j" if "j < s_N x" for j
    using that by (simp only: word_be_be_word) simp
  then have "parse_ids ?p 0 (s_N x) (replicate 16 0) = Inr (?xs @ drop (s_N x) (replicate 16 0))"
    using parse_ids_eq [of "s_N x" ?p 0 ?xs "replicate 16 0"] ok N by (simp add: sched_ok_def)
  moreover have "?xs @ drop (s_N x) (replicate 16 0) = s_IDs x"
    using ok append_take_drop_id [of "s_N x" "s_IDs x"] by (simp add: sched_ok_def)
  moreover have "bslice ?p 0 4 = PutUint32 (s_Epoch x)" "bslice ?p 4 12 = PutUint64 (s_Death x)"
    "bslice ?p 12 20 = PutUint64 (s_Quality x)" "bslice ?p 20 28 = PutUint64 (s_Explicit x)"
    by (simp_all add: enc_sched_def bslice_def)
  ultimately show ?thesis
    using N by (simp add: ParseSched_def Let_def len n28)
qed

lemma ParseSched_Inr:
  assumes "ParseSched p = Inr x"
  shows "sched_ok x \<and> enc_sched x = p"
proof -
  let ?n = "unat (p ! 28)"
  let ?xs = "map (\<lambda>j. word_be (bslice p (29 + 4 * j) (29 + 4 * j + 4)) :: u32) [0..<?n]"
  have l: "1 \<le> ?n" "?n \<le> 16" "length p = 29 + 4 * ?n"
    using assms by (auto simp: ParseSched_def Let_def split: if_splits option.splits)
  have ids: "parse_ids p 0 ?n (replicate 16 0) =
    (if 0 \<notin> set ?xs \<and> distinct ?xs then Inr (?xs @ replicate (16 - ?n) 0) else Inl ErrValue)"
    using parse_ids_eq [of ?n p 0 ?xs "replicate 16 0"] l by simp
  have g: "0 \<notin> set ?xs \<and> distinct ?xs"
    using assms l unfolding ParseSched_def Let_def
    by (simp add: ids del: set_map split: if_splits option.splits)
  have x: "x = \<lparr>s_Epoch = word_be (bslice p 0 4), s_Death = word_be (bslice p 4 12),
     s_Quality = word_be (bslice p 12 20), s_Explicit = word_be (bslice p 20 28), s_N = ?n,
     s_IDs = ?xs @ replicate (16 - ?n) 0\<rparr>"
    using assms l g unfolding ParseSched_def Let_def
    by (simp add: ids del: set_map split: if_splits option.splits)
  have "map PutUint32 ?xs = map (\<lambda>j. bslice (drop 29 p) (4 * j) (4 * j + 4)) [0..<?n]"
    using l by (auto simp: bslice_drop intro!: be_word_bslice)
  then have "concat (map PutUint32 ?xs) = drop 29 p"
    using l by (simp only: concat_bslices) simp
  also have "drop 29 p = bslice p 29 (length p)" by (simp add: bslice_def)
  finally have "enc_sched x = p" using l by (simp add: enc_sched_def x canon_simps del: map_map)
  then show ?thesis using g l by (simp add: sched_ok_def x)
qed

interpretation sched: codec PutSched ParseSched enc_sched sched_ok
proof (standard, goal_cases)
  case (1 x dst)
  then show ?case
    by (auto simp: PutSched_def enc_sched_def sched_ok_def go_simps put_ids_blit Let_def)
qed (auto simp: ParseSched_enc dest: ParseSched_Inr)

lemma be_put_8:
  "be_put 8 n = [of_nat (n div 2 ^ 56), of_nat (n div 2 ^ 48), of_nat (n div 2 ^ 40), of_nat (n div 2 ^ 32),
     of_nat (n div 2 ^ 24), of_nat (n div 2 ^ 16), of_nat (n div 2 ^ 8), of_nat n]"
proof -
  have e: "8 = Suc (Suc (Suc (Suc (Suc (Suc (Suc (Suc 0)))))))" by simp
  show ?thesis unfolding e be_put.simps by (simp add: div_mult2_eq [symmetric])
qed

lemma bit_shift_bytes64:
  "be_word 8 (w::u64) = [ucast (drop_bit 56 w), ucast (drop_bit 48 w), ucast (drop_bit 40 w),
     ucast (drop_bit 32 w), ucast (drop_bit 24 w), ucast (drop_bit 16 w), ucast (drop_bit 8 w), ucast w]"
proof -
  have u: "(of_nat (unat w div 2 ^ k) :: byte) = ucast (drop_bit k w)" for k
  proof -
    have "take_bit 64 (unat w) = unat w"
      using unsigned_less [where 'a = nat, of w] by (simp add: take_bit_nat_eq_self)
    then have "unat (drop_bit k w) = unat w div 2 ^ k"
      by (subst unsigned_drop_bit_eq) (simp add: drop_bit_eq_div)
    then show ?thesis by (metis of_nat_unat)
  qed
  show ?thesis
    unfolding be_word_def be_put_8 u by simp
qed

lemma DataEnd_eq:
  "DataEnd off n =
     (if n < 1 \<or> n > 1048568 then Inl ErrLength
      else if uint off + n \<ge> 2 ^ 64 then Inl ErrValue else Inr (word_of_int (uint off + n)))"
proof (cases "n < 1 \<or> n > 1048568")
  case False
  have "uint (of_int n :: u64) = n" using False by (simp add: uint_word_of_int)
  then have "uint (- 1 - of_int n :: u64) = 2 ^ 64 - 1 - n"
    using False by (simp add: uint_word_ariths)
  then show ?thesis using False by (auto simp: DataEnd_def word_less_def)
qed (simp add: DataEnd_def)

section \<open>Properties of the payload codecs\<close>

lemma codec_reason:
  "codec PutReason ParseClose (\<lambda>r. [r]) (\<lambda>r. r = CloseRetire \<or> r = CloseCapacity)"
  "codec PutReason ParseGoAway (\<lambda>r. [r]) (\<lambda>r. r = GoAwayShutdown)"
  by (unfold_locales; auto simp: PutReason_def ParseClose_def ParseGoAway_def length_Suc_conv
      split: option.splits if_splits)+

interpretation close_reason: codec PutReason ParseClose "\<lambda>r. [r]" "\<lambda>r. r = CloseRetire \<or> r = CloseCapacity"
  by (rule codec_reason)

interpretation goaway_reason: codec PutReason ParseGoAway "\<lambda>r. [r]" "\<lambda>r. r = GoAwayShutdown"
  by (rule codec_reason)

text \<open>What an endpoint sees of a reply after the encoder has dropped the fields that its status
  reserves.\<close>

definition openack_norm :: "openack_p \<Rightarrow> openack_p" where
  "openack_norm a = (if oa_Status a = StatusOK then a\<lparr>oa_Code := 0, oa_Msg := []\<rparr> else a\<lparr>oa_Window := 0\<rparr>)"

definition joinack_norm :: "joinack_p \<Rightarrow> joinack_p" where
  "joinack_norm a = (if ja_Status a = StatusOK then a else a\<lparr>ja_RxNext := 0\<rparr>)"

lemma PutOpenAck_norm:
  "length (oa_Msg a) \<le> MaxMsg \<Longrightarrow> PutOpenAck dst a = PutOpenAck dst (openack_norm a)"
  by (simp add: PutOpenAck_def openack_norm_def Let_def)

lemma PutOpenAck_accepted:
  assumes "PutOpenAck dst a = Some (d, n)" and "oa_Status a \<le> StatusGoingAway"
  shows "ParseOpenAck (take n d) = Inr (openack_norm a)"
proof (rule openack.roundtrip(1))
  have l: "length (oa_Msg a) \<le> MaxMsg"
    using assms(1) by (auto simp: PutOpenAck_def split: if_splits)
  then show "openack_ok (openack_norm a)" using assms(2) by (simp add: openack_ok_def openack_norm_def)
  show "PutOpenAck dst (openack_norm a) = Some (d, n)"
    using assms(1) PutOpenAck_norm [OF l] by simp
qed

lemma PutJoinAck_accepted:
  assumes "PutJoinAck dst a = Some (d, n)" and "ja_Status a \<le> StatusGoingAway"
  shows "ParseJoinAck (take n d) = Inr (joinack_norm a)"
proof (rule joinack.roundtrip(1))
  show "PutJoinAck dst (joinack_norm a) = Some (d, n)"
    using assms(1) by (simp add: PutJoinAck_def joinack_norm_def split: if_splits)
qed (use assms(2) in \<open>simp add: joinack_ok_def joinack_norm_def\<close>)

lemma PutJoinAckMux_accepted:
  assumes "PutJoinAckMux dst a code = Some (d, n)" and "ja_Status a \<le> StatusGoingAway"
  shows "ParseJoinAckMux (take n d) = Inr (joinack_norm a, if ja_Status a = StatusOK then 0 else code)"
proof (rule joinackmux.roundtrip(1))
  show "(case (joinack_norm a, if ja_Status a = StatusOK then 0 else code) of
      (a, c) \<Rightarrow> PutJoinAckMux dst a c) = Some (d, n)"
    using assms(1) by (cases "ja_Status a = 0")
      (simp_all add: PutJoinAckMux_def PutJoinAck_def joinack_norm_def Let_def split: if_splits)
qed (use assms(2) in \<open>auto simp: joinackmux_ok_def joinack_norm_def\<close>)

lemma PutDataOffset_eq:
  "PutDataOffset dst off = (if length dst < 8 then None else Some (blit dst 0 (PutUint64 off)))"
  by (simp add: PutDataOffset_def bit_shift_bytes64 go_simps blit_blit_0)

lemma ParseDataOffset_iff:
  "ParseDataOffset p = Inr off \<longleftrightarrow>
     8 < length p \<and> length p \<le> MaxFramePayload \<and> take 8 p = PutUint64 off \<and>
     uint off + int (length p - 8) < 2 ^ 64"
proof (cases "8 \<le> length p")
  case True
  have w: "word_be (bslice p 0 8) = off \<longleftrightarrow> take 8 p = PutUint64 off"
  proof
    assume "word_be (bslice p 0 8) = off"
    then show "take 8 p = PutUint64 off"
      using be_word_bslice [of 8 p 0 8, where 'a = 64] True by (simp add: bslice_0)
  next
    assume "take 8 p = PutUint64 off"
    then show "word_be (bslice p 0 8) = off" by (simp add: bslice_0)
  qed
  have e: "(case DataEnd off' m of Inl e \<Rightarrow> Inl e | Inr _ \<Rightarrow> Inr off') = Inr off \<longleftrightarrow>
      off' = off \<and> 1 \<le> m \<and> m \<le> 1048568 \<and> uint off + m < 2 ^ 64" for off' m
    by (cases "off' = off") (simp_all add: DataEnd_eq not_less not_le)
  show ?thesis
    using True unfolding ParseDataOffset_def Let_def DataPrefixLen_def MaxFramePayload_def
    by (subst if_not_P, simp, subst e, subst w) (simp add: of_nat_diff, arith?)
qed (simp add: ParseDataOffset_def)

text \<open>Claim C18: the OPEN codec is exact. \<open>ParseOpen\<close> accepts a payload and returns \<open>x\<close> exactly
  when \<open>x\<close> satisfies the format's rules (a non-zero session ID, a known kind and mode, the early
  flag only on streams, packet limits only on datagram sessions, metadata within both the caller's
  and the format's limit) and the payload is what \<open>PutOpen\<close> writes for \<open>x\<close>.\<close>

theorem open_codec_exact:
  "ParseOpen p maxMeta = Inr x \<longleftrightarrow>
     open_ok maxMeta x \<and> PutOpen (replicate (length p) 0) x = Some (p, length p)"
  by (rule opn.parse_iff_put)

text \<open>Claim C20: replies are always accepted. Whatever \<open>PutOpenAck\<close>, \<open>PutJoinAck\<close> and
  \<open>PutJoinAckMux\<close> write for a known status, the peer's decoder accepts, and it reads the reply
  with exactly the fields that the status reserves replaced by zero.\<close>

theorem reply_codecs_accepted:
  "(PutOpenAck dst a = Some (d, n) \<and> oa_Status a \<le> StatusGoingAway \<longrightarrow>
      ParseOpenAck (take n d) = Inr (openack_norm a)) \<and>
   (PutJoinAck dst j = Some (d, n) \<and> ja_Status j \<le> StatusGoingAway \<longrightarrow>
      ParseJoinAck (take n d) = Inr (joinack_norm j)) \<and>
   (PutJoinAckMux dst j code = Some (d, n) \<and> ja_Status j \<le> StatusGoingAway \<longrightarrow>
      ParseJoinAckMux (take n d) =
        Inr (joinack_norm j, if ja_Status j = StatusOK then 0 else code))"
  by (intro conjI impI; elim conjE)
    (rule PutOpenAck_accepted PutJoinAck_accepted PutJoinAckMux_accepted, assumption+)+

theorem reply_codecs_accepted_witness:
  "\<exists>d. PutJoinAckMux (replicate 9 0) \<lparr>ja_Status = 2, ja_RxNext = 77\<rparr> 13 = Some (d, 9) \<and>
     ParseJoinAckMux (take 9 d) = Inr (\<lparr>ja_Status = 2, ja_RxNext = 0\<rparr>, 13)"
proof -
  obtain d where d: "PutJoinAckMux (replicate 9 0) \<lparr>ja_Status = 2, ja_RxNext = 77\<rparr> 13 = Some (d, 9)"
    by (simp add: PutJoinAckMux_def PutJoinAck_def)
  then show ?thesis
    using reply_codecs_accepted [of "replicate 9 0" _ d 9 "\<lparr>ja_Status = 2, ja_RxNext = 77\<rparr>" 13]
    by (auto simp: joinack_norm_def)
qed

text \<open>Claim C19: the SCHED codec is exact. \<open>ParseSched\<close> accepts exactly the payloads that
  \<open>PutSched\<close> writes for a generation of one to sixteen carrier IDs that are non-zero and pairwise
  distinct, and it returns the generation written.\<close>

theorem sched_codec_exact:
  "ParseSched p = Inr s \<longleftrightarrow>
     (1 \<le> s_N s \<and> s_N s \<le> MaxSchedIDs \<and> length (s_IDs s) = MaxSchedIDs \<and>
      0 \<notin> set (take (s_N s) (s_IDs s)) \<and> distinct (take (s_N s) (s_IDs s)) \<and>
      drop (s_N s) (s_IDs s) = replicate (MaxSchedIDs - s_N s) 0) \<and>
     PutSched (replicate (length p) 0) s = Some (p, length p)"
  unfolding sched_ok_def [symmetric] by (rule sched.parse_iff_put)

text \<open>Claim C21: the fixed control payloads are exact. For JOIN, ACK, FIN, RST, PING, CLOSE,
  GOAWAY, DETACH and DOWN the decoder accepts exactly the encoder's output for the values the
  format allows; in particular no value has two encodings.\<close>

theorem control_codecs_exact:
  "(ParseJoin p = Inr j \<longleftrightarrow> join_ok j \<and> PutJoin (replicate (length p) 0) j = Some (p, length p)) \<and>
   (ParseAck p = Inr a \<longleftrightarrow> PutAck (replicate (length p) 0) a = Some (p, length p)) \<and>
   (ParseFin p = Inr off \<longleftrightarrow> PutFin (replicate (length p) 0) off = Some (p, length p)) \<and>
   (ParseRst p = Inr r \<longleftrightarrow> rst_ok r \<and> PutRst (replicate (length p) 0) r = Some (p, length p)) \<and>
   (ParsePing p = Inr g \<longleftrightarrow> ping_ok g \<and> PutPing (replicate (length p) 0) g = Some (p, length p)) \<and>
   (ParseClose p = Inr c \<longleftrightarrow>
      (c = CloseRetire \<or> c = CloseCapacity) \<and> PutReason (replicate (length p) 0) c = Some (p, length p)) \<and>
   (ParseGoAway p = Inr c \<longleftrightarrow>
      c = GoAwayShutdown \<and> PutReason (replicate (length p) 0) c = Some (p, length p)) \<and>
   (ParseDetach p = Inr d \<longleftrightarrow> detach_ok d \<and> PutDetach (replicate (length p) 0) d = Some (p, length p)) \<and>
   (ParseDown p = Inr cid \<longleftrightarrow> cid \<noteq> 0 \<and> PutDown (replicate (length p) 0) cid = Some (p, length p))"
  by (intro conjI join.parse_iff_put ack.parse_iff_put [simplified] fin.parse_iff_put [simplified]
      rst.parse_iff_put ping.parse_iff_put close_reason.parse_iff_put goaway_reason.parse_iff_put
      detach.parse_iff_put down.parse_iff_put)

text \<open>DATA offsets never wrap. \<open>ParseDataOffset\<close> accepts a payload exactly when it is
  the eight bytes \<open>PutDataOffset\<close> writes followed by at least one byte of data, within the frame
  limit, whose last byte still has an offset below \<open>2 ^ 64\<close>; and then \<open>DataEnd\<close> returns the exact,
  unwrapped end offset.\<close>

theorem data_offset_exact:
  "(ParseDataOffset p = Inr off \<longleftrightarrow>
      PutDataOffset p off = Some p \<and> DataPrefixLen < length p \<and> length p \<le> MaxFramePayload \<and>
      uint off + int (length p - DataPrefixLen) < 2 ^ 64) \<and>
   (DataEnd off n = Inr e \<longleftrightarrow> 1 \<le> n \<and> n \<le> int (MaxFramePayload - DataPrefixLen) \<and>
      uint e = uint off + n)"
proof
  show "ParseDataOffset p = Inr off \<longleftrightarrow>
      PutDataOffset p off = Some p \<and> DataPrefixLen < length p \<and> length p \<le> MaxFramePayload \<and>
      uint off + int (length p - DataPrefixLen) < 2 ^ 64"
    by (auto simp: ParseDataOffset_iff PutDataOffset_eq blit_def) (metis append_take_drop_id append_same_eq)+
  have "uint e < 2 ^ 64" "0 \<le> uint off" using unsigned_less [where 'a = int, of e] by simp_all
  moreover have "word_of_int k = e \<longleftrightarrow> k = uint e" if "0 \<le> k" "k < 2 ^ 64" for k
    using that by (auto simp: uint_word_of_int)
  ultimately show "DataEnd off n = Inr e \<longleftrightarrow> 1 \<le> n \<and> n \<le> int (MaxFramePayload - DataPrefixLen) \<and>
      uint e = uint off + n"
    unfolding DataEnd_eq by (auto simp del: of_int_add)
qed

end
