(* ===== verification/Wire_Dgram.thy ===== *)
theory Wire_Dgram
  imports Wire_Payload
begin

text \<open>
  \<open>internal/wire/dgram.go\<close>: the packet-session frames DGRAM and PACK, the reliable control
  frames REL and RACK, the raw-UDP flow header, the packet window field and the text of
  \<open>DatagramTooLargeError\<close>. A Go function that fills a prefix of its buffer returns the whole
  buffer here; \<open>None\<close> is its panic.
\<close>

section \<open>DGRAM and PACK\<close>

definition RelMaxPayload :: nat where [simp]: "RelMaxPayload = RelHeadLen + OpenAckFixedLen + MaxMsg"
definition RelWindow :: nat where [simp]: "RelWindow = 8"
definition FirstCseq :: u32 where [simp]: "FirstCseq = 1"
definition FlowHeaderLen :: nat where [simp]: "FlowHeaderLen = 9"
definition FlowVersion :: u8 where [simp]: "FlowVersion = 2"
definition ControlFloor :: nat where [simp]: "ControlFloor = 300"
definition FseqWindowBits :: nat where [simp]: "FseqWindowBits = 8192"
definition DefaultSeqWindowBits :: nat where [simp]: "DefaultSeqWindowBits = 16384"

definition PutDgramSeq :: "byte list \<Rightarrow> u64 \<Rightarrow> byte list option" where
  "PutDgramSeq dst seq =
     (if length dst < DgramPrefixLen then None else Some (blit dst 0 (PutUint64 seq)))"

definition ParseDgram :: "byte list \<Rightarrow> werr + (u64 \<times> byte list)" where
  "ParseDgram p =
     (if length p < DgramPrefixLen then Inl ErrShort
      else Inr (word_be (bslice p 0 DgramPrefixLen), bslice p DgramPrefixLen (length p)))"

record pack_p =
  pk_HighestSeq :: u64
  pk_Received :: u64
  pk_EpochEcho :: u32

definition PutPack :: "byte list \<Rightarrow> pack_p \<Rightarrow> (byte list \<times> nat) option" where
  "PutPack dst p =
     (if length dst < PackLen then None
      else
       let hi = (if pk_Received p = 0 then 0 else pk_HighestSeq p)
       in Some (blit (blit (blit dst 0 (PutUint64 hi)) 8 (PutUint64 (pk_Received p))) 16
                  (PutUint32 (pk_EpochEcho p)), PackLen))"

definition ParsePack :: "byte list \<Rightarrow> werr + pack_p" where
  "ParsePack p =
     (case exactTail (length p) PackLen of
        Some e \<Rightarrow> Inl e
      | None \<Rightarrow>
         let pk = \<lparr>pk_HighestSeq = word_be (bslice p 0 8), pk_Received = word_be (bslice p 8 16),
                   pk_EpochEcho = word_be (bslice p 16 20)\<rparr>
         in if pk_Received pk = 0 \<and> pk_HighestSeq pk \<noteq> 0 then Inl ErrReserved else Inr pk)"

section \<open>REL and RACK\<close>

definition Wrappable :: "u8 \<Rightarrow> bool" where
  "Wrappable t \<longleftrightarrow> t \<in> {TypeOpen, TypeOpenAck, TypeJoin, TypeJoinAck, TypeFin, TypeRst, TypeSched,
     TypeClose, TypeGoAway, TypePack, TypeDetach, TypeDown}"

record relhead =
  rh_Cseq :: u32
  rh_Type :: u8
  rh_Flags :: u8
  rh_Handle :: u32

definition PutRelHead :: "byte list \<Rightarrow> relhead \<Rightarrow> byte list option" where
  "PutRelHead dst h =
     (if length dst < RelHeadLen then None
      else Some
       (let d = blit dst 0 (PutUint32 (rh_Cseq h)); d = blit d 4 [rh_Type h]; d = blit d 5 [rh_Flags h]
        in blit d 6 (PutUint32 (rh_Handle h))))"

definition ParseRel :: "byte list \<Rightarrow> werr + (relhead \<times> byte list)" where
  "ParseRel p =
     (if length p < RelHeadLen then Inl ErrShort
      else
       let h = \<lparr>rh_Cseq = word_be (bslice p 0 4), rh_Type = p ! 4, rh_Flags = p ! 5,
                rh_Handle = word_be (bslice p 6 10)\<rparr>
       in if \<not> Wrappable (rh_Type h) then Inl ErrType
          else if rh_Flags h AND NOT (AllowedFlags (rh_Type h)) \<noteq> 0 then Inl ErrFlags
          else if \<not> handleOK (rh_Type h) (rh_Handle h) then Inl ErrHandle
          else let n = length p - RelHeadLen; (lo, hi, _) = PayloadBounds (rh_Type h)
               in if n < lo \<or> n > hi then Inl ErrLength
                  else Inr (h, bslice p RelHeadLen (length p)))"

record rack_p =
  rk_CumAck :: u32
  rk_Sack :: u32

definition rackSackMask :: u32 where
  "rackSackMask = push_bit (RelWindow - 1) 1 - 1"

definition PutRack :: "byte list \<Rightarrow> rack_p \<Rightarrow> (byte list \<times> nat) option" where
  "PutRack dst r =
     (if length dst < RackLen then None
      else Some (blit (blit dst 0 (PutUint32 (rk_CumAck r))) 4 (PutUint32 (rk_Sack r)), RackLen))"

definition ParseRack :: "byte list \<Rightarrow> werr + rack_p" where
  "ParseRack p =
     (case exactTail (length p) RackLen of
        Some e \<Rightarrow> Inl e
      | None \<Rightarrow>
         let r = \<lparr>rk_CumAck = word_be (bslice p 0 4), rk_Sack = word_be (bslice p 4 8)\<rparr>
         in if rk_Sack r AND NOT rackSackMask \<noteq> 0 then Inl ErrReserved else Inr r)"

section \<open>Flow header, packet window and the too-large error\<close>

definition PutFlowHeader :: "byte list \<Rightarrow> u64 \<Rightarrow> byte list option" where
  "PutFlowHeader dst flow =
     (if flow = 0 \<or> length dst < FlowHeaderLen then None
      else Some (blit (blit dst 0 [FlowVersion]) 1 (PutUint64 flow)))"

definition ParseFlowHeader :: "byte list \<Rightarrow> werr + (u64 \<times> byte list)" where
  "ParseFlowHeader d =
     (if length d < FlowHeaderLen \<or> d ! 0 \<noteq> FlowVersion then Inl ErrFlowHeader
      else
       let flow = word_be (bslice d 1 FlowHeaderLen)
       in if flow = 0 then Inl ErrFlowHeader else Inr (flow, bslice d FlowHeaderLen (length d)))"

definition PacketWindow :: "u16 \<Rightarrow> u16 \<Rightarrow> u32" where
  "PacketWindow pmtu cmtu = push_bit 16 (ucast pmtu) OR ucast cmtu"

definition SplitPacketWindow :: "u32 \<Rightarrow> u16 \<times> u16" where
  "SplitPacketWindow w = (ucast (drop_bit 16 w), ucast w)"

text \<open>The digit loop of \<open>itoa\<close>; \<open>acc\<close> is the filled tail \<open>b[i:]\<close> of its 20-byte array.\<close>

function itoa_loop :: "nat \<Rightarrow> string \<Rightarrow> string" where
  "itoa_loop v acc = (if v > 0 then itoa_loop (v div 10) (char_of (48 + v mod 10) # acc) else acc)"
  by pat_completeness auto
termination
  by (relation "measure fst") auto

declare itoa_loop.simps [simp del]

definition itoa :: "int \<Rightarrow> string" where
  "itoa v = (if v \<le> 0 then ''0'' else itoa_loop (nat v) [])"

definition DatagramTooLargeError_Error :: "int \<Rightarrow> string" where
  "DatagramTooLargeError_Error mx =
     (if mx > 0 then ''rendr: datagram too large for the carrier (max '' @ itoa mx @ '')''
      else ''rendr: datagram too large for the carrier'')"

section \<open>Lemmas\<close>

definition enc_pack :: "pack_p \<Rightarrow> byte list" where
  "enc_pack p = PutUint64 (pk_HighestSeq p) @ PutUint64 (pk_Received p) @ PutUint32 (pk_EpochEcho p)"

definition pack_ok :: "pack_p \<Rightarrow> bool" where
  "pack_ok p \<longleftrightarrow> (pk_Received p = 0 \<longrightarrow> pk_HighestSeq p = 0)"

interpretation pack: codec PutPack ParsePack enc_pack pack_ok
proof (standard, goal_cases)
  case (1 x dst)
  then show ?case by (auto simp: PutPack_def enc_pack_def pack_ok_def go_simps Let_def)
next
  case (2 x)
  then show ?case by (auto simp: ParsePack_def enc_pack_def pack_ok_def bslice_def Let_def)
next
  case (3 p x)
  then have l: "length p = 20" and x: "x = \<lparr>pk_HighestSeq = word_be (bslice p 0 8),
      pk_Received = word_be (bslice p 8 16), pk_EpochEcho = word_be (bslice p 16 20)\<rparr>"
    by (simp_all add: ParsePack_def Let_def split: option.splits if_splits)
  have "pack_ok x" using 3 l unfolding ParsePack_def Let_def x [symmetric]
    by (auto simp: pack_ok_def split: if_splits)
  then show ?case using l by (simp add: enc_pack_def x canon_simps)
qed

definition pack_norm :: "pack_p \<Rightarrow> pack_p" where
  "pack_norm p = (if pk_Received p = 0 then p\<lparr>pk_HighestSeq := 0\<rparr> else p)"

lemma PutPack_accepted:
  assumes "PutPack dst p = Some (d, n)"
  shows "ParsePack (take n d) = Inr (pack_norm p)"
proof (rule pack.roundtrip(1))
  show "PutPack dst (pack_norm p) = Some (d, n)"
    using assms by (simp add: PutPack_def pack_norm_def split: if_splits)
qed (simp add: pack_ok_def pack_norm_def)

definition enc_rack :: "rack_p \<Rightarrow> byte list" where
  "enc_rack r = PutUint32 (rk_CumAck r) @ PutUint32 (rk_Sack r)"

definition rack_ok :: "rack_p \<Rightarrow> bool" where
  "rack_ok r \<longleftrightarrow> unat (rk_Sack r) < 2 ^ (RelWindow - 1)"

lemma rack_mask: "s AND NOT rackSackMask = 0 \<longleftrightarrow> unat s < 2 ^ (RelWindow - 1)"
proof -
  have m: "rackSackMask = mask 7" by (simp add: rackSackMask_def mask_eq_exp_minus_1)
  have d: "s = (s AND mask 7) OR (s AND NOT (mask 7))" by (rule bit_word_eqI) (auto simp: bit_simps)
  have "s AND NOT (mask 7) = 0 \<longleftrightarrow> s AND mask 7 = s"
  proof
    assume "s AND NOT (mask 7) = 0" then show "s AND mask 7 = s" using d by simp
  next
    assume "s AND mask 7 = s"
    then have "s AND NOT (mask 7) = (s AND mask 7) AND NOT (mask 7)" by simp
    also have "\<dots> = 0" by (rule bit_word_eqI) (auto simp: bit_simps)
    finally show "s AND NOT (mask 7) = 0" .
  qed
  also have "\<dots> \<longleftrightarrow> s < 2 ^ 7" using less_mask_eq [of s 7] and_mask_less' [of 7 s] by auto
  finally show ?thesis by (simp add: m word_less_nat_alt)
qed

interpretation rack: codec PutRack ParseRack enc_rack rack_ok
proof (standard, goal_cases)
  case (1 x dst)
  then show ?case by (auto simp: PutRack_def enc_rack_def go_simps)
next
  case (2 x)
  then show ?case
    by (auto simp: ParseRack_def enc_rack_def rack_ok_def rack_mask bslice_def Let_def)
next
  case (3 p x)
  then show ?case
    by (auto simp: ParseRack_def enc_rack_def rack_ok_def rack_mask canon_simps Let_def
        split: option.splits if_splits)
qed

definition enc_relhead :: "relhead \<Rightarrow> byte list" where
  "enc_relhead h = PutUint32 (rh_Cseq h) @ [rh_Type h] @ [rh_Flags h] @ PutUint32 (rh_Handle h)"

lemma length_enc_relhead [simp]: "length (enc_relhead h) = 10"
  by (simp add: enc_relhead_def)

lemma PutRelHead_enc:
  "PutRelHead dst h = (if length dst < RelHeadLen then None else Some (blit dst 0 (enc_relhead h)))"
  by (simp add: PutRelHead_def enc_relhead_def go_simps Let_def)

text \<open>The header of the frame that a REL carries, with the sequence number it would be sent with.\<close>

definition inner_header :: "relhead \<Rightarrow> nat \<Rightarrow> u32 \<Rightarrow> header" where
  "inner_header h n fseq = \<lparr>h_Type = rh_Type h, h_Flags = rh_Flags h, h_Len = of_nat n,
     h_Fseq = fseq, h_Handle = rh_Handle h\<rparr>"

lemma Wrappable_bounds:
  "Wrappable t \<Longrightarrow> Known t \<and> \<not> Extension t \<and>
   (case PayloadBounds t of (lo, hi, ok) \<Rightarrow> lo \<le> hi \<and> hi \<le> MaxFramePayload \<and> ok)"
  by (auto simp: Wrappable_def Known_def Extension_def PayloadBounds_def word_le_nat_alt)

lemma ParseRel_iff:
  "ParseRel p = Inr (h, inner) \<longleftrightarrow> Wrappable (rh_Type h) \<and>
     header_ok (inner_header h (length inner) f) \<and> length inner \<le> MaxFramePayload \<and>
     p = enc_relhead h @ inner"
proof
  assume a: "ParseRel p = Inr (h, inner)"
  then have l: "10 \<le> length p" and h: "h = \<lparr>rh_Cseq = word_be (bslice p 0 4), rh_Type = p ! 4,
      rh_Flags = p ! 5, rh_Handle = word_be (bslice p 6 10)\<rparr>" and i: "inner = bslice p 10 (length p)"
    by (auto simp: ParseRel_def Let_def split: if_splits prod.splits)
  have p: "p = enc_relhead h @ inner" using l by (simp add: enc_relhead_def h i canon_simps)
  obtain lo hi ok where b: "PayloadBounds (rh_Type h) = (lo, hi, ok)" by (cases "PayloadBounds (rh_Type h)")
  have w: "Wrappable (rh_Type h)" "rh_Flags h AND NOT (AllowedFlags (rh_Type h)) = 0"
    "handleOK (rh_Type h) (rh_Handle h)" "lo \<le> length inner" "length inner \<le> hi"
    using a l b unfolding ParseRel_def Let_def h [symmetric]
    by (auto simp: i split: if_splits)
  moreover have "hi \<le> MaxFramePayload" "Known (rh_Type h)"
    using Wrappable_bounds [OF w(1)] b by auto
  ultimately show "Wrappable (rh_Type h) \<and> header_ok (inner_header h (length inner) f) \<and>
      length inner \<le> MaxFramePayload \<and> p = enc_relhead h @ inner"
    using b p unat_len [of "length inner"] by (simp add: header_ok_def inner_header_def)
next
  assume a: "Wrappable (rh_Type h) \<and> header_ok (inner_header h (length inner) f) \<and>
      length inner \<le> MaxFramePayload \<and> p = enc_relhead h @ inner"
  then have s: "bslice p 0 4 = PutUint32 (rh_Cseq h)" "bslice p 6 10 = PutUint32 (rh_Handle h)"
    "p ! 4 = rh_Type h" "p ! 5 = rh_Flags h" "bslice p 10 (length p) = inner"
    by (auto simp: enc_relhead_def bslice_def nth_append)
  have h: "\<lparr>rh_Cseq = rh_Cseq h, rh_Type = rh_Type h, rh_Flags = rh_Flags h, rh_Handle = rh_Handle h\<rparr> = h"
    by simp
  have "length p = 10 + length inner" "Known (rh_Type h)" "\<not> Extension (rh_Type h)"
    using a Wrappable_bounds by auto
  with a s h show "ParseRel p = Inr (h, inner)"
    using unat_len [of "length inner"]
    by (auto simp: ParseRel_def Let_def header_ok_def inner_header_def split: prod.splits)
qed

lemma SplitPacketWindow_PacketWindow: "SplitPacketWindow (PacketWindow p c) = (p, c)"
  unfolding SplitPacketWindow_def PacketWindow_def prod.inject
  by (intro conjI bit_word_eqI) (auto simp: bit_simps dest: bit_imp_le_length)

lemma PacketWindow_SplitPacketWindow: "(case SplitPacketWindow w of (p, c) \<Rightarrow> PacketWindow p c) = w"
  unfolding SplitPacketWindow_def PacketWindow_def prod.case
  by (rule bit_word_eqI) (auto simp: bit_simps)

lemma ParseDgram_iff:
  "ParseDgram p = Inr (seq, data) \<longleftrightarrow> p = PutUint64 seq @ data"
proof (cases "8 \<le> length p")
  case True
  have "word_be (bslice p 0 8) = seq \<longleftrightarrow> bslice p 0 8 = PutUint64 seq"
    using be_word_bslice [of 8 p 0 8, where 'a = 64] True by auto
  moreover have "p = PutUint64 seq @ data \<longleftrightarrow> bslice p 0 8 = PutUint64 seq \<and> bslice p 8 (length p) = data"
    using True append_eq_conv_conj [of "PutUint64 seq" data p] by (auto simp: bslice_def)
  ultimately show ?thesis using True by (simp add: ParseDgram_def)
qed (auto simp: ParseDgram_def)

lemma ParseFlowHeader_iff:
  "ParseFlowHeader d = Inr (flow, rest) \<longleftrightarrow> flow \<noteq> 0 \<and> d = FlowVersion # PutUint64 flow @ rest"
proof (cases "9 \<le> length d")
  case True
  have "word_be (bslice d 1 9) = flow \<longleftrightarrow> bslice d 1 9 = PutUint64 flow"
    using be_word_bslice [of 9 d 1 8, where 'a = 64] True by auto
  moreover have "d = 2 # PutUint64 flow @ rest \<longleftrightarrow>
      d ! 0 = 2 \<and> bslice d 1 9 = PutUint64 flow \<and> bslice d 9 (length d) = rest"
    using True append_eq_conv_conj [of "PutUint64 flow" rest "tl d"]
    by (cases d) (auto simp: bslice_def)
  ultimately show ?thesis using True by (auto simp: ParseFlowHeader_def Let_def)
qed (auto simp: ParseFlowHeader_def)

definition digit_val :: "nat \<Rightarrow> char \<Rightarrow> nat" where
  "digit_val a c = 10 * a + (of_char c - 48)"

lemma itoa_loop_val: "foldl digit_val 0 (itoa_loop v acc) = foldl digit_val v acc"
proof (induction v acc rule: itoa_loop.induct)
  case (1 v acc)
  have "v mod 10 < 208" by (rule less_trans [of _ 10]) auto
  then have "digit_val (v div 10) (char_of (48 + v mod 10)) = v"
    by (simp add: digit_val_def of_char_of)
  then show ?case
    using 1 by (subst itoa_loop.simps) simp
qed

lemma itoa_loop_length: "v < 10 ^ k \<Longrightarrow> length (itoa_loop v acc) \<le> length acc + k"
proof (induction k arbitrary: v acc)
  case (Suc k)
  then have "v div 10 < 10 ^ k" by (simp add: div_less_iff_less_mult mult.commute)
  from Suc.IH [OF this, of "char_of (48 + v mod 10) # acc"] show ?case
    by (subst itoa_loop.simps) simp
qed (simp add: itoa_loop.simps)

section \<open>Properties of the datagram frames\<close>

text \<open>Claim C22: the REL codec is exact and never nests. \<open>ParseRel\<close> accepts a payload exactly when
  it is what \<open>PutRelHead\<close> writes in front of the inner payload, the inner type may be wrapped (so
  it is never REL, RACK, DATA, ACK, PING, PONG or DGRAM) and the inner header satisfies every rule
  of the frame layer; the inner frame could therefore have been sent as a frame of its own.\<close>

theorem rel_codec_exact:
  "ParseRel p = Inr (h, inner) \<longleftrightarrow>
     Wrappable (rh_Type h) \<and>
     rh_Type h \<notin> {TypeRel, TypeRack, TypeData, TypeAck, TypePing, TypePong, TypeDgram} \<and>
     header_ok (inner_header h (length inner) fseq) \<and>
     PutRelHead p h = Some p \<and> inner = drop RelHeadLen p \<and>
     AppendFrame [] (inner_header h (length inner) fseq) inner =
       Some (enc_frame (inner_header h (length inner) fseq) inner)"
proof -
  have "p = enc_relhead h @ inner \<longleftrightarrow> PutRelHead p h = Some p \<and> inner = drop RelHeadLen p"
    by (auto simp: PutRelHead_enc blit_def)
  moreover have "Wrappable t \<Longrightarrow> t \<notin> {TypeRel, TypeRack, TypeData, TypeAck, TypePing, TypePong, TypeDgram}" for t
    by (auto simp: Wrappable_def)
  moreover have "length inner \<le> MaxFramePayload \<longleftrightarrow>
      AppendFrame [] (inner_header h (length inner) fseq) inner =
       Some (enc_frame (inner_header h (length inner) fseq) inner)"
    by (simp add: AppendFrame_enc)
  ultimately show ?thesis unfolding ParseRel_iff [of p h inner fseq] by blast
qed

text \<open>Claim C23: the datagram payloads are exact. DGRAM, PACK and RACK payloads and the raw-UDP
  flow header decode exactly when they are the encoder's output (a PACK with nothing received
  names no highest sequence number, a RACK uses only its seven SACK bits, the flow ID is not 0),
  \<open>PutPack\<close> output is always accepted, and the packet window field splits into the two sizes it
  was built from.\<close>

theorem dgram_codecs_exact:
  "(ParseDgram p = Inr (seq, data) \<longleftrightarrow> PutDgramSeq p seq = Some p \<and> data = drop DgramPrefixLen p) \<and>
   (ParsePack p = Inr pk \<longleftrightarrow> pack_ok pk \<and> PutPack (replicate (length p) 0) pk = Some (p, length p)) \<and>
   (PutPack dst pk = Some (d, n) \<longrightarrow> ParsePack (take n d) = Inr (pack_norm pk)) \<and>
   (ParseRack p = Inr rk \<longleftrightarrow>
      unat (rk_Sack rk) < 2 ^ (RelWindow - 1) \<and> PutRack (replicate (length p) 0) rk = Some (p, length p)) \<and>
   (ParseFlowHeader p = Inr (flow, rest) \<longleftrightarrow>
      PutFlowHeader p flow = Some p \<and> rest = drop FlowHeaderLen p) \<and>
   SplitPacketWindow (PacketWindow pmtu cmtu) = (pmtu, cmtu)"
proof (intro conjI impI)
  show "ParseDgram p = Inr (seq, data) \<longleftrightarrow> PutDgramSeq p seq = Some p \<and> data = drop DgramPrefixLen p"
    by (auto simp: ParseDgram_iff PutDgramSeq_def blit_def)
  have "PutFlowHeader p flow = (if flow = 0 \<or> length p < 9 then None
      else Some (blit p 0 (FlowVersion # PutUint64 flow)))"
    by (simp add: PutFlowHeader_def go_simps)
  then show "ParseFlowHeader p = Inr (flow, rest) \<longleftrightarrow>
      PutFlowHeader p flow = Some p \<and> rest = drop FlowHeaderLen p"
    by (auto simp: ParseFlowHeader_iff blit_def)
qed (auto simp: pack.parse_iff_put rack.parse_iff_put rack_ok_def SplitPacketWindow_PacketWindow
    dest: PutPack_accepted)

theorem dgram_codecs_exact_witness:
  "\<exists>d. PutPack (replicate 20 0) \<lparr>pk_HighestSeq = 9, pk_Received = 0, pk_EpochEcho = 3\<rparr> = Some (d, 20) \<and>
     ParsePack (take 20 d) = Inr \<lparr>pk_HighestSeq = 0, pk_Received = 0, pk_EpochEcho = 3\<rparr>"
proof -
  let ?p = "\<lparr>pk_HighestSeq = 9, pk_Received = 0, pk_EpochEcho = 3\<rparr>"
  obtain d where d: "PutPack (replicate 20 0) ?p = Some (d, 20)" by (simp add: PutPack_def)
  then show ?thesis
    using dgram_codecs_exact [of _ _ _ ?p "replicate 20 0" d 20] by (auto simp: pack_norm_def)
qed

text \<open>\<open>itoa\<close> prints the decimal digits. For every Go \<open>int\<close> the text read back as a
  decimal number is the value (0 for a negative one), and the loop needs at most 19 of its 20
  bytes, so the index never runs below 0.\<close>

theorem itoa_decimal:
  "foldl digit_val 0 (itoa v) = nat v \<and> (v < 2 ^ 63 \<longrightarrow> length (itoa v) \<le> 19)"
proof
  show "foldl digit_val 0 (itoa v) = nat v"
    by (simp add: itoa_def itoa_loop_val) (simp add: digit_val_def)
  show "v < 2 ^ 63 \<longrightarrow> length (itoa v) \<le> 19"
    using itoa_loop_length [of "nat v" 19 "[]"] by (auto simp: itoa_def)
qed

theorem itoa_decimal_witness: "length (itoa 1200) \<le> 19 \<and> foldl digit_val 0 (itoa 1200) = 1200"
  using itoa_decimal [of 1200] by simp

end
