(* ===== verification/Wire_Preface.thy ===== *)
theory Wire_Preface
  imports Wire_Dgram
begin

text \<open>
  \<open>internal/wire/preface.go\<close>: the 40-byte PREFACE and PREFACE_ACK that open a carrier, their
  canonical order of checks, the first frame sequence number derived from the CRC field, and the
  negotiation of optional features. The parsers return a pair as in Go: the decoded value and the
  error; every error but \<open>ErrFeature\<close> comes with the zero value.
\<close>

section \<open>Constants\<close>

definition Magic :: "byte list" where [simp]: "Magic = [0x52, 0x4E, 0x44, 0x32]"
definition RoleDialer :: u8 where [simp]: "RoleDialer = 1"
definition RolePassive :: u8 where [simp]: "RolePassive = 2"
definition PrefaceOK :: u8 where [simp]: "PrefaceOK = 0"
definition PrefaceVersion :: u8 where [simp]: "PrefaceVersion = 1"
definition PrefaceFeature :: u8 where [simp]: "PrefaceFeature = 2"
definition PrefaceGoingAway :: u8 where [simp]: "PrefaceGoingAway = 3"
definition PrefaceCapacity :: u8 where [simp]: "PrefaceCapacity = 4"
definition KnownRequired :: u32 where [simp]: "KnownRequired = 0"
definition OptMux :: u32 where [simp]: "OptMux = 1"
definition OptEndCode :: u32 where [simp]: "OptEndCode = 2"
definition KnownOptional :: u32 where [simp]: "KnownOptional = OptMux OR OptEndCode"

section \<open>Encoding and decoding\<close>

text \<open>PREFACE and PREFACE_ACK share one record: \<open>pf_B6\<close> is the kind of a PREFACE and the status
  of a PREFACE_ACK.\<close>

record preface =
  pf_Minor :: u8
  pf_B6 :: u8
  pf_Req :: u32
  pf_Opt :: u32
  pf_Instance :: "byte list"
  pf_CarrierID :: u32

definition zero_preface :: preface where
  "zero_preface = \<lparr>pf_Minor = 0, pf_B6 = 0, pf_Req = 0, pf_Opt = 0, pf_Instance = replicate 16 0,
     pf_CarrierID = 0\<rparr>"

definition putPreface ::
    "byte list \<Rightarrow> u8 \<Rightarrow> u8 \<Rightarrow> u8 \<Rightarrow> u32 \<Rightarrow> u32 \<Rightarrow> byte list \<Rightarrow> u32 \<Rightarrow> byte list option" where
  "putPreface b minor b6 role req opt inst cid =
     (if length b < PrefaceLen then None
      else Some
       (let b = blit b 0 Magic;
            b = blit b 4 [Major];
            b = blit b 5 [minor];
            b = blit b 6 [b6];
            b = blit b 7 [role];
            b = blit b 8 (PutUint32 req);
            b = blit b 12 (PutUint32 opt);
            b = blit b 16 inst;
            b = blit b 32 (PutUint32 cid)
        in blit b 36 (PutUint32 (CRC (take 36 b)))))"

definition PutPreface :: "byte list \<Rightarrow> preface \<Rightarrow> byte list option" where
  "PutPreface b p =
     putPreface b (pf_Minor p) (pf_B6 p) RoleDialer (pf_Req p) (pf_Opt p) (pf_Instance p) (pf_CarrierID p)"

definition PutPrefaceAck :: "byte list \<Rightarrow> preface \<Rightarrow> byte list option" where
  "PutPrefaceAck b a =
     putPreface b (pf_Minor a) (pf_B6 a) RolePassive (pf_Req a) (pf_Opt a) (pf_Instance a) (pf_CarrierID a)"

definition PrefaceFseq :: "byte list \<Rightarrow> u32 option" where
  "PrefaceFseq b = (if length b < PrefaceLen then None else Some (word_be (bslice b 36 PrefaceLen)))"

definition checkPreface :: "byte list \<Rightarrow> u8 \<Rightarrow> werr option" where
  "checkPreface b role =
     (if length b < PrefaceLen then Some ErrShort
      else if length b > PrefaceLen then Some ErrTrailing
      else if b ! 0 \<noteq> Magic ! 0 \<or> b ! 1 \<noteq> Magic ! 1 \<or> b ! 2 \<noteq> Magic ! 2 \<or> b ! 3 \<noteq> Magic ! 3
      then Some ErrMagic
      else if CRC (take 36 b) \<noteq> word_be (bslice b 36 40) then Some ErrCRC
      else if b ! 4 \<noteq> Major then Some ErrMajor
      else if b ! 7 \<noteq> role then Some ErrMalformed
      else None)"

definition preface_fields :: "byte list \<Rightarrow> preface" where
  "preface_fields b = \<lparr>pf_Minor = b ! 5, pf_B6 = b ! 6, pf_Req = word_be (bslice b 8 12),
     pf_Opt = word_be (bslice b 12 16), pf_Instance = bslice b 16 32,
     pf_CarrierID = word_be (bslice b 32 36)\<rparr>"

definition ParsePreface :: "byte list \<Rightarrow> preface \<times> werr option" where
  "ParsePreface b =
     (case checkPreface b RoleDialer of
        Some e \<Rightarrow> (zero_preface, Some e)
      | None \<Rightarrow>
         let p = preface_fields b
         in if pf_B6 p \<noteq> KindStream \<and> pf_B6 p \<noteq> KindDatagram then (zero_preface, Some ErrMalformed)
            else if pf_Instance p = replicate 16 0 \<or> pf_CarrierID p = 0 then (zero_preface, Some ErrMalformed)
            else if pf_Req p AND NOT KnownRequired \<noteq> 0 then (p, Some ErrFeature)
            else (p, None))"

definition ParsePrefaceAck :: "byte list \<Rightarrow> preface \<times> werr option" where
  "ParsePrefaceAck b =
     (case checkPreface b RolePassive of
        Some e \<Rightarrow> (zero_preface, Some e)
      | None \<Rightarrow>
         let a = preface_fields b
         in if pf_B6 a > PrefaceCapacity then (zero_preface, Some ErrMalformed)
            else if pf_Instance a = replicate 16 0 \<or> pf_CarrierID a = 0 then (zero_preface, Some ErrMalformed)
            else if pf_Req a AND NOT KnownRequired \<noteq> 0 then (a, Some ErrFeature)
            else (a, None))"

definition EchoOpt :: "u32 \<Rightarrow> u32" where
  "EchoOpt offered = offered AND KnownOptional"

definition MuxNegotiated :: "u32 \<Rightarrow> u32 \<Rightarrow> werr + bool" where
  "MuxNegotiated sent answered =
     (if answered AND OptMux \<noteq> 0 \<and> sent AND OptMux = 0 then Inl ErrMalformed
      else Inr (sent AND answered AND OptMux \<noteq> 0))"

definition IsPreface :: "byte list \<Rightarrow> bool" where
  "IsPreface b \<longleftrightarrow> PrefaceLen \<le> length b \<and> b ! 0 = Magic ! 0 \<and> b ! 1 = Magic ! 1 \<and> b ! 2 = Magic ! 2
     \<and> b ! 3 = Magic ! 3"

section \<open>The CRC separates bursts of up to four bytes\<close>

primrec le_bits :: "byte list \<Rightarrow> u32" where
  "le_bits [] = 0"
| "le_bits (v # p) = ucast v OR push_bit 8 (le_bits p)"

lemma bit_le_bits:
  "n < 32 \<Longrightarrow> bit (le_bits p) n \<longleftrightarrow> n div 8 < length p \<and> bit (p ! (n div 8)) (n mod 8)"
proof (induction p arbitrary: n)
  case (Cons v p)
  have b: "bit (le_bits (v # p)) n \<longleftrightarrow> bit v n \<or> 8 \<le> n \<and> bit (le_bits p) (n - 8)"
    using Cons.prems by (simp add: bit_simps)
  show ?case
  proof (cases "n < 8")
    case True
    then show ?thesis unfolding b by simp
  next
    case False
    then obtain m where m: "n = m + 8" by (metis add.commute le_Suc_ex not_less)
    have "\<not> bit v n" using False by (auto dest: bit_imp_le_length)
    moreover have "bit (le_bits p) m \<longleftrightarrow> m div 8 < length p \<and> bit (p ! (m div 8)) (m mod 8)"
      using Cons.prems m by (intro Cons.IH) simp
    moreover have "n div 8 = Suc (m div 8)" "n mod 8 = m mod 8" "n - 8 = m" by (simp_all add: m)
    ultimately show ?thesis using False unfolding b by simp
  qed
qed simp

lemma le_bits_inj:
  assumes "le_bits p = le_bits q" and "length p = length q" and "length p \<le> 4"
  shows "p = q"
proof (rule nth_equalityI)
  fix i assume i: "i < length p"
  show "p ! i = q ! i"
  proof (rule bit_word_eqI)
    fix n assume "n < LENGTH(8)"
    then have n: "n < 8" by simp
    have "(8 * i + n) div 8 = i" "(8 * i + n) mod 8 = n" "8 * i + n < 32"
      using n i assms(3) by auto
    then have "bit (le_bits r) (8 * i + n) \<longleftrightarrow> i < length r \<and> bit (r ! i) n" for r
      by (simp add: bit_le_bits)
    then show "bit (p ! i) n = bit (q ! i) n" using assms i by metis
  qed
qed (rule assms(2))

lemma foldl_crc_burst:
  "length p \<le> 4 \<Longrightarrow> foldl crc_byte c p = (crc_bit ^^ (8 * length p)) (c XOR le_bits p)"
proof (induction p arbitrary: c)
  case (Cons v p)
  let ?z = "push_bit 8 (le_bits p)"
  have "drop_bit 8 ?z = le_bits p"
  proof (rule bit_word_eqI)
    fix n assume "n < LENGTH(32)"
    moreover have "bit (le_bits p) n \<Longrightarrow> n < 24"
      using Cons.prems calculation by (auto simp: bit_le_bits)
    ultimately show "bit (drop_bit 8 ?z) n = bit (le_bits p) n" by (auto simp: bit_simps)
  qed
  then have "(crc_bit ^^ 8) ?z = le_bits p" by (subst crc_bits_shift) (auto simp: bit_simps)
  moreover have "ucast v OR ?z = ucast v XOR ?z"
    by (rule bit_word_eqI) (auto simp: bit_simps dest: bit_imp_le_length)
  ultimately have "(crc_bit ^^ 8) (c XOR le_bits (v # p)) = crc_byte c v XOR le_bits p"
    using crc_bits_xor [of 8 "c XOR ucast v" ?z] by (simp add: crc_byte_eq xor.assoc)
  moreover have "8 * length (v # p) = 8 * length p + 8" by simp
  ultimately show ?case using Cons by (simp only: funpow_add o_apply) simp
qed simp

lemma CRC_burst_inj:
  assumes "CRC (a @ p @ b) = CRC (a @ q @ b)" and "length p = length q" and "length p \<le> 4"
  shows "p = q"
proof -
  let ?c = "foldl crc_byte (NOT 0) a"
  have "foldl crc_byte ?c p = foldl crc_byte ?c q"
    using assms(1) by (auto simp: CRC_def CRCUpdate_def dest: foldl_crc_byte_inj)
  then have "(crc_bit ^^ (8 * length p)) (?c XOR le_bits p) = (crc_bit ^^ (8 * length p)) (?c XOR le_bits q)"
    using assms by (simp add: foldl_crc_burst)
  then have "le_bits p = le_bits q" by (auto dest!: crc_bits_inj simp: xor_cancel_left)
  then show ?thesis using assms by (auto intro: le_bits_inj)
qed

section \<open>Preface lemmas\<close>

definition preface_body :: "u8 \<Rightarrow> preface \<Rightarrow> byte list" where
  "preface_body role p = Magic @ [Major] @ [pf_Minor p] @ [pf_B6 p] @ [role] @ PutUint32 (pf_Req p)
     @ PutUint32 (pf_Opt p) @ pf_Instance p @ PutUint32 (pf_CarrierID p)"

definition enc_preface :: "u8 \<Rightarrow> preface \<Rightarrow> byte list" where
  "enc_preface role p = preface_body role p @ PutUint32 (CRC (preface_body role p))"

lemma length_preface_body [simp]: "length (pf_Instance p) = 16 \<Longrightarrow> length (preface_body role p) = 36"
  by (simp add: preface_body_def)

lemma putPreface_enc:
  assumes "length (pf_Instance p) = 16"
  shows "putPreface b (pf_Minor p) (pf_B6 p) role (pf_Req p) (pf_Opt p) (pf_Instance p) (pf_CarrierID p) =
    (if length b < PrefaceLen then None else Some (blit b 0 (enc_preface role p)))"
  using assms by (simp add: putPreface_def enc_preface_def preface_body_def go_simps Let_def)

definition preface_ok :: "preface \<Rightarrow> bool" where
  "preface_ok p \<longleftrightarrow> sid_ok (pf_Instance p) \<and> pf_CarrierID p \<noteq> 0 \<and> pf_Req p = 0"

lemma length_enc_preface [simp]: "length (pf_Instance p) = 16 \<Longrightarrow> length (enc_preface role p) = 40"
  by (simp add: enc_preface_def)

lemma preface_fields_enc:
  assumes "length (pf_Instance p) = 16"
  shows "preface_fields (enc_preface role p) = p"
  using assms by (simp add: preface_fields_def enc_preface_def preface_body_def bslice_def nth_append)

lemma checkPreface_enc:
  assumes "length (pf_Instance p) = 16"
  shows "checkPreface (enc_preface role p) role = None"
proof -
  have "take 36 (enc_preface role p) = preface_body role p"
    "bslice (enc_preface role p) 36 40 = PutUint32 (CRC (preface_body role p))"
    using assms by (simp_all add: enc_preface_def bslice_def)
  moreover have "enc_preface role p ! i = preface_body role p ! i" if "i < 8" for i
    using that assms by (simp add: enc_preface_def nth_append)
  ultimately show ?thesis using assms by (simp add: checkPreface_def preface_body_def)
qed

lemma checkPreface_None:
  assumes "checkPreface b role = None"
  shows "b = enc_preface role (preface_fields b)" and "length b = 40"
proof -
  from assms show l: "length b = 40" by (simp add: checkPreface_def split: if_splits)
  from assms have n: "b ! 0 = 0x52" "b ! Suc 0 = 0x4E" "b ! 2 = 0x44" "b ! 3 = 0x32" "b ! 4 = 2" "b ! 7 = role"
    and c: "CRC (take 36 b) = word_be (bslice b 36 40)"
    by (auto simp: checkPreface_def split: if_splits)
  have "[b ! 0, b ! 1, b ! 2, b ! 3, b ! 4] @ [b ! 5] @ [b ! 6] @ [b ! 7] @ bslice b 8 36 = bslice b 0 36"
    using l by (simp add: canon_simps)
  then have "preface_body role (preface_fields b) = bslice b 0 36"
    using l by (simp add: preface_body_def preface_fields_def n canon_simps)
  moreover have "bslice b 0 36 @ PutUint32 (CRC (take 36 b)) = b"
    using l by (simp add: c be_word_bslice bslice_append_join bslice_whole)
  ultimately show "b = enc_preface role (preface_fields b)"
    by (simp add: enc_preface_def bslice_0)
qed

lemma length_preface_fields [simp]: "length b = 40 \<Longrightarrow> length (pf_Instance (preface_fields b)) = 16"
  by (simp add: preface_fields_def)

lemma checkPreface_iff:
  "checkPreface b role = None \<and> preface_fields b = p \<longleftrightarrow> length (pf_Instance p) = 16 \<and> b = enc_preface role p"
  using checkPreface_None checkPreface_enc preface_fields_enc length_preface_fields by metis

lemma checkPreface_corrupt:
  assumes "checkPreface b role = None" and "i < 40" and "v \<noteq> b ! i"
  shows "checkPreface (b[i := v]) role' \<noteq> None"
proof -
  have l: "length b = 40" and c: "CRC (take 36 b) = word_be (bslice b 36 40)"
    using assms(1) by (auto simp: checkPreface_def split: if_splits)
  have "CRC (take 36 (b[i := v])) \<noteq> word_be (bslice (b[i := v]) 36 40)"
  proof (cases "i < 36")
    case True
    have "CRC ((take 36 b)[i := v]) \<noteq> CRC (take 36 b)"
      using True assms l by (intro CRC_byte_change) auto
    moreover have "bslice (b[i := v]) 36 40 = bslice b 36 40" using True by (simp add: bslice_def drop_update_cancel)
    ultimately show ?thesis using c by (simp add: take_update_swap)
  next
    case False
    have "bslice (b[i := v]) 36 40 \<noteq> bslice b 36 40"
    proof
      assume "bslice (b[i := v]) 36 40 = bslice b 36 40"
      then have "bslice (b[i := v]) 36 40 ! (i - 36) = bslice b 36 40 ! (i - 36)" by simp
      then show False using False assms l by (simp add: nth_bslice)
    qed
    then have "(word_be (bslice (b[i := v]) 36 40) :: u32) \<noteq> word_be (bslice b 36 40)"
      using be_word_bslice [of 40 b 36 4, where 'a = 32] be_word_bslice [of 40 "b[i := v]" 36 4, where 'a = 32] l
      by auto
    then show ?thesis using False c by simp
  qed
  then show ?thesis by (auto simp: checkPreface_def)
qed

section \<open>Properties of the preface\<close>

text \<open>Claim C24: the PREFACE and PREFACE_ACK codecs are exact. A parse returns \<open>p\<close> without error
  exactly when \<open>p\<close> is a legal preface of that direction (non-zero instance and carrier ID, no
  required feature bits, a known kind or status) and the 40 bytes are those the encoder writes.\<close>

theorem preface_codec_exact:
  "(ParsePreface b = (p, None) \<longleftrightarrow>
      preface_ok p \<and> (pf_B6 p = KindStream \<or> pf_B6 p = KindDatagram) \<and>
      PutPreface (replicate PrefaceLen 0) p = Some b) \<and>
   (ParsePrefaceAck b = (p, None) \<longleftrightarrow>
      preface_ok p \<and> pf_B6 p \<le> PrefaceCapacity \<and>
      PutPrefaceAck (replicate PrefaceLen 0) p = Some b)"
proof -
  have put: "length (pf_Instance p) = 16 \<Longrightarrow> PutPreface (replicate 40 0) p = Some (enc_preface 1 p)"
    "length (pf_Instance p) = 16 \<Longrightarrow> PutPrefaceAck (replicate 40 0) p = Some (enc_preface 2 p)"
    by (simp_all add: PutPreface_def PutPrefaceAck_def putPreface_enc blit_def)
  have eq: "preface_ok p \<and> Some (enc_preface r p) = Some b \<longleftrightarrow>
      checkPreface b r = None \<and> preface_fields b = p \<and> preface_ok p" for r
    using checkPreface_iff [of b r p] by (auto simp: preface_ok_def sid_ok_def)
  have "ParsePreface b = (p, None) \<longleftrightarrow>
      (checkPreface b 1 = None \<and> preface_fields b = p \<and> preface_ok p) \<and> (pf_B6 p = 1 \<or> pf_B6 p = 2)"
    using checkPreface_None(2) [of b 1]
    by (auto simp: ParsePreface_def preface_ok_def sid_ok_def Let_def split: option.splits)
  moreover have "ParsePrefaceAck b = (p, None) \<longleftrightarrow>
      (checkPreface b 2 = None \<and> preface_fields b = p \<and> preface_ok p) \<and> pf_B6 p \<le> 4"
    using checkPreface_None(2) [of b 2]
    by (auto simp: ParsePrefaceAck_def preface_ok_def sid_ok_def Let_def not_less split: option.splits)
  moreover have "preface_ok p \<Longrightarrow> length (pf_Instance p) = 16" by (simp add: preface_ok_def sid_ok_def)
  ultimately show ?thesis using eq [of 1] eq [of 2] put by auto
qed

text \<open>Claim C25: preface corruption is detected. Replacing any one of the 40 bytes of an accepted
  PREFACE (or PREFACE_ACK) by another value makes both parsers report an error that is not
  \<open>ErrFeature\<close>, so no decoded field reaches the caller.\<close>

theorem preface_corruption_detected:
  assumes "ParsePreface b = (p, None) \<or> ParsePrefaceAck b = (p, None)"
    and "i < PrefaceLen" and "v \<noteq> b ! i"
  shows "(\<exists>e. ParsePreface (b[i := v]) = (zero_preface, Some e)) \<and>
    (\<exists>e. ParsePrefaceAck (b[i := v]) = (zero_preface, Some e))"
proof -
  obtain r where "checkPreface b r = None"
    using assms(1) by (auto simp: ParsePreface_def ParsePrefaceAck_def split: option.splits)
  then have "checkPreface (b[i := v]) r' \<noteq> None" for r'
    using assms by (intro checkPreface_corrupt) auto
  then obtain e e' where "checkPreface (b[i := v]) 1 = Some e" "checkPreface (b[i := v]) 2 = Some e'"
    by blast
  then show ?thesis by (simp add: ParsePreface_def ParsePrefaceAck_def)
qed

definition sample_preface :: preface where
  "sample_preface = \<lparr>pf_Minor = 0, pf_B6 = 1, pf_Req = 0, pf_Opt = 1, pf_Instance = replicate 16 7,
     pf_CarrierID = 3\<rparr>"

lemma sample_preface_parses: "ParsePreface (enc_preface 1 sample_preface) = (sample_preface, None)"
proof -
  have "length (pf_Instance sample_preface) = 16" by (simp add: sample_preface_def)
  then show ?thesis
    by (simp add: ParsePreface_def checkPreface_enc preface_fields_enc)
      (simp add: sample_preface_def replicate_eq_replicate)
qed

theorem preface_corruption_detected_witness:
  "\<exists>e. ParsePreface ((enc_preface 1 sample_preface)[0 := 0]) = (zero_preface, Some e)"
proof -
  have "enc_preface 1 sample_preface ! 0 = 0x52" by (simp add: enc_preface_def preface_body_def)
  then show ?thesis
    using preface_corruption_detected [of "enc_preface 1 sample_preface" sample_preface 0 0]
      sample_preface_parses by simp
qed

lemma PutPreface_fseq:
  assumes "length (pf_Instance p) = 16"
  shows "PutPreface b p = Some x \<Longrightarrow> PrefaceFseq x = Some (CRC (preface_body RoleDialer p))"
    and "PutPrefaceAck b p = Some x \<Longrightarrow> PrefaceFseq x = Some (CRC (preface_body RolePassive p))"
  using assms
  by (auto simp: PutPreface_def PutPrefaceAck_def putPreface_enc PrefaceFseq_def blit_def enc_preface_def
    bslice_def split: if_splits)

lemma preface_body_carrier:
  assumes "i \<noteq> pf_CarrierID p"
  shows "CRC (preface_body r p) \<noteq> CRC (preface_body r (p\<lparr>pf_CarrierID := i\<rparr>))"
proof
  let ?pre = "Magic @ [Major] @ [pf_Minor p] @ [pf_B6 p] @ [r] @ PutUint32 (pf_Req p)
     @ PutUint32 (pf_Opt p) @ pf_Instance p"
  assume "CRC (preface_body r p) = CRC (preface_body r (p\<lparr>pf_CarrierID := i\<rparr>))"
  then have "CRC (?pre @ PutUint32 (pf_CarrierID p) @ []) = CRC (?pre @ PutUint32 i @ [])"
    by (simp add: preface_body_def)
  then have "PutUint32 (pf_CarrierID p) = PutUint32 i" by (rule CRC_burst_inj) simp_all
  then have "(word_be (PutUint32 (pf_CarrierID p)) :: u32) = word_be (PutUint32 i)" by simp
  then show False using assms by simp
qed

text \<open>Claim C26: carriers that differ in nothing but the carrier ID start at different frame numbers. Two
  dialer prefaces, or two answers, that have every other field equal and different carrier IDs open their
  directions at different first frame sequence numbers, so a frame copied from one such carrier to the
  other at the same frame index is out of sequence.\<close>

theorem preface_fseq_separates_carriers:
  assumes "PutPreface b p = Some x \<and> PutPreface b' (p\<lparr>pf_CarrierID := i\<rparr>) = Some y \<or>
      PutPrefaceAck b p = Some x \<and> PutPrefaceAck b' (p\<lparr>pf_CarrierID := i\<rparr>) = Some y"
    and "length (pf_Instance p) = 16" and "i \<noteq> pf_CarrierID p"
  shows "\<exists>m n. PrefaceFseq x = Some m \<and> PrefaceFseq y = Some n \<and> m \<noteq> n"
  using assms PutPreface_fseq [of p b x] PutPreface_fseq [of "p\<lparr>pf_CarrierID := i\<rparr>" b' y]
    preface_body_carrier [OF assms(3)] by auto

theorem preface_fseq_separates_carriers_witness:
  "\<exists>x y m n. PutPreface (replicate 40 0) sample_preface = Some x \<and>
     PutPreface (replicate 40 0) (sample_preface\<lparr>pf_CarrierID := 4\<rparr>) = Some y \<and>
     PrefaceFseq x = Some m \<and> PrefaceFseq y = Some n \<and> m \<noteq> n"
proof -
  have l: "length (pf_Instance sample_preface) = 16" "4 \<noteq> pf_CarrierID sample_preface"
    by (simp_all add: sample_preface_def)
  obtain x y where xy: "PutPreface (replicate 40 0) sample_preface = Some x"
      "PutPreface (replicate 40 0) (sample_preface\<lparr>pf_CarrierID := 4\<rparr>) = Some y"
    by (simp add: PutPreface_def putPreface_def)
  then have "PutPreface (replicate 40 0) sample_preface = Some x \<and>
      PutPreface (replicate 40 0) (sample_preface\<lparr>pf_CarrierID := 4\<rparr>) = Some y \<or>
      PutPrefaceAck (replicate 40 0) sample_preface = Some x \<and>
      PutPrefaceAck (replicate 40 0) (sample_preface\<lparr>pf_CarrierID := 4\<rparr>) = Some y" by simp
  then show ?thesis using preface_fseq_separates_carriers [OF _ l] xy by blast
qed

text \<open>Claim C27: optional features are negotiated soundly. The answer \<open>EchoOpt\<close> builds is never
  rejected, names only bits that were offered and are implemented, and makes the carrier a MUX trunk
  exactly when the dialer offered that; an answer with the MUX bit for a preface without it is
  the error. A frame never looks like a preface.\<close>

theorem negotiation_sound:
  "MuxNegotiated sent (EchoOpt sent) = Inr (bit sent 0) \<and>
   EchoOpt sent AND NOT sent = 0 \<and> EchoOpt sent AND NOT KnownOptional = 0 \<and>
   (MuxNegotiated sent answered = Inl ErrMalformed \<longleftrightarrow> bit answered 0 \<and> \<not> bit sent 0) \<and>
   \<not> (IsPreface b \<and> DecodeFrame b = Inr (f, n))"
proof (intro conjI)
  have one: "x AND 1 \<noteq> 0 \<longleftrightarrow> bit x 0" for x :: u32
    by (simp add: bit_0 odd_iff_mod_2_eq_one and_one_eq)
  have "MuxNegotiated s a = (if bit a 0 \<and> \<not> bit s 0 then Inl ErrMalformed else Inr (bit s 0 \<and> bit a 0))" for s a
    using one [of s] one [of a] one [of "s AND a"] by (auto simp: MuxNegotiated_def bit_and_iff and.assoc)
  moreover have "bit (EchoOpt sent) 0 = bit sent 0" by (simp add: EchoOpt_def bit_simps)
  ultimately show "MuxNegotiated sent (EchoOpt sent) = Inr (bit sent 0)"
    "MuxNegotiated sent answered = Inl ErrMalformed \<longleftrightarrow> bit answered 0 \<and> \<not> bit sent 0"
    by auto
  have "(x AND k) AND NOT x = 0" "(x AND k) AND NOT k = 0" for x k :: u32
    by (rule bit_word_eqI; auto simp: bit_and_iff bit_not_iff)+
  then show "EchoOpt sent AND NOT sent = 0" "EchoOpt sent AND NOT KnownOptional = 0"
    unfolding EchoOpt_def by fast+
  show "\<not> (IsPreface b \<and> DecodeFrame b = Inr (f, n))"
  proof
    assume a: "IsPreface b \<and> DecodeFrame b = Inr (f, n)"
    then obtain h where "ParseHeader b = Inr h" by (auto simp: DecodeFrame_def split: sum.splits)
    moreover have "b ! 0 = 0x52" using a by (simp add: IsPreface_def)
    ultimately show False
      by (auto simp: ParseHeader_def Let_def Known_def Extension_def word_le_nat_alt split: if_splits)
  qed
qed

end
