(* ===== verification/Wire_Window.thy ===== *)
theory Wire_Window
  imports Wire_Dgram
begin

text \<open>
  \<open>internal/wire/window.go\<close>: the circular bitmaps that suppress duplicates. \<open>FseqWindow\<close> is the
  anti-replay window of a datagram-carrier direction over 32-bit serial numbers, \<open>SeqWindow\<close> the
  receive window of a packet session over 64-bit numbers. The bitmap operations work on 64-bit
  words as in the source; the lemmas relate them to the set of numbers accepted so far, on the
  numbers unwrapped to integers, and the locale \<open>dedup_window\<close> states the contract of both windows.
\<close>

section \<open>Ring bitmaps\<close>

datatype WindowVerdict = WindowNew | WindowDuplicate | WindowLate | WindowAhead

function clearRing :: "u64 list \<Rightarrow> u64 \<Rightarrow> u64 \<Rightarrow> u64 list" where
  "clearRing bits from n =
     (if n > 0
      then let off = from mod 64;
               k = min (64 - off) n;
               i = unat ((from div 64) AND of_nat (length bits - 1))
           in clearRing (bits[i := bits ! i AND NOT (push_bit (unat off) (drop_bit (unat (64 - k)) (NOT 0)))])
                (from + k) (n - k)
      else bits)"
  by pat_completeness auto
termination
proof (relation "measure (\<lambda>(bits, from, n). unat n)", goal_cases)
  case (2 bits "from" n off k i)
  have "off < 64" using 2(2) by (simp add: word_mod_less_divisor)
  then have "0 < 64 - off" by (simp add: word_less_nat_alt unat_sub_if_size word_le_nat_alt)
  then have "0 < k" "k \<le> n" using 2(1,3) by (auto simp: min_def)
  then have "n - k < n" using 2(1) by (simp add: word_less_nat_alt word_le_nat_alt unat_sub)
  then show ?case by (simp add: word_less_nat_alt)
qed simp

declare clearRing.simps [simp del]

definition setRing :: "u64 list \<Rightarrow> u64 \<Rightarrow> u64 list" where
  "setRing bits i =
     (let j = unat ((i div 64) AND of_nat (length bits - 1))
      in bits[j := bits ! j OR push_bit (unat (i mod 64)) 1])"

definition markRing :: "u64 list \<Rightarrow> u64 \<Rightarrow> WindowVerdict \<times> u64 list" where
  "markRing bits i =
     (let j = unat ((i div 64) AND of_nat (length bits - 1));
          m = push_bit (unat (i mod 64)) 1
      in if bits ! j AND m \<noteq> 0 then (WindowDuplicate, bits)
         else (WindowNew, bits[j := bits ! j OR m]))"

section \<open>The two windows\<close>

record FseqWindow =
  fw_top :: u32
  fw_bits :: "u64 list"

definition FseqWindow_Init :: "u32 \<Rightarrow> FseqWindow" where
  "FseqWindow_Init first = \<lparr>fw_top = first - 1, fw_bits = replicate (FseqWindowBits div 64) (NOT 0)\<rparr>"

definition FseqWindow_Accept :: "FseqWindow \<Rightarrow> u32 \<Rightarrow> WindowVerdict \<times> FseqWindow" where
  "FseqWindow_Accept w f =
     (let d = f - fw_top w
      in if 0 <s d
         then if unat d \<ge> FseqWindowBits then (WindowAhead, w)
              else let bits = clearRing (fw_bits w) (ucast (fw_top w) + 1) (ucast d)
                   in (WindowNew, w\<lparr>fw_top := f, fw_bits := setRing bits (ucast f)\<rparr>)
         else if unat (fw_top w - f) \<ge> FseqWindowBits then (WindowLate, w)
         else case markRing (fw_bits w) (ucast f) of (v, bits) \<Rightarrow> (v, w\<lparr>fw_bits := bits\<rparr>))"

definition FseqWindow_Jump :: "FseqWindow \<Rightarrow> u32 \<Rightarrow> FseqWindow" where
  "FseqWindow_Jump w f =
     \<lparr>fw_top = f, fw_bits = setRing (replicate (FseqWindowBits div 64) 0) (ucast f)\<rparr>"

definition minSeqWindowWords :: nat where [simp]: "minSeqWindowWords = 16"

record SeqWindow =
  sw_top :: u64
  sw_started :: bool
  sw_bits :: "u64 list"

definition SeqWindow_Init :: "u64 list \<Rightarrow> SeqWindow option" where
  "SeqWindow_Init storage =
     (let n = length storage
      in if n < minSeqWindowWords \<or> n AND (n - 1) \<noteq> 0 then None
         else Some \<lparr>sw_top = 0, sw_started = False, sw_bits = replicate n 0\<rparr>)"

definition SeqWindow_Accept :: "SeqWindow \<Rightarrow> u64 \<Rightarrow> WindowVerdict \<times> SeqWindow" where
  "SeqWindow_Accept w seq =
     (let width = of_nat (length (sw_bits w)) * 64;
          bits = sw_bits w;
          take = (\<lambda>b. (WindowNew, \<lparr>sw_top = seq, sw_started = True, sw_bits = setRing b seq\<rparr>))
      in if \<not> sw_started w then take bits
         else if seq > sw_top w
         then let d = seq - sw_top w
              in take (if d \<ge> width then replicate (length bits) 0 else clearRing bits (sw_top w + 1) d)
         else if sw_top w - seq \<ge> width then (WindowLate, w)
         else case markRing bits seq of (v, b) \<Rightarrow> (v, w\<lparr>sw_bits := b\<rparr>))"

section \<open>Bitmap lemmas\<close>

text \<open>Bit \<open>i\<close> of the ring, for a number \<open>i\<close> of any size.\<close>

definition ring :: "u64 list \<Rightarrow> nat \<Rightarrow> bool" where
  "ring bits i = bit (bits ! (i div 64 mod length bits)) (i mod 64)"

lemma unat_div64 [simp]: "unat ((x::u64) div 64) = unat x div 64"
  and unat_mod64 [simp]: "unat ((x::u64) mod 64) = unat x mod 64"
  by (simp_all add: unat_div unat_mod)

lemma ring_index:
  assumes "length bits = 2 ^ a" and "a < 64"
  shows "unat ((i div 64) AND of_nat (length bits - 1) :: u64) = unat i div 64 mod length bits"
proof -
  have "(of_nat (length bits - 1) :: u64) = mask a"
    using assms by (simp add: mask_eq_exp_minus_1 of_nat_diff)
  then have "(i div 64) AND of_nat (length bits - 1) = take_bit a (i div 64)"
    by (simp add: take_bit_eq_mask)
  moreover have "unat (take_bit a (i div 64)) = unat i div 64 mod 2 ^ a"
    by (subst unsigned_take_bit_eq) (simp only: take_bit_eq_mod unat_div64)
  ultimately show ?thesis using assms(1) by (simp only:)
qed

lemma index_less: "length bits = 2 ^ a \<Longrightarrow> i mod length bits < length bits"
  by simp

text \<open>Distance from slot \<open>f\<close> forward to slot \<open>i\<close> on a ring of \<open>w\<close> bits.\<close>

definition fwd :: "nat \<Rightarrow> nat \<Rightarrow> nat \<Rightarrow> nat" where
  "fwd w f i = nat ((int i - int f) mod int w)"

lemma fwd_cases:
  assumes "0 < w"
  shows "fwd w f i = (if f mod w \<le> i mod w then i mod w - f mod w else i mod w + w - f mod w)"
proof -
  define I F where I: "I = i mod w" and F: "F = f mod w"
  have "(int i - int f) mod int w = (int I - int F) mod int w"
    by (simp add: I F mod_diff_eq zmod_int)
  moreover have b: "I < w" "F < w" using assms by (simp_all add: I F)
  moreover have "(int I - int F) mod int w = int I - int F" if "F \<le> I"
    using that b by (intro mod_pos_pos_trivial) auto
  moreover have "(int I - int F) mod int w = int I - int F + int w" if "\<not> F \<le> I"
    using that b by (subst mod_add_self2 [symmetric], subst mod_pos_pos_trivial) auto
  ultimately show ?thesis unfolding fwd_def I [symmetric] F [symmetric] by (auto simp: of_nat_diff)
qed

lemma fwd_add:
  assumes "0 < w" and "k \<le> n" and "n \<le> w"
  shows "fwd w f i < n \<longleftrightarrow> fwd w f i < k \<or> fwd w (f + k) i < n - k"
proof -
  define d where d: "d = (int i - int f) mod int w"
  have b: "0 \<le> d" "d < int w" using assms by (simp_all add: d)
  have e: "(int i - int (f + k)) mod int w = (d - int k) mod int w"
    by (simp add: d mod_diff_left_eq algebra_simps)
  have "(d - int k) mod int w = d - int k" if "\<not> d < int k"
    using that b by (intro mod_pos_pos_trivial) auto
  then show ?thesis
    unfolding fwd_def e d [symmetric] using b assms by (cases "d < int k") auto
qed

lemma fwd_0:
  assumes "0 < w"
  shows "fwd w f i = 0 \<longleftrightarrow> i mod w = f mod w"
proof -
  have "f mod w < w" using assms by simp
  then show ?thesis unfolding fwd_cases [OF assms] by auto
qed

text \<open>One word of the ring: the slots at distance less than \<open>k\<close> from \<open>f\<close>, up to the end of the
  word of \<open>f\<close>, are the bits from \<open>f mod 64\<close> on.\<close>

lemma fwd_word:
  assumes "0 < l" and "f mod 64 + k \<le> 64"
  shows "fwd (64 * l) f i < k \<longleftrightarrow>
    i div 64 mod l = f div 64 mod l \<and> f mod 64 \<le> i mod 64 \<and> i mod 64 < f mod 64 + k"
proof -
  have q: "(x mod (64 * l)) div 64 = x div 64 mod l" "(x mod (64 * l)) mod 64 = x mod 64" for x
    by (simp_all add: mod_mult2_eq)
  obtain qi ri where i: "i mod (64 * l) = 64 * qi + ri" "ri = i mod 64" "qi = i div 64 mod l" "ri < 64"
    using q [of i] by (metis div_mult_mod_eq mult.commute mod_less_divisor zero_less_numeral)
  obtain qf rf where f: "f mod (64 * l) = 64 * qf + rf" "rf = f mod 64" "qf = f div 64 mod l" "rf < 64"
    using q [of f] by (metis div_mult_mod_eq mult.commute mod_less_divisor zero_less_numeral)
  have "qi < l" "qf < l" using assms i f by auto
  then have ql: "64 * qi + 64 \<le> 64 * l" "64 * qf + 64 \<le> 64 * l" by auto
  have eq: "fwd (64 * l) f i = (if 64 * qf + rf \<le> 64 * qi + ri then 64 * qi + ri - (64 * qf + rf)
      else 64 * qi + ri + 64 * l - (64 * qf + rf))"
    using assms(1) fwd_cases [of "64 * l" f i] by (simp only: i(1) f(1))
  have "fwd (64 * l) f i < k \<longleftrightarrow> qi = qf \<and> rf \<le> ri \<and> ri < rf + k"
  proof (cases qi qf rule: linorder_cases)
    case less
    then have "64 * qi + 64 \<le> 64 * qf" by simp
    then show ?thesis using less ql i(4) f(2,4) assms(2) unfolding eq by simp
  next
    case greater
    then have "64 * qf + 64 \<le> 64 * qi" by simp
    then show ?thesis using greater ql i(4) f(2,4) assms(2) unfolding eq by simp
  next
    case equal
    then show ?thesis using ql i(4) f(2,4) assms(2) unfolding eq by auto
  qed
  then show ?thesis using i f by simp
qed

definition ring_ok :: "u64 list \<Rightarrow> bool" where
  "ring_ok bits \<longleftrightarrow> (\<exists>a<58. length bits = 2 ^ a)"

lemma ring_okD: "ring_ok bits \<Longrightarrow> 0 < length bits"
  by (auto simp: ring_ok_def)

lemma ring_okE: "ring_ok bits \<Longrightarrow> (\<And>a. a < 58 \<Longrightarrow> length bits = 2 ^ a \<Longrightarrow> P) \<Longrightarrow> P"
  by (auto simp: ring_ok_def)

lemma ring_ok_index:
  "ring_ok bits \<Longrightarrow> unat ((i div 64) AND of_nat (length bits - 1) :: u64) = unat i div 64 mod length bits"
  by (elim ring_okE, rule ring_index) auto

lemmas ring_ok_index_Suc = ring_ok_index [unfolded One_nat_def]

lemma bit_word_mask:
  assumes "off + k \<le> 64" and "1 \<le> k" and "j < 64"
  shows "bit (push_bit off (drop_bit (64 - k) (NOT 0)) :: u64) j \<longleftrightarrow> off \<le> j \<and> j < off + k"
  using assms by (auto simp: bit_simps)

lemma clearRing_ring:
  assumes "ring_ok bits" and "unat n \<le> 64 * length bits"
  shows "ring_ok (clearRing bits from n) \<and> length (clearRing bits from n) = length bits \<and>
    (ring (clearRing bits from n) i \<longleftrightarrow> ring bits i \<and> \<not> fwd (64 * length bits) (unat from) i < unat n)"
  using assms
proof (induction bits "from" n rule: clearRing.induct)
  case (1 bits "from" n)
  show ?case
  proof (cases "n > 0")
    case False
    then have "n = 0" by (simp add: word_gt_0)
    then show ?thesis using 1 by (subst (1 2 3) clearRing.simps) simp
  next
    case True
    define off k ix where off: "off = from mod 64" and k: "k = min (64 - off) n"
      and ix: "ix = unat ((from div 64) AND of_nat (length bits - 1))"
    define m :: u64 where m: "m = push_bit (unat off) (drop_bit (unat (64 - k)) (NOT 0))"
    have o: "unat off < 64" "unat off = unat from mod 64" by (simp_all add: off)
    then have "off \<le> 64" by (simp add: word_le_nat_alt)
    then have u: "unat (64 - off) = 64 - unat off" by (simp add: unat_sub)
    then have uk: "unat k = min (64 - unat off) (unat n)"
      by (simp add: k min_def word_le_nat_alt)
    have n0: "0 < unat n" using True by (simp add: word_less_nat_alt)
    have kb: "1 \<le> unat k" "unat off + unat k \<le> 64" "unat k \<le> unat n" using uk o n0 by auto
    have "k \<le> 64" "k \<le> n" using kb by (simp_all add: word_le_nat_alt)
    then have u2: "unat (64 - k) = 64 - unat k" "unat (n - k) = unat n - unat k"
      by (simp_all add: unat_sub)
    have ixe: "ix = unat from div 64 mod length bits" using 1(2) by (simp add: ix ring_ok_index_Suc)
    let ?b = "bits[ix := bits ! ix AND NOT m]"
    have l0: "0 < length bits" using 1(2) by (rule ring_okD)
    have mb: "bit m j \<longleftrightarrow> unat from mod 64 \<le> j \<and> j < unat from mod 64 + unat k" if "j < 64" for j
      unfolding m u2(1) using kb o(2) that by (subst bit_word_mask) auto
    have b: "ring ?b i \<longleftrightarrow> ring bits i \<and> \<not> fwd (64 * length bits) (unat from) i < unat k"
    proof -
      have "ring ?b i \<longleftrightarrow> ring bits i \<and>
          \<not> (i div 64 mod length bits = unat from div 64 mod length bits \<and> bit m (i mod 64))"
        using l0 by (auto simp: ixe ring_def bit_and_iff bit_not_iff nth_list_update)
      then show ?thesis using l0 kb o by (simp add: fwd_word mb)
    qed
    have rec: "clearRing bits from n = clearRing ?b (from + k) (n - k)"
      using True by (subst clearRing.simps) (simp add: Let_def off k ix m)
    have IH: "ring_ok (clearRing ?b (from + k) (n - k)) \<and>
        length (clearRing ?b (from + k) (n - k)) = length bits \<and>
        (ring (clearRing ?b (from + k) (n - k)) i \<longleftrightarrow>
           ring ?b i \<and> \<not> fwd (64 * length bits) (unat (from + k)) i < unat (n - k))"
      using 1(1) [OF True off k ix] 1(2,3) by (simp add: m u2 ring_ok_def)
    have f: "fwd (64 * length bits) (unat (from + k)) i = fwd (64 * length bits) (unat from + unat k) i"
    proof -
      obtain a where a: "a < 58" "length bits = 2 ^ a" using 1(2) by (auto simp: ring_ok_def)
      have "int (unat (from + k)) mod 2 ^ (6 + a) = (int (unat from + unat k)) mod 2 ^ (6 + a)"
      proof -
        have "int (unat (from + k)) = (int (unat from + unat k)) mod 2 ^ 64"
          by (simp add: unat_word_ariths zmod_int)
        moreover have "(2::int) ^ (6 + a) dvd 2 ^ 64" using a by (intro le_imp_power_dvd) simp
        ultimately show ?thesis by (simp add: mod_mod_cancel)
      qed
      moreover have "int (64 * length bits) = 2 ^ (6 + a)" using a by (simp add: power_add)
      ultimately show ?thesis unfolding fwd_def by (metis mod_diff_right_eq)
    qed
    have "fwd (64 * length bits) (unat from) i < unat n \<longleftrightarrow>
        fwd (64 * length bits) (unat from) i < unat k \<or>
        fwd (64 * length bits) (unat from + unat k) i < unat n - unat k"
      using l0 kb 1(3) by (intro fwd_add) auto
    then show ?thesis using IH b f u2 unfolding rec by auto
  qed
qed

lemma setRing_ring:
  assumes "ring_ok bits"
  shows "ring_ok (setRing bits f)" "length (setRing bits f) = length bits"
    "ring (setRing bits f) i \<longleftrightarrow> ring bits i \<or> i mod (64 * length bits) = unat f mod (64 * length bits)"
proof -
  have "i mod (64 * length bits) = unat f mod (64 * length bits) \<longleftrightarrow>
      i div 64 mod length bits = unat f div 64 mod length bits \<and> i mod 64 = unat f mod 64"
    using fwd_0 [of "64 * length bits" "unat f" i] fwd_word [of "length bits" "unat f" 1 i] ring_okD [OF assms]
    by auto
  then show "ring (setRing bits f) i \<longleftrightarrow> ring bits i \<or> i mod (64 * length bits) = unat f mod (64 * length bits)"
    using ring_okD [OF assms] mod_less_divisor [of 64 i]
    by (simp add: setRing_def ring_def ring_ok_index_Suc assms Let_def bit_or_iff bit_exp_iff nth_list_update)
qed (use assms in \<open>simp_all add: setRing_def Let_def ring_ok_def\<close>)

lemma markRing_ring:
  assumes "ring_ok bits"
  shows "markRing bits f =
    (if ring bits (unat f) then (WindowDuplicate, bits) else (WindowNew, setRing bits f))"
proof -
  have "(x :: u64) AND push_bit n 1 \<noteq> 0 \<longleftrightarrow> bit x n" if "n < 64" for x n
    using that by (intro and_push_bit_1) simp
  then show ?thesis by (simp add: markRing_def setRing_def ring_def ring_ok_index_Suc assms Let_def)
qed

section \<open>The window contract\<close>

text \<open>The bit of the unwrapped number \<open>x\<close>, and what a bitmap means: \<open>S\<close> are the numbers accepted
  so far, \<open>T\<close> the newest, and the bits of the last \<open>64 * length bits\<close> numbers record \<open>S\<close>.\<close>

definition ringi :: "u64 list \<Rightarrow> int \<Rightarrow> bool" where
  "ringi bits x = ring bits (nat (x mod int (64 * length bits)))"

definition win :: "u64 list \<Rightarrow> int \<Rightarrow> int set \<Rightarrow> bool" where
  "win bits T S \<longleftrightarrow> ring_ok bits \<and> (\<forall>x\<in>S. x \<le> T) \<and>
     (\<forall>x. T - int (64 * length bits) < x \<and> x \<le> T \<longrightarrow> (ringi bits x \<longleftrightarrow> x \<in> S))"

lemma ringi_clear:
  assumes "ring_ok bits" and "unat n \<le> 64 * length bits"
    and "int (unat from) mod int (64 * length bits) = F mod int (64 * length bits)"
  shows "ringi (clearRing bits from n) x \<longleftrightarrow>
    ringi bits x \<and> \<not> (x - F) mod int (64 * length bits) < int (unat n)"
proof -
  let ?w = "int (64 * length bits)"
  have w: "0 < ?w" using ring_okD [OF assms(1)] by simp
  have "(int (nat (x mod ?w)) - int (unat from)) mod ?w = (x mod ?w - F mod ?w) mod ?w"
    using w assms(3) by (simp add: mod_diff_right_eq) (metis mod_diff_right_eq)
  also have "\<dots> = (x - F) mod ?w" by (rule mod_diff_eq)
  finally have "fwd (64 * length bits) (unat from) (nat (x mod ?w)) = nat ((x - F) mod ?w)"
    by (simp only: fwd_def)
  then show ?thesis
    using clearRing_ring [OF assms(1,2)] w by (simp add: ringi_def nat_less_iff)
qed

lemma ringi_set:
  assumes "ring_ok bits" and "int (unat f) mod int (64 * length bits) = F mod int (64 * length bits)"
  shows "ringi (setRing bits f) x \<longleftrightarrow> ringi bits x \<or> (x - F) mod int (64 * length bits) = 0"
proof -
  let ?w = "int (64 * length bits)"
  have w: "0 < ?w" using ring_okD [OF assms(1)] by simp
  have "nat (x mod ?w) mod (64 * length bits) = unat f mod (64 * length bits) \<longleftrightarrow>
      int (nat (x mod ?w) mod (64 * length bits)) = int (unat f mod (64 * length bits))" by linarith
  also have "\<dots> \<longleftrightarrow> x mod ?w = F mod ?w" using w assms(2) by (simp add: zmod_int)
  also have "\<dots> \<longleftrightarrow> (x - F) mod ?w = 0" by (simp add: mod_eq_dvd_iff dvd_eq_mod_eq_0)
  finally show ?thesis using setRing_ring [OF assms(1)] by (simp add: ringi_def)
qed

lemma mod_small:
  assumes "(0::int) < w"
  shows "0 \<le> y \<Longrightarrow> y < w \<Longrightarrow> y mod w = y" and "- w \<le> y \<Longrightarrow> y < 0 \<Longrightarrow> y mod w = y + w"
    and "- w < y \<Longrightarrow> y < w \<Longrightarrow> y mod w = 0 \<longleftrightarrow> y = 0"
proof -
  show a: "0 \<le> y \<Longrightarrow> y < w \<Longrightarrow> y mod w = y" by simp
  show b: "- w \<le> y \<Longrightarrow> y < 0 \<Longrightarrow> y mod w = y + w"
    using assms mod_pos_pos_trivial [of "y + w" w] by simp
  show "- w < y \<Longrightarrow> y < w \<Longrightarrow> y mod w = 0 \<longleftrightarrow> y = 0"
    using a b by (cases "0 \<le> y") auto
qed

lemma win_advance:
  assumes "win bits T S" and "0 < d" and "d < int (64 * length bits)" and "int (unat n) = d"
    and "int (unat from) mod int (64 * length bits) = (T + 1) mod int (64 * length bits)"
    and "int (unat f) mod int (64 * length bits) = (T + d) mod int (64 * length bits)"
  shows "win (setRing (clearRing bits from n) f) (T + d) (insert (T + d) S)"
proof -
  let ?w = "int (64 * length bits)"
  have r: "ring_ok bits" and S: "\<And>x. x \<in> S \<Longrightarrow> x \<le> T"
    and b: "\<And>x. T - ?w < x \<Longrightarrow> x \<le> T \<Longrightarrow> ringi bits x \<longleftrightarrow> x \<in> S"
    using assms(1) by (auto simp: win_def)
  have w: "0 < ?w" using ring_okD [OF r] by simp
  have n: "unat n \<le> 64 * length bits" using assms(3,4) by linarith
  note c = clearRing_ring [OF r n, of "from"]
  let ?b = "setRing (clearRing bits from n) f"
  have l: "ring_ok ?b" "length ?b = length bits" using c setRing_ring by auto
  have "ringi ?b x \<longleftrightarrow> x \<in> insert (T + d) S" if x: "T + d - ?w < x" "x \<le> T + d" for x
  proof -
    have s: "ringi ?b x \<longleftrightarrow> (ringi bits x \<and> \<not> (x - (T + 1)) mod ?w < d) \<or> (x - (T + d)) mod ?w = 0"
      using c ringi_set [of "clearRing bits from n" f "T + d" x] ringi_clear [OF r n assms(5)] assms(4,6)
      by simp
    have e: "(x - (T + d)) mod ?w = 0 \<longleftrightarrow> x = T + d"
      using mod_small(3) [OF w, of "x - (T + d)"] x assms(2) by auto
    show ?thesis
    proof (cases "x \<le> T")
      case True
      then have "(x - (T + 1)) mod ?w = x - (T + 1) + ?w"
        using x assms(2) by (intro mod_small(2) [OF w]) auto
      then show ?thesis using s e b [of x] True x assms(2) by auto
    next
      case False
      then have "(x - (T + 1)) mod ?w = x - (T + 1)"
        using x assms(3) by (intro mod_small(1) [OF w]) auto
      then show ?thesis using s e S [of x] False x by auto
    qed
  qed
  then show ?thesis using l S assms(2) by (fastforce simp: win_def)
qed

lemma ring_zero: "ring_ok (replicate k 0) \<Longrightarrow> \<not> ring (replicate k 0) i"
  using ring_okD [of "replicate k 0"] by (simp add: ring_def)

lemma win_jump:
  assumes "ring_ok (replicate k 0)" and "\<forall>x\<in>S. x \<le> T - int (64 * k)"
    and "int (unat f) mod int (64 * k) = T mod int (64 * k)"
  shows "win (setRing (replicate k 0) f) T (insert T S)"
proof -
  let ?w = "int (64 * k)"
  have w: "0 < ?w" using ring_okD [OF assms(1)] by simp
  have "ringi (setRing (replicate k 0) f) x \<longleftrightarrow> (x - T) mod ?w = 0" for x
    using ringi_set [OF assms(1), of f T x] assms(3) ring_zero [OF assms(1)] by (simp add: ringi_def)
  then have "ringi (setRing (replicate k 0) f) x \<longleftrightarrow> x = T" if "T - ?w < x" "x \<le> T" for x
    using that mod_small(3) [OF w, of "x - T"] w by auto
  moreover have "\<forall>x\<in>S. x \<le> T" using assms(2) w by auto
  ultimately show ?thesis
    using assms(2) setRing_ring [OF assms(1)] by (fastforce simp: win_def)
qed

lemma win_mark:
  assumes "win bits T S" and "T - int (64 * length bits) < x" and "x \<le> T"
    and "int (unat f) mod int (64 * length bits) = x mod int (64 * length bits)"
  shows "markRing bits f = (if x \<in> S then (WindowDuplicate, bits) else (WindowNew, setRing bits f))"
    and "win (setRing bits f) T (insert x S)"
proof -
  let ?w = "int (64 * length bits)"
  have r: "ring_ok bits" and b: "\<And>x. T - ?w < x \<Longrightarrow> x \<le> T \<Longrightarrow> ringi bits x \<longleftrightarrow> x \<in> S"
    using assms(1) by (auto simp: win_def)
  have w: "0 < ?w" using ring_okD [OF r] by simp
  have "ring bits (unat f) = ring bits (unat f mod (64 * length bits))"
    by (simp add: ring_def mod_mult2_eq)
  also have "unat f mod (64 * length bits) = nat (x mod ?w)"
    unfolding assms(4) [symmetric] zmod_int [symmetric] by simp
  finally have "ring bits (unat f) \<longleftrightarrow> x \<in> S" using b [OF assms(2,3)] by (simp add: ringi_def)
  then show "markRing bits f = (if x \<in> S then (WindowDuplicate, bits) else (WindowNew, setRing bits f))"
    by (simp add: markRing_ring [OF r])
  have "ringi (setRing bits f) y \<longleftrightarrow> y \<in> insert x S" if "T - ?w < y" "y \<le> T" for y
    using that ringi_set [OF r assms(4), of y] b [of y] mod_small(3) [OF w, of "y - x"] assms(2,3) by auto
  then show "win (setRing bits f) T (insert x S)"
    using assms setRing_ring [OF r] by (auto simp: win_def)
qed

text \<open>\<open>repr w T S\<close> says that window \<open>w\<close> has accepted exactly the unwrapped numbers \<open>S\<close>, the newest
  being \<open>T\<close>; \<open>num T n\<close> is the unwrapped number that an offered \<open>n\<close> stands for.\<close>

locale dedup_window =
  fixes offer :: "'w \<Rightarrow> 'n \<Rightarrow> WindowVerdict \<times> 'w"
    and num :: "int \<Rightarrow> 'n \<Rightarrow> int"
    and repr :: "'w \<Rightarrow> int \<Rightarrow> int set \<Rightarrow> bool"
    and width :: "'w \<Rightarrow> int"
  assumes offer_new: "repr w T S \<Longrightarrow> offer w n = (WindowNew, w') \<Longrightarrow>
      num T n \<notin> S \<and> T - width w < num T n \<and> width w' = width w \<and>
      repr w' (max T (num T n)) (insert (num T n) S)"
    and offer_other: "repr w T S \<Longrightarrow> offer w n = (v, w') \<Longrightarrow> v \<noteq> WindowNew \<Longrightarrow> w' = w"
    and offer_in_window: "repr w T S \<Longrightarrow> T - width w < num T n \<Longrightarrow> num T n \<le> T \<Longrightarrow>
      fst (offer w n) = (if num T n \<in> S then WindowDuplicate else WindowNew)"
    and offer_late: "repr w T S \<Longrightarrow> num T n \<le> T - width w \<Longrightarrow> fst (offer w n) = WindowLate"

text \<open>Offering a sequence of numbers: the verdicts with the final window, and the unwrapped numbers
  that were accepted, oldest first.\<close>

primrec offers :: "('w \<Rightarrow> 'n \<Rightarrow> WindowVerdict \<times> 'w) \<Rightarrow> 'w \<Rightarrow> 'n list \<Rightarrow> WindowVerdict list \<times> 'w" where
  "offers ofr w [] = ([], w)"
| "offers ofr w (n # ns) =
     (case ofr w n of (v, w') \<Rightarrow> case offers ofr w' ns of (vs, w'') \<Rightarrow> (v # vs, w''))"

primrec accepted ::
    "('w \<Rightarrow> 'n \<Rightarrow> WindowVerdict \<times> 'w) \<Rightarrow> (int \<Rightarrow> 'n \<Rightarrow> int) \<Rightarrow> 'w \<Rightarrow> int \<Rightarrow> 'n list \<Rightarrow> int list" where
  "accepted ofr num w T [] = []"
| "accepted ofr num w T (n # ns) =
     (case ofr w n of (v, w') \<Rightarrow>
        if v = WindowNew then num T n # accepted ofr num w' (max T (num T n)) ns
        else accepted ofr num w' T ns)"

context dedup_window
begin

lemma accepted_fresh:
  "repr w T S \<Longrightarrow> distinct (accepted offer num w T ns) \<and> set (accepted offer num w T ns) \<inter> S = {}"
proof (induction ns arbitrary: w T S)
  case (Cons n ns)
  obtain v w' where o: "offer w n = (v, w')" by fastforce
  show ?case
  proof (cases "v = WindowNew")
    case True
    then have "num T n \<notin> S" "repr w' (max T (num T n)) (insert (num T n) S)"
      using offer_new [OF Cons.prems] o by auto
    then show ?thesis using Cons.IH o True by fastforce
  next
    case False
    then have "w' = w" using offer_other [OF Cons.prems o] by simp
    then show ?thesis using Cons o False by simp
  qed
qed simp

end

section \<open>SeqWindow meets the contract\<close>

definition seq_repr :: "SeqWindow \<Rightarrow> int \<Rightarrow> int set \<Rightarrow> bool" where
  "seq_repr w T S \<longleftrightarrow> win (sw_bits w) T S \<and>
     (if sw_started w then T = uint (sw_top w)
      else T = - 1 \<and> S = {} \<and> (\<exists>k. sw_bits w = replicate k 0))"

abbreviation seq_width :: "SeqWindow \<Rightarrow> int" where
  "seq_width w \<equiv> int (64 * length (sw_bits w))"

lemma seq_width_word:
  assumes "ring_ok bits"
  shows "of_nat (length bits) * 64 = (word_of_int (int (64 * length bits)) :: u64)"
    and "unat (of_nat (length bits) * 64 :: u64) = 64 * length bits"
proof -
  show "of_nat (length bits) * 64 = (word_of_int (int (64 * length bits)) :: u64)" by simp
  obtain a where a: "a < 58" "length bits = 2 ^ a" using assms by (auto elim: ring_okE)
  have "(2::nat) ^ a < 2 ^ 58" using a(1) by (rule power_strict_increasing) simp
  then have "64 * length bits < 2 ^ 64" using a by simp
  then show "unat (of_nat (length bits) * 64 :: u64) = 64 * length bits"
    using unat_of_nat [where 'a = 64, of "64 * length bits"] by (simp add: mult.commute)
qed

lemma SeqWindow_Accept_spec:
  assumes "seq_repr w T S"
  shows "fst (SeqWindow_Accept w seq) =
    (if uint seq \<le> T - seq_width w then WindowLate
     else if uint seq \<in> S then WindowDuplicate else WindowNew) \<and>
   (fst (SeqWindow_Accept w seq) = WindowNew \<or> snd (SeqWindow_Accept w seq) = w) \<and>
   (uint seq \<notin> S \<and> T - seq_width w < uint seq \<longrightarrow>
     seq_width (snd (SeqWindow_Accept w seq)) = seq_width w \<and>
     seq_repr (snd (SeqWindow_Accept w seq)) (max T (uint seq)) (insert (uint seq) S))"
proof -
  let ?b = "sw_bits w" and ?x = "uint seq"
  let ?w = "int (64 * length (sw_bits w))"
  have W: "win ?b T S" using assms by (simp add: seq_repr_def)
  then have r: "ring_ok ?b" and S: "\<And>x. x \<in> S \<Longrightarrow> x \<le> T" by (auto simp: win_def)
  have w0: "0 < ?w" using ring_okD [OF r] by simp
  note uw = seq_width_word(2) [OF r]
  consider (first) "\<not> sw_started w" | (adv) "sw_started w" "seq > sw_top w"
    | (late) "sw_started w" "seq \<le> sw_top w" "64 * length ?b \<le> unat (sw_top w - seq)"
    | (mark) "sw_started w" "seq \<le> sw_top w" "unat (sw_top w - seq) < 64 * length ?b" by fastforce
  then show ?thesis
  proof cases
    case first
    then obtain k where T: "T = - 1" "S = {}" "?b = replicate k 0" using assms by (auto simp: seq_repr_def)
    have "win (setRing (replicate k 0) seq) ?x (insert ?x {})"
      using r T by (intro win_jump) auto
    moreover have "0 \<le> ?x" by simp
    then have "\<not> ?x \<le> - 1 - 64 * int k" "max (- 1) ?x = ?x" by linarith+
    ultimately show ?thesis using first T setRing_ring [OF r]
      by (simp add: SeqWindow_Accept_def seq_repr_def Let_def)
  next
    case adv
    then have T: "T = uint (sw_top w)" using assms by (simp add: seq_repr_def)
    have lt: "T < ?x" using adv T by (simp add: word_less_def)
    then have nS: "?x \<notin> S" using S by fastforce
    have d: "unat (seq - sw_top w) = unat seq - unat (sw_top w)"
      using adv by (simp add: unat_sub less_imp_le)
    have dd: "int (unat (seq - sw_top w)) = ?x - T"
      using adv d T by (simp add: word_less_nat_alt of_nat_diff)
    have f1: "int (unat (sw_top w + 1)) = T + 1"
    proof -
      have "unat (sw_top w) + 1 \<le> unat seq" using adv by (simp add: word_less_nat_alt)
      moreover have "unat seq < 2 ^ 64" using unsigned_less [where 'a = nat, of seq] by simp
      ultimately show ?thesis using T by (simp add: unat_word_ariths)
    qed
    let ?c = "if seq - sw_top w \<ge> of_nat (length ?b) * 64 then replicate (length ?b) 0
              else clearRing ?b (sw_top w + 1) (seq - sw_top w)"
    have A: "SeqWindow_Accept w seq =
        (WindowNew, \<lparr>sw_top = seq, sw_started = True, sw_bits = setRing ?c seq\<rparr>)"
      using adv by (simp add: SeqWindow_Accept_def Let_def)
    have "win (setRing ?c seq) ?x (insert ?x S) \<and> length (setRing ?c seq) = length ?b"
    proof (cases "seq - sw_top w \<ge> of_nat (length ?b) * 64")
      case True
      then have "64 * length ?b \<le> unat (seq - sw_top w)" by (simp add: word_le_nat_alt uw)
      then have "?w \<le> ?x - T" unfolding dd [symmetric] by (rule of_nat_mono)
      moreover have rr: "ring_ok (replicate (length ?b) 0)" using r by (simp add: ring_ok_def)
      ultimately have "win (setRing (replicate (length ?b) 0) seq) ?x (insert ?x S)"
        using S by (intro win_jump) fastforce+
      then show ?thesis using True setRing_ring [OF rr] by simp
    next
      case False
      then have "unat (seq - sw_top w) < 64 * length ?b" by (simp add: word_le_nat_alt uw)
      then have "?x - T < ?w" unfolding dd [symmetric] by (rule of_nat_less_iff [THEN iffD2])
      then have "win (setRing (clearRing ?b (sw_top w + 1) (seq - sw_top w)) seq) (T + (?x - T)) (insert (T + (?x - T)) S)"
        using W lt dd f1 by (intro win_advance) auto
      moreover have "unat (seq - sw_top w) \<le> 64 * length ?b" using False uw by (simp add: word_le_nat_alt)
      ultimately show ?thesis using False clearRing_ring [OF r] setRing_ring by simp
    qed
    then show ?thesis using A lt nS w0 by (simp add: seq_repr_def)
  next
    case late
    then have T: "T = uint (sw_top w)" using assms by (simp add: seq_repr_def)
    have "unat (sw_top w - seq) = unat (sw_top w) - unat seq" using late by (simp add: unat_sub)
    then have "unat seq + 64 * length ?b \<le> unat (sw_top w)"
      using late(2,3) unfolding word_le_nat_alt by linarith
    then have "int (unat seq + 64 * length ?b) \<le> int (unat (sw_top w))" by (rule of_nat_mono)
    then have "?w \<le> T - ?x" using T by simp
    moreover have "of_nat (length ?b) * 64 \<le> sw_top w - seq" "\<not> sw_top w < seq"
      using late uw by (simp_all add: word_le_nat_alt not_less)
    ultimately show ?thesis using late by (simp add: SeqWindow_Accept_def Let_def)
  next
    case mark
    then have T: "T = uint (sw_top w)" using assms by (simp add: seq_repr_def)
    have "unat (sw_top w - seq) = unat (sw_top w) - unat seq" using mark by (simp add: unat_sub)
    then have "unat (sw_top w) < unat seq + 64 * length ?b"
      using mark(2,3) unfolding word_le_nat_alt by linarith
    then have "int (unat (sw_top w)) < int (unat seq + 64 * length ?b)" by (rule of_nat_less_iff [THEN iffD2])
    then have x: "T - ?w < ?x" "?x \<le> T" using T mark(2) by (simp_all add: word_le_def)
    moreover have "\<not> of_nat (length ?b) * 64 \<le> sw_top w - seq" "\<not> sw_top w < seq"
      using mark uw by (simp_all add: word_le_nat_alt not_less not_le)
    moreover note m = win_mark [OF W x, of seq]
    ultimately show ?thesis using mark setRing_ring [OF r] T
      by (auto simp: SeqWindow_Accept_def Let_def seq_repr_def max_def)
  qed
qed

interpretation seqw: dedup_window SeqWindow_Accept "\<lambda>T n. uint n" seq_repr seq_width
proof (standard, goal_cases)
  case (1 w T S n w')
  then show ?case using SeqWindow_Accept_spec [OF 1(1), of n] by (auto split: if_splits)
next
  case (2 w T S n v w')
  then show ?case using SeqWindow_Accept_spec [OF 2(1), of n] by (auto split: if_splits)
next
  case (3 w T S n)
  then show ?case using SeqWindow_Accept_spec [OF 3(1), of n] by (auto split: if_splits)
next
  case (4 w T S n)
  then show ?case using SeqWindow_Accept_spec [OF 4(1), of n] by (auto split: if_splits)
qed

section \<open>FseqWindow meets the contract\<close>

text \<open>The unwrapped number of a 32-bit serial number relative to the newest one, and the offer of a
  frame whose datagram the caller has or has not proved to come from this direction's sender: an
  ahead frame moves the window only with that proof.\<close>

definition fseq_num :: "int \<Rightarrow> u32 \<times> bool \<Rightarrow> int" where
  "fseq_num T = (\<lambda>(f, proven). T + sint (f - word_of_int T))"

definition fseq_offer :: "FseqWindow \<Rightarrow> u32 \<times> bool \<Rightarrow> WindowVerdict \<times> FseqWindow" where
  "fseq_offer w = (\<lambda>(f, proven).
     case FseqWindow_Accept w f of (v, w') \<Rightarrow>
       if v = WindowAhead \<and> proven then (WindowNew, FseqWindow_Jump w' f) else (v, w'))"

definition fseq_repr :: "FseqWindow \<Rightarrow> int \<Rightarrow> int set \<Rightarrow> bool" where
  "fseq_repr w T S \<longleftrightarrow> win (fw_bits w) T S \<and> length (fw_bits w) = 128 \<and> fw_top w = word_of_int T"

lemma unat_ucast64: "unat (ucast (f::u32) :: u64) = unat f"
  using unsigned_less [where 'a = nat, of f] by (simp add: unsigned_ucast_eq take_bit_eq_mod)

lemma fseq_serial:
  fixes f :: u32
  assumes "s = sint (f - word_of_int T)"
  shows "uint f = (T + s) mod 2 ^ 32" and "f = word_of_int (T + s)"
    and "0 <s (f - word_of_int T) \<longleftrightarrow> 0 < s"
    and "0 < s \<Longrightarrow> int (unat (f - word_of_int T)) = s"
    and "s \<le> 0 \<Longrightarrow> int (unat (word_of_int T - f)) = - s"
    and "int (unat (ucast f :: u64)) mod 8192 = (T + s) mod 8192"
proof -
  have d: "f - word_of_int T = word_of_int s" using assms by simp
  have b: "- (2 ^ 31) \<le> s" "s < 2 ^ 31"
    using sint_greater_eq [of "f - word_of_int T"] sint_less [of "f - word_of_int T"] assms by simp_all
  have "f = word_of_int T + (f - word_of_int T)" by simp
  also have "\<dots> = word_of_int (T + s)" unfolding d by simp
  finally show f: "f = word_of_int (T + s)" .
  then have "uint f = uint (word_of_int (T + s) :: u32)" by (simp only:)
  then show u: "uint f = (T + s) mod 2 ^ 32" by (simp only: uint_word_of_int) simp
  show "0 <s (f - word_of_int T) \<longleftrightarrow> 0 < s" using assms by (simp add: word_sless_alt)
  show "int (unat (f - word_of_int T)) = s" if "0 < s"
    unfolding d using that b by (simp add: uint_word_of_int)
  have e: "word_of_int T - f = word_of_int (- s)" unfolding f by simp
  show "int (unat (word_of_int T - f)) = - s" if "s \<le> 0"
    unfolding e using that b by (simp add: uint_word_of_int del: of_int_minus)
  have "int (unat (ucast f :: u64)) = uint f" by (simp add: unat_ucast64)
  then show "int (unat (ucast f :: u64)) mod 8192 = (T + s) mod 8192"
    using u by (simp add: mod_mod_cancel)
qed


lemma FseqWindow_Accept_spec:
  assumes "fseq_repr w T S" and x: "x = fseq_num T (f, b)"
  shows "fst (FseqWindow_Accept w f) =
    (if T + 8192 \<le> x then WindowAhead else if x \<le> T - 8192 then WindowLate
     else if x \<in> S then WindowDuplicate else WindowNew) \<and>
   (fst (FseqWindow_Accept w f) = WindowNew \<or> snd (FseqWindow_Accept w f) = w) \<and>
   (x \<notin> S \<and> T - 8192 < x \<and> x < T + 8192 \<longrightarrow>
     fseq_repr (snd (FseqWindow_Accept w f)) (max T x) (insert x S)) \<and>
   (T + 8192 \<le> x \<longrightarrow> x \<notin> S \<and> fseq_repr (FseqWindow_Jump w f) x (insert x S))"
proof -
  have W: "win (fw_bits w) T S" and l: "length (fw_bits w) = 128" and top: "fw_top w = word_of_int T"
    using assms by (simp_all add: fseq_repr_def)
  have r: "ring_ok (fw_bits w)" and S: "\<And>x. x \<in> S \<Longrightarrow> x \<le> T" using W by (auto simp: win_def)
  define s where s: "s = sint (f - word_of_int T)"
  have xs: "x = T + s" by (simp add: x fseq_num_def s)
  note fs = fseq_serial [OF s]
  have w8: "int (64 * length (fw_bits w)) = 8192" by (simp add: l)
  consider (ahead) "8192 \<le> s" | (adv) "0 < s" "s < 8192" | (late) "s \<le> - 8192" | (mark) "s \<le> 0" "- 8192 < s"
    by linarith
  then show ?thesis
  proof cases
    case ahead
    then have "FseqWindow_Accept w f = (WindowAhead, w)"
      using fs(3,4) by (simp add: FseqWindow_Accept_def Let_def top nat_int_comparison(3))
    moreover have "ring_ok (replicate 128 0)" using r l by (simp add: ring_ok_def)
    then have "win (setRing (replicate 128 0) (ucast f)) x (insert x S)"
      using S ahead fs(6) by (intro win_jump) (fastforce simp: xs)+
    moreover have "x \<notin> S" using S ahead xs by fastforce
    ultimately show ?thesis using ahead xs fs(2) setRing_ring [OF \<open>ring_ok (replicate 128 0)\<close>]
      by (simp add: fseq_repr_def FseqWindow_Jump_def)
  next
    case adv
    let ?n = "ucast (f - word_of_int T) :: u64" and ?from = "ucast (word_of_int T :: u32) + 1 :: u64"
    have n: "int (unat ?n) = s" using fs(4) adv by (simp only: unat_ucast64)
    have "unat (word_of_int T :: u32) < 2 ^ 32" using unsigned_less [where 'a = nat, of "word_of_int T :: u32"] by simp
    then have "int (unat ?from) = uint (word_of_int T :: u32) + 1"
      by (simp add: unat_word_ariths unat_ucast64)
    then have "int (unat ?from) = T mod 2 ^ 32 + 1" by (simp add: uint_word_of_int)
    then have "int (unat ?from) mod 8192 = ((T mod 2 ^ 32) mod 8192 + 1) mod 8192"
      by (simp only: mod_add_left_eq)
    also have "(T mod 2 ^ 32) mod 8192 = T mod 8192" by (simp add: mod_mod_cancel)
    finally have fr: "int (unat ?from) mod 8192 = (T + 1) mod 8192" by (simp only: mod_add_left_eq)
    have A: "FseqWindow_Accept w f = (WindowNew, w\<lparr>fw_top := f,
        fw_bits := setRing (clearRing (fw_bits w) ?from ?n) (ucast f)\<rparr>)"
      using adv fs(3,4) by (simp add: FseqWindow_Accept_def Let_def top nat_int_comparison(3))
    have "win (setRing (clearRing (fw_bits w) ?from ?n) (ucast f)) (T + s) (insert (T + s) S)"
      using W adv n fr fs(6) by (intro win_advance) (simp_all add: l)
    moreover have "length (setRing (clearRing (fw_bits w) ?from ?n) (ucast f)) = 128"
      using clearRing_ring [OF r, of ?n] setRing_ring n adv l by simp
    moreover have "x \<notin> S" using S adv xs by fastforce
    ultimately show ?thesis using A adv xs fs(2) by (simp add: fseq_repr_def)
  next
    case late
    then have "FseqWindow_Accept w f = (WindowLate, w)"
      using fs(3,5) by (simp add: FseqWindow_Accept_def Let_def top nat_int_comparison(3))
    then show ?thesis using late xs by simp
  next
    case mark
    then have A: "FseqWindow_Accept w f = (case markRing (fw_bits w) (ucast f) of (v, bits) \<Rightarrow> (v, w\<lparr>fw_bits := bits\<rparr>))"
      using fs(3,5) by (simp add: FseqWindow_Accept_def Let_def top nat_int_comparison(3))
    have "T - 8192 < x" "x \<le> T" "int (unat (ucast f :: u64)) mod 8192 = x mod 8192" using mark xs fs(6) by auto
    then have m: "markRing (fw_bits w) (ucast f) = (if x \<in> S then (WindowDuplicate, fw_bits w)
        else (WindowNew, setRing (fw_bits w) (ucast f)))"
      "win (setRing (fw_bits w) (ucast f)) T (insert x S)"
      using win_mark [OF W, of x "ucast f"] w8 by simp_all
    show ?thesis using A m mark xs setRing_ring [OF r] l top
      by (auto simp: fseq_repr_def max_def)
  qed
qed

interpretation fseqw: dedup_window fseq_offer fseq_num fseq_repr "\<lambda>w. 8192"
proof (standard, goal_cases)
  case (1 w T S n w')
  obtain f b where n: "n = (f, b)" by fastforce
  show ?case
  proof (cases "T + 8192 \<le> fseq_num T n")
    case True
    then show ?thesis
      using 1 FseqWindow_Accept_spec [OF 1(1), of "fseq_num T n" f b]
      by (auto simp: n fseq_offer_def split: prod.splits if_splits)
  next
    case False
    then show ?thesis
      using 1 FseqWindow_Accept_spec [OF 1(1), of "fseq_num T n" f b]
      by (auto simp: n fseq_offer_def split: prod.splits if_splits)
  qed
next
  case (2 w T S n v w')
  obtain f b where n: "n = (f, b)" by fastforce
  show ?case using 2 FseqWindow_Accept_spec [OF 2(1), of "fseq_num T n" f b]
    by (auto simp: n fseq_offer_def split: prod.splits if_splits)
next
  case (3 w T S n)
  obtain f b where n: "n = (f, b)" by fastforce
  show ?case using 3 FseqWindow_Accept_spec [OF 3(1), of "fseq_num T n" f b]
    by (auto simp: n fseq_offer_def split: prod.splits if_splits)
next
  case (4 w T S n)
  obtain f b where n: "n = (f, b)" by fastforce
  show ?case using 4 FseqWindow_Accept_spec [OF 4(1), of "fseq_num T n" f b]
    by (auto simp: n fseq_offer_def split: prod.splits if_splits)
qed

section \<open>Properties of the windows\<close>

lemma power_of_two_and:
  "0 < n \<Longrightarrow> n AND (n - 1) = 0 \<Longrightarrow> \<exists>a. n = 2 ^ a" for n :: nat
proof (induction n rule: less_induct)
  case (less n)
  show ?case
  proof (cases "even n")
    case True
    then obtain m where m: "n = 2 * m" by auto
    then have d: "(n - 1) div 2 = m - 1" "n div 2 = m" "0 < n - 1" "0 < m" "m < n" using less.prems by auto
    have "n AND (n - 1) = (n mod 2) * ((n - 1) mod 2) + 2 * ((n div 2) AND ((n - 1) div 2))"
      using d less.prems(1) by (subst and_nat_unfold) simp
    then have "m AND (m - 1) = 0" using less.prems(2) d True by simp
    then obtain a where "m = 2 ^ a" using less.IH [of m] d by auto
    then show ?thesis using m by (intro exI [of _ "Suc a"]) simp
  next
    case False
    then obtain m where m: "n = 2 * m + 1" by (auto elim: oddE)
    have "m = 0"
    proof (rule ccontr)
      assume "m \<noteq> 0"
      then have "n AND (n - 1) = 2 * (m AND m)" by (subst and_nat_unfold) (simp add: m)
      then show False using less.prems(2) \<open>m \<noteq> 0\<close> by simp
    qed
    then show ?thesis using m by (intro exI [of _ 0]) simp
  qed
qed

lemma SeqWindow_Init_repr:
  assumes "SeqWindow_Init storage = Some w" and "length storage < 2 ^ 58"
  shows "seq_repr w (- 1) {}" and "length (sw_bits w) = length storage"
proof -
  have w: "w = \<lparr>sw_top = 0, sw_started = False, sw_bits = replicate (length storage) 0\<rparr>"
    and n: "0 < length storage" "length storage AND (length storage - 1) = 0"
    using assms(1) by (auto simp: SeqWindow_Init_def Let_def split: if_splits)
  obtain a where a: "length storage = 2 ^ a" using power_of_two_and [OF n] by blast
  with assms(2) have "(2::nat) ^ a < 2 ^ 58" by simp
  then have "a < 58" by (rule power_less_imp_less_exp [rotated]) simp
  then have r: "ring_ok (replicate (length storage) 0)" using a by (auto simp: ring_ok_def)
  then show "seq_repr w (- 1) {}"
    using ring_zero [OF r] by (auto simp: seq_repr_def w win_def ringi_def)
  show "length (sw_bits w) = length storage" by (simp add: w)
qed

lemma FseqWindow_Init_repr:
  "fseq_repr (FseqWindow_Init first) (uint first - 1) {x. x \<le> uint first - 1}"
proof -
  have "ring_ok (replicate 128 (NOT 0))" by (auto simp: ring_ok_def intro!: exI [of _ 7])
  moreover have "ring (replicate 128 (NOT 0)) i" for i
    by (simp add: ring_def)
  ultimately show ?thesis by (simp add: fseq_repr_def FseqWindow_Init_def win_def ringi_def)
qed

text \<open>The offered numbers that were accepted, in order.\<close>

primrec taken :: "('w \<Rightarrow> 'n \<Rightarrow> WindowVerdict \<times> 'w) \<Rightarrow> 'w \<Rightarrow> 'n list \<Rightarrow> 'n list" where
  "taken ofr w [] = []"
| "taken ofr w (n # ns) =
     (case ofr w n of (v, w') \<Rightarrow> if v = WindowNew then n # taken ofr w' ns else taken ofr w' ns)"

lemma accepted_taken: "accepted ofr (\<lambda>T n. g n) w T ns = map g (taken ofr w ns)"
  by (induction ns arbitrary: w T) (auto split: prod.splits)

context dedup_window
begin

lemma offers_repr_Max:
  "repr w T S \<Longrightarrow> repr (snd (offers offer w ns)) (foldl max T (accepted offer num w T ns))
     (S \<union> set (accepted offer num w T ns)) \<and> width (snd (offers offer w ns)) = width w"
proof (induction ns arbitrary: w T S)
  case (Cons n ns)
  obtain v w' where o: "offer w n = (v, w')" by fastforce
  show ?case
  proof (cases "v = WindowNew")
    case True
    then have "repr w' (max T (num T n)) (insert (num T n) S)" "width w' = width w"
      using offer_new [OF Cons.prems] o by auto
    with Cons.IH [OF this(1)] show ?thesis using o True by (auto split: prod.splits)
  next
    case False
    then have "w' = w" using offer_other [OF Cons.prems o] by simp
    then show ?thesis using Cons.IH [OF Cons.prems] o False by (auto split: prod.splits)
  qed
qed simp

end

text \<open>Claim C10: the receive window of a packet session accepts each number at most once and gives
  exactly the promised verdict. After any sequence of offers to a freshly initialised window, the
  accepted numbers are pairwise distinct, and the next number is late exactly when it is at least
  the window's width behind the newest accepted one, otherwise a duplicate exactly when it was
  accepted before, and otherwise it is new.\<close>

theorem seq_window_exact:
  assumes "SeqWindow_Init storage = Some w0" and "length storage < 2 ^ 58"
  shows "distinct (taken SeqWindow_Accept w0 ns) \<and>
    fst (SeqWindow_Accept (snd (offers SeqWindow_Accept w0 ns)) n) =
      (if uint n + 64 * int (length storage) \<le> foldl max (- 1) (map uint (taken SeqWindow_Accept w0 ns))
       then WindowLate
       else if n \<in> set (taken SeqWindow_Accept w0 ns) then WindowDuplicate else WindowNew)"
proof -
  note r = SeqWindow_Init_repr [OF assms]
  let ?A = "taken SeqWindow_Accept w0 ns"
  have m: "accepted SeqWindow_Accept (\<lambda>T n. uint n) w0 (- 1) ns = map uint ?A" by (rule accepted_taken)
  have "distinct ?A" using seqw.accepted_fresh [OF r(1), of ns] unfolding m by (simp add: distinct_map)
  moreover have "uint n \<in> uint ` set ?A \<longleftrightarrow> n \<in> set ?A"
    by (auto dest: unsigned_word_eqI)
  ultimately show ?thesis
    using seqw.offers_repr_Max [OF r(1), of ns]
      SeqWindow_Accept_spec [of "snd (offers SeqWindow_Accept w0 ns)" "foldl max (- 1) (map uint ?A)" "uint ` set ?A" n]
    unfolding m by (auto simp: r(2))
qed

theorem seq_window_exact_witness:
  "\<exists>w0. SeqWindow_Init (replicate 16 7) = Some w0 \<and>
    distinct (taken SeqWindow_Accept w0 [5, 3, 5, 3000]) \<and>
    fst (SeqWindow_Accept (snd (offers SeqWindow_Accept w0 [])) 5) = WindowNew"
proof -
  obtain w0 where w: "SeqWindow_Init (replicate 16 7) = Some w0"
    by (simp add: SeqWindow_Init_def and_nat_unfold)
  have "distinct (taken SeqWindow_Accept w0 [5, 3, 5, 3000])"
    using seq_window_exact [OF w, of "[5, 3, 5, 3000]"] by simp
  moreover have "fst (SeqWindow_Accept (snd (offers SeqWindow_Accept w0 [])) 5) = WindowNew"
    using seq_window_exact [OF w, of "[]" 5] by simp
  ultimately show ?thesis using w by blast
qed

text \<open>Claim C11: the anti-replay window accepts each frame number at most once, also across the
  wrap of the 32-bit numbers. Whatever frames are offered to a fresh window, with or without a
  proof for those ahead of it, the frame numbers it accepts, counted without wrapping, are pairwise
  distinct and none lies before the direction's first frame.\<close>

theorem fseq_window_at_most_once:
  "distinct (accepted fseq_offer fseq_num (FseqWindow_Init first) (uint first - 1) ns) \<and>
   set (accepted fseq_offer fseq_num (FseqWindow_Init first) (uint first - 1) ns) \<subseteq> {uint first..}"
  using fseqw.accepted_fresh [OF FseqWindow_Init_repr [of first], of ns] by fastforce

text \<open>Claim C17: the anti-replay window classifies frames by their distance from the newest. When
  the window has accepted exactly the unwrapped numbers \<open>S\<close> and \<open>T\<close> is the newest, a frame at least
  8192 ahead is reported ahead and changes nothing, one at least 8192 behind is late, one already
  accepted is a duplicate, and any other is new and becomes part of the accepted numbers; taking
  a reported jump makes it the newest.\<close>

theorem fseq_window_exact:
  assumes "fseq_repr w T S" and "x = T + sint (f - word_of_int T)"
  shows "fst (FseqWindow_Accept w f) =
      (if T + 8192 \<le> x then WindowAhead else if x \<le> T - 8192 then WindowLate
       else if x \<in> S then WindowDuplicate else WindowNew) \<and>
    (fst (FseqWindow_Accept w f) = WindowNew \<or> snd (FseqWindow_Accept w f) = w) \<and>
    (fst (FseqWindow_Accept w f) = WindowNew \<longrightarrow>
       fseq_repr (snd (FseqWindow_Accept w f)) (max T x) (insert x S)) \<and>
    (fst (FseqWindow_Accept w f) = WindowAhead \<longrightarrow> fseq_repr (FseqWindow_Jump w f) x (insert x S))"
  using FseqWindow_Accept_spec [OF assms(1), of x f False] assms(2) by (auto simp: fseq_num_def split: if_splits)

theorem fseq_window_exact_witness:
  "fst (FseqWindow_Accept (FseqWindow_Init 10) 10) = WindowNew \<and>
   fst (FseqWindow_Accept (FseqWindow_Init 10) 9) = WindowDuplicate \<and>
   fst (FseqWindow_Accept (FseqWindow_Init 10) 9000) = WindowAhead"
proof -
  have r: "fseq_repr (FseqWindow_Init 10) 9 {x. x \<le> 9}" using FseqWindow_Init_repr [of 10] by simp
  have "sint ((10::u32) - word_of_int 9) = 1" "sint ((9::u32) - word_of_int 9) = 0"
    "sint ((9000::u32) - word_of_int 9) = 8991"
    by simp_all
  then show ?thesis
    using fseq_window_exact [OF r, of _ 10] fseq_window_exact [OF r, of _ 9] fseq_window_exact [OF r, of _ 9000]
    by auto
qed

end
