(* ===== verification/Go_Num.thy ===== *)
theory Go_Num
  imports Prelude
begin

text \<open>
  Go's 64-bit integers, durations and instants. An \<open>int64\<close> (and a \<open>time.Duration\<close>, its
  nanoseconds) is an \<open>int\<close> in \<open>i64\<close> range; \<open>w64\<close> is the two's-complement wrap that every
  arithmetic operation of the source gets where it could leave the range. A \<open>time.Time\<close> is the
  nanoseconds since the zero Time, so that \<open>IsZero\<close> is \<open>t = 0\<close>; \<open>Sub\<close> saturates as
  \<open>time.Time.Sub\<close> does.
\<close>

type_synonym duration = int
type_synonym go_time = int

definition MaxInt64 :: int where [simp]: "MaxInt64 = 2 ^ 63 - 1"
definition MinInt64 :: int where [simp]: "MinInt64 = - (2 ^ 63)"

definition i64 :: "int \<Rightarrow> bool" where
  "i64 x \<longleftrightarrow> MinInt64 \<le> x \<and> x \<le> MaxInt64"

definition w64 :: "int \<Rightarrow> int" where
  "w64 x = (x + 2 ^ 63) mod 2 ^ 64 - 2 ^ 63"

text \<open>Go's integer division truncates towards zero; the remainder has the sign of the dividend.\<close>

definition go_div :: "int \<Rightarrow> int \<Rightarrow> int" where
  "go_div a b = sgn a * sgn b * (\<bar>a\<bar> div \<bar>b\<bar>)"

definition go_mod :: "int \<Rightarrow> int \<Rightarrow> int" where
  "go_mod a b = a - b * go_div a b"

definition IsZero :: "go_time \<Rightarrow> bool" where
  "IsZero t \<longleftrightarrow> t = 0"

definition Sub :: "go_time \<Rightarrow> go_time \<Rightarrow> duration" where
  "Sub a b = max MinInt64 (min MaxInt64 (a - b))"

definition Millisecond :: duration where [simp]: "Millisecond = 1000000"
definition Second :: duration where [simp]: "Second = 1000 * Millisecond"

lemma w64_id [simp]: "i64 x \<Longrightarrow> w64 x = x"
  by (simp add: w64_def i64_def)

lemma i64_w64 [simp]: "i64 (w64 x)"
proof -
  have "0 \<le> (x + 2 ^ 63) mod 2 ^ 64" "(x + 2 ^ 63) mod 2 ^ 64 < 2 ^ 64" by simp_all
  then show ?thesis by (simp add: w64_def i64_def)
qed

lemma w64_w64 [simp]: "w64 (w64 x) = w64 x"
  by simp

lemma go_div_nonneg [simp]: "0 \<le> a \<Longrightarrow> 0 < b \<Longrightarrow> go_div a b = a div b"
  by (cases "a = 0") (simp_all add: go_div_def)

lemma go_mod_nonneg [simp]: "0 \<le> a \<Longrightarrow> 0 < b \<Longrightarrow> go_mod a b = a mod b"
  by (simp add: go_mod_def minus_mult_div_eq_mod)

lemma zdiv_less_iff:
  assumes "0 < (k::int)"
  shows "h div k < r \<longleftrightarrow> h < r * k"
proof -
  have "r \<le> h div k \<longleftrightarrow> r * k \<le> h"
  proof
    assume "r \<le> h div k"
    then have "r * k \<le> (h div k) * k" using assms by (intro mult_right_mono) auto
    also have "\<dots> \<le> h" using assms pos_mod_sign [of k h] div_mult_mod_eq [of h k] by linarith
    finally show "r * k \<le> h" .
  next
    assume "r * k \<le> h"
    then have "(r * k) div k \<le> h div k" using assms by (rule zdiv_mono1)
    then show "r \<le> h div k" using assms by simp
  qed
  then show ?thesis by linarith
qed

lemma IsZero_0 [simp]: "IsZero 0"
  by (simp add: IsZero_def)

lemma Sub_le: "i64 d \<Longrightarrow> Sub a b \<le> d \<longleftrightarrow> a - b \<le> d \<or> d = MaxInt64"
  by (auto simp: Sub_def i64_def)

end
