(* ===== verification/Sched_Timing.thy ===== *)
theory Sched_Timing
  imports Go_Num Wire_Frame
begin

text \<open>
  The integer timing formulas of \<open>internal/sched\<close>: the retransmission timeout of the reliable
  control sublayer (\<open>rto.go\<close>), and \<open>RescueWait\<close> and \<open>EpochNewer\<close> of \<open>formula.go\<close>. Every
  operation of the source that could overflow is written with \<open>w64\<close>; the lemmas show that none
  does, whatever the arguments, and that the results are the exact formulas of the comments.
\<close>

section \<open>Definitions\<close>

definition RTOMin :: duration where [simp]: "RTOMin = 200 * Millisecond"
definition RTOMax :: duration where [simp]: "RTOMax = 2 * Second"
definition RTOInitial :: duration where [simp]: "RTOInitial = 300 * Millisecond"

definition RTOWithin ::
    "duration \<Rightarrow> duration \<Rightarrow> bool \<Rightarrow> duration \<Rightarrow> duration \<Rightarrow> duration \<Rightarrow> duration" where
  "RTOWithin srtt rttvar sampled initial lo hi =
     (if \<not> sampled then initial
      else
       let srtt = max srtt 0; rttvar = max rttvar 0
       in if srtt \<ge> hi \<or> rttvar > go_div (w64 (hi - srtt)) 4 then hi
          else min (max (w64 (srtt + w64 (4 * rttvar))) lo) hi)"

definition RTO :: "duration \<Rightarrow> duration \<Rightarrow> bool \<Rightarrow> duration" where
  "RTO srtt rttvar sampled = RTOWithin srtt rttvar sampled RTOInitial RTOMin RTOMax"

text \<open>\<open>hi>>uint(n)\<close> is an arithmetic shift, \<open>rto<<uint(n)\<close> keeps the low 64 bits.\<close>

definition RTOBackoffWithin :: "duration \<Rightarrow> int \<Rightarrow> duration \<Rightarrow> duration" where
  "RTOBackoffWithin rto n hi =
     (if rto \<le> 0 then rto
      else
       let n = (if n < 0 then 0 else n)
       in if rto > drop_bit (nat n) hi then hi else w64 (push_bit (nat n) rto))"

definition RTOBackoff :: "duration \<Rightarrow> int \<Rightarrow> duration" where
  "RTOBackoff rto n = RTOBackoffWithin rto n RTOMax"

definition RTTVar :: "duration \<Rightarrow> duration \<Rightarrow> duration \<Rightarrow> bool \<Rightarrow> duration" where
  "RTTVar rttvar srtt rtt first =
     (let rtt = max rtt 0
      in if first then go_div rtt 2
         else
          let rttvar = max rttvar 0; srtt = max srtt 0;
              d = w64 (srtt - rtt);
              d = (if d < 0 then w64 (- d) else d)
          in w64 (w64 (w64 (3 * go_div rttvar 4) + go_div d 4)
               + go_div (w64 (w64 (3 * go_mod rttvar 4) + go_mod d 4)) 4))"

definition RescueWait :: "duration \<Rightarrow> duration \<Rightarrow> duration" where
  "RescueWait fastest mn =
     (if fastest > go_div MaxInt64 3 then MaxInt64
      else let w = w64 (3 * fastest) in if w > mn then w else mn)"

definition EpochNewer :: "u32 \<Rightarrow> u32 \<Rightarrow> bool" where
  "EpochNewer a b \<longleftrightarrow> a \<noteq> b \<and> 0 <s a - b"

section \<open>Lemmas\<close>

lemma RTOWithin_exact:
  assumes "i64 srtt" "i64 rttvar" "i64 lo" "i64 hi"
  shows "RTOWithin srtt rttvar True initial lo hi = min (max (max srtt 0 + 4 * max rttvar 0) lo) hi"
proof -
  define s v where s: "s = max srtt 0" and v: "v = max rttvar 0"
  have b: "0 \<le> s" "0 \<le> v" "s \<le> MaxInt64" using assms by (simp_all add: s v i64_def)
  show ?thesis
  proof (cases "s \<ge> hi")
    case True
    then show ?thesis using b by (simp add: RTOWithin_def Let_def s [symmetric] v [symmetric])
  next
    case False
    then have d: "i64 (hi - s)" "0 \<le> hi - s" using assms(4) b by (simp_all add: i64_def)
    show ?thesis
    proof (cases "v > (hi - s) div 4")
      case True
      then have "s + 4 * v \<ge> hi" by simp
      then show ?thesis using True False d
        by (simp add: RTOWithin_def Let_def s [symmetric] v [symmetric])
    next
      case le: False
      then have "4 * v \<le> hi - s" by simp
      then have "i64 (4 * v)" "i64 (s + 4 * v)" using assms(4) b by (auto simp: i64_def)
      then show ?thesis using le False d
        by (simp add: RTOWithin_def Let_def s [symmetric] v [symmetric])
    qed
  qed
qed

lemma RTOBackoffWithin_exact:
  assumes "i64 rto" "i64 hi" "0 < rto"
  shows "RTOBackoffWithin rto n hi = min (rto * 2 ^ nat n) hi"
proof -
  have nn: "nat (if n < 0 then 0 else n) = nat n" by simp
  have "rto > hi div 2 ^ nat n \<longleftrightarrow> rto * 2 ^ nat n > hi"
    by (rule zdiv_less_iff) simp
  moreover have "i64 (rto * 2 ^ nat n)" if "rto * 2 ^ nat n \<le> hi"
  proof -
    have "0 \<le> rto * 2 ^ nat n" using assms(3) by simp
    then show ?thesis using that assms(2) by (simp add: i64_def)
  qed
  ultimately show ?thesis
    using assms by (auto simp: RTOBackoffWithin_def Let_def nn drop_bit_eq_div push_bit_eq_mult)
qed

lemma RTTVar_exact:
  assumes "i64 rttvar" "i64 srtt" "i64 rtt"
  shows "RTTVar rttvar srtt rtt False = (3 * max rttvar 0 + \<bar>max srtt 0 - max rtt 0\<bar>) div 4"
    and "i64 (RTTVar rttvar srtt rtt False)"
proof -
  define v s r where v: "v = max rttvar 0" and s: "s = max srtt 0" and r: "r = max rtt 0"
  have b: "0 \<le> v" "0 \<le> s" "0 \<le> r" "v \<le> MaxInt64" "s \<le> MaxInt64" "r \<le> MaxInt64"
    using assms by (simp_all add: v s r i64_def)
  define d where d: "d = \<bar>s - r\<bar>"
  have db: "0 \<le> d" "d \<le> MaxInt64" using b by (auto simp: d)
  have w: "w64 (s - r) = s - r" "w64 (r - s) = r - s" using b by (simp_all add: i64_def)
  have dd: "(if w64 (s - r) < 0 then w64 (- w64 (s - r)) else w64 (s - r)) = d"
    using w by (auto simp: d abs_if)
  define A B C D where ab: "A = v div 4" "B = v mod 4" "C = d div 4" "D = d mod 4"
  define q where q: "q = 3 * A + C + (3 * B + D) div 4"
  have "v = 4 * A + B" "d = 4 * C + D" unfolding ab by simp_all
  then have "3 * v + d = (3 * B + D) + (3 * A + C) * 4" by simp
  then have e: "q = (3 * v + d) div 4" unfolding q by simp
  have p: "0 \<le> A" "0 \<le> C" "0 \<le> B" "B < 4" "0 \<le> D" "D < 4" "A < 2 ^ 61" "C < 2 ^ 61"
    using b db by (auto simp: ab)
  have q0: "0 \<le> q" "q \<le> MaxInt64" unfolding e using b db by auto
  have i: "i64 (3 * A)" "i64 (3 * A + C)" "i64 (3 * B)" "i64 (3 * B + D)" "i64 q"
    using p q0 by (simp_all add: i64_def)
  have g: "go_div v 4 = A" "go_div d 4 = C" "go_mod v 4 = B" "go_mod d 4 = D"
    "go_div (3 * B + D) 4 = (3 * B + D) div 4"
    using b(1) db(1) p(3,5) by (simp_all add: ab)
  have "RTTVar rttvar srtt rtt False =
      w64 (w64 (w64 (3 * go_div v 4) + go_div d 4) + go_div (w64 (w64 (3 * go_mod v 4) + go_mod d 4)) 4)"
    unfolding RTTVar_def Let_def v [symmetric] s [symmetric] r [symmetric] dd by (simp only: if_False)
  also have "\<dots> = q" unfolding g by (simp only: i w64_id g q [symmetric])
  finally show "RTTVar rttvar srtt rtt False = (3 * max rttvar 0 + \<bar>max srtt 0 - max rtt 0\<bar>) div 4"
    "i64 (RTTVar rttvar srtt rtt False)"
    using e i(5) by (simp_all only: v s r d)
qed

section \<open>Properties\<close>

text \<open>Claim C28: the retransmission timeouts are exact and never overflow. For all 64-bit arguments
  \<open>RTOWithin\<close> is the smoothed time plus four deviations clamped to the bounds, \<open>RTO\<close> lies between
  its two bounds, the back-off doubles the timeout up to the cap for every count of
  retransmissions, and \<open>RTTVar\<close> is the rounded-down RFC 6298 update.\<close>

theorem rto_exact:
  assumes "i64 srtt" "i64 rttvar" "i64 rtt" "i64 lo" "i64 hi" "i64 rto" "0 < rto"
  shows "RTOWithin srtt rttvar True initial lo hi = min (max (max srtt 0 + 4 * max rttvar 0) lo) hi \<and>
    RTOMin \<le> RTO srtt rttvar sampled \<and> RTO srtt rttvar sampled \<le> RTOMax \<and>
    RTOBackoffWithin rto n hi = min (rto * 2 ^ nat n) hi \<and>
    RTTVar rttvar srtt rtt False = (3 * max rttvar 0 + \<bar>max srtt 0 - max rtt 0\<bar>) div 4 \<and>
    RTTVar rttvar srtt rtt True = max rtt 0 div 2"
proof -
  have "RTO srtt rttvar True = min (max (max srtt 0 + 4 * max rttvar 0) RTOMin) RTOMax"
    unfolding RTO_def using assms by (intro RTOWithin_exact) (simp_all add: i64_def)
  moreover have "RTO srtt rttvar False = RTOInitial" by (simp add: RTO_def RTOWithin_def)
  ultimately have "RTOMin \<le> RTO srtt rttvar sampled \<and> RTO srtt rttvar sampled \<le> RTOMax"
    by (cases sampled) auto
  moreover have "RTTVar rttvar srtt rtt True = max rtt 0 div 2" by (simp add: RTTVar_def)
  ultimately show ?thesis
    using RTOWithin_exact [OF assms(1,2,4,5)] RTOBackoffWithin_exact [OF assms(6,5,7)]
      RTTVar_exact(1) [OF assms(2,1,3)] by blast
qed

theorem rto_exact_witness:
  "RTOWithin 30000000 5000000 True 0 RTOMin RTOMax = RTOMin \<and> RTOBackoffWithin RTOMin 2 RTOMax = 800000000 \<and>
   RTTVar 8 20 10 False = 8"
  using rto_exact [of 30000000 5000000 0 RTOMin RTOMax RTOMin 0 True 2]
    rto_exact [of 20 8 10 RTOMin RTOMax RTOMin 0 True 2]
  by (simp add: i64_def)

lemma RescueWait_exact:
  assumes "i64 fastest" "i64 mn"
  shows "RescueWait fastest mn = min MaxInt64 (max mn (3 * fastest))
    \<or> 3 * fastest < MinInt64"
proof (cases "fastest > go_div MaxInt64 3")
  case True
  then show ?thesis using assms by (simp add: RescueWait_def i64_def)
next
  case False
  then have "3 * fastest \<le> MaxInt64" by simp
  then show ?thesis using assms False by (cases "3 * fastest < MinInt64") (auto simp: RescueWait_def i64_def Let_def)
qed

lemma sless_iff_unat: "0 <s (d::u32) \<longleftrightarrow> 0 < unat d \<and> unat d < 2 ^ 31"
proof -
  obtain m where m: "unat d = m" "uint d = int m" by simp
  have b: "m < 2 ^ 32" using unsigned_less [where 'a = nat, of d] m by simp
  have sd: "sint d = (int m + 2 ^ 31) mod 2 ^ 32 - 2 ^ 31"
    unfolding sint_uint m by (simp add: signed_take_bit_eq_take_bit_shift take_bit_eq_mod)
  show ?thesis
  proof (cases "m < 2 ^ 31")
    case True
    then have "(int m + 2 ^ 31) mod 2 ^ 32 = int m + 2 ^ 31"
      by (intro mod_pos_pos_trivial) auto
    then show ?thesis using True sd m by (simp add: word_sless_alt)
  next
    case False
    then have "(int m + 2 ^ 31) mod 2 ^ 32 = int m + 2 ^ 31 - 2 ^ 32"
      using b by (subst mod_pos_geq) auto
    then have "sint d < 0" using sd b by simp
    then show ?thesis using False m by (simp add: word_sless_alt)
  qed
qed

text \<open>Serial-number order. A 32-bit number is before exactly the next \<open>2 ^ 31 - 1\<close>
  numbers, so the order is never symmetric and survives the wrap, and a SCHED epoch is newer
  exactly when the other one is before it.\<close>

theorem serial_order:
  "(SeqLess a b \<longleftrightarrow> 0 < unat (b - a) \<and> unat (b - a) < 2 ^ 31) \<and>
   \<not> (SeqLess a b \<and> SeqLess b a) \<and> (EpochNewer a b \<longleftrightarrow> SeqLess b a)"
proof -
  have s: "SeqLess x y \<longleftrightarrow> 0 < unat (y - x) \<and> unat (y - x) < 2 ^ 31" for x y
    by (auto simp: SeqLess_def sless_iff_unat)
  have "unat ((a - b) + (b - a)) = (unat (a - b) + unat (b - a)) mod 2 ^ 32"
    by (simp only: unat_word_ariths) simp
  then have z: "(unat (a - b) + unat (b - a)) mod 2 ^ 32 = 0" by simp
  have "\<not> (0 < unat (b - a) \<and> unat (b - a) < 2 ^ 31 \<and> 0 < unat (a - b) \<and> unat (a - b) < 2 ^ 31)"
  proof
    assume "0 < unat (b - a) \<and> unat (b - a) < 2 ^ 31 \<and> 0 < unat (a - b) \<and> unat (a - b) < 2 ^ 31"
    then have "(unat (a - b) + unat (b - a)) mod 2 ^ 32 = unat (a - b) + unat (b - a)"
      "0 < unat (a - b) + unat (b - a)" by (simp_all add: mod_less)
    then show False using z by simp
  qed
  then have "\<not> (SeqLess a b \<and> SeqLess b a)" unfolding s by blast
  then show ?thesis using s by (auto simp: EpochNewer_def SeqLess_def)
qed

end
