(* ===== verification/Go_Float.thy ===== *)
theory Go_Float
  imports Complex_Main Go_Num "HOL-Library.Log_Nat"
begin

text \<open>
  Go's \<open>float64\<close>: IEEE 754 binary64 with round-to-nearest, ties-to-even. A finite value is the
  rational it denotes (the sign of zero is not distinguished: no operation of the sources observes
  it); \<open>rnd\<close> rounds a rational to 53 significant bits with the subnormal exponent floor, and every
  operation rounds its exact result once. Fused multiply-add, which the language allows an
  implementation to use, is not modelled. The lemmas give the error bound of a rounding, its
  monotonicity and the exactness of small integers.
\<close>

section \<open>Rounding\<close>

text \<open>The binary exponent of a positive rational: \<open>2 powi flog2 x \<le> x < 2 powi (flog2 x + 1)\<close>.\<close>

definition flog2 :: "rat \<Rightarrow> int" where
  "flog2 x =
     (case quotient_of x of (a, b) \<Rightarrow>
        let k = bitlen a - bitlen b in if 2 powi k \<le> x then k else k - 1)"

definition round_even :: "rat \<Rightarrow> int" where
  "round_even z =
     (let f = \<lfloor>z\<rfloor>; r = z - of_int f
      in if r < 1 / 2 then f else if r > 1 / 2 then f + 1 else if even f then f else f + 1)"

definition rnd_exp :: "rat \<Rightarrow> int" where
  "rnd_exp x = max (flog2 \<bar>x\<bar> - 52) (- 1074)"

definition rnd :: "rat \<Rightarrow> rat" where
  "rnd x = (if x = 0 then 0 else of_int (round_even (x / 2 powi rnd_exp x)) * 2 powi rnd_exp x)"

section \<open>Values and operations\<close>

datatype f64 = Fin rat | PInf | NInf | NaN

definition f_of :: "rat \<Rightarrow> f64" where
  "f_of x = (if \<bar>rnd x\<bar> \<ge> 2 powi 1024 then (if x > 0 then PInf else NInf) else Fin (rnd x))"

text \<open>\<open>float64(n)\<close> of a 64-bit integer never overflows.\<close>

definition f_int :: "int \<Rightarrow> rat" where
  "f_int n = rnd (of_int n)"

fun f_mul :: "f64 \<Rightarrow> f64 \<Rightarrow> f64" where
  "f_mul NaN y = NaN"
| "f_mul x NaN = NaN"
| "f_mul (Fin x) (Fin y) = f_of (x * y)"
| "f_mul (Fin x) PInf = (if x = 0 then NaN else if x > 0 then PInf else NInf)"
| "f_mul (Fin x) NInf = (if x = 0 then NaN else if x > 0 then NInf else PInf)"
| "f_mul PInf (Fin y) = (if y = 0 then NaN else if y > 0 then PInf else NInf)"
| "f_mul NInf (Fin y) = (if y = 0 then NaN else if y > 0 then NInf else PInf)"
| "f_mul PInf PInf = PInf"
| "f_mul PInf NInf = NInf"
| "f_mul NInf PInf = NInf"
| "f_mul NInf NInf = PInf"

fun f_add :: "f64 \<Rightarrow> f64 \<Rightarrow> f64" where
  "f_add NaN y = NaN"
| "f_add x NaN = NaN"
| "f_add (Fin x) (Fin y) = f_of (x + y)"
| "f_add (Fin x) y = y"
| "f_add x (Fin y) = x"
| "f_add PInf PInf = PInf"
| "f_add NInf NInf = NInf"
| "f_add PInf NInf = NaN"
| "f_add NInf PInf = NaN"

fun f_neg :: "f64 \<Rightarrow> f64" where
  "f_neg (Fin x) = Fin (- x)"
| "f_neg PInf = NInf"
| "f_neg NInf = PInf"
| "f_neg NaN = NaN"

definition f_sub :: "f64 \<Rightarrow> f64 \<Rightarrow> f64" where
  "f_sub x y = f_add x (f_neg y)"

text \<open>Division by a non-zero divisor; the sources never divide by zero.\<close>

fun f_div :: "f64 \<Rightarrow> f64 \<Rightarrow> f64" where
  "f_div (Fin x) (Fin y) = (if y = 0 then NaN else f_of (x / y))"
| "f_div (Fin x) PInf = Fin 0"
| "f_div (Fin x) NInf = Fin 0"
| "f_div PInf (Fin y) = (if y > 0 then PInf else NInf)"
| "f_div NInf (Fin y) = (if y > 0 then NInf else PInf)"
| "f_div x y = NaN"

fun f_le :: "f64 \<Rightarrow> f64 \<Rightarrow> bool" where
  "f_le NaN y = False"
| "f_le x NaN = False"
| "f_le (Fin x) (Fin y) = (x \<le> y)"
| "f_le NInf y = True"
| "f_le x PInf = True"
| "f_le x y = False"

definition f_lt :: "f64 \<Rightarrow> f64 \<Rightarrow> bool" where
  "f_lt x y \<longleftrightarrow> f_le x y \<and> \<not> f_le y x"

definition f_min :: "f64 \<Rightarrow> f64 \<Rightarrow> f64" where
  "f_min x y = (if x = NaN \<or> y = NaN then NaN else if f_le x y then x else y)"

text \<open>The conversion \<open>int64(x)\<close> truncates towards zero. The language leaves the result open when it
  does not fit; the model takes the value that amd64 gives, and \<open>f_fits\<close> says that the result is
  the one every implementation gives.\<close>

definition rat_trunc :: "rat \<Rightarrow> int" where
  "rat_trunc x = (if x \<ge> 0 then \<lfloor>x\<rfloor> else \<lceil>x\<rceil>)"

fun f_fits :: "f64 \<Rightarrow> bool" where
  "f_fits (Fin x) = i64 (rat_trunc x)"
| "f_fits _ = False"

fun f_trunc :: "f64 \<Rightarrow> int" where
  "f_trunc (Fin x) = (if i64 (rat_trunc x) then rat_trunc x else MinInt64)"
| "f_trunc _ = MinInt64"

text \<open>\<open>math.Sqrt\<close>, the correctly rounded square root: the integer square root of the argument scaled to more
  than 54 bits, with a half added when it is not exact, rounds as the real square root does.
  \<open>math.Round\<close> rounds half away from zero.\<close>

fun isqrt :: "int \<Rightarrow> int" where
  "isqrt n =
     (if n \<le> 0 then 0
      else let r = 2 * isqrt (n div 4) in if (r + 1) * (r + 1) \<le> n then r + 1 else r)"

declare isqrt.simps [simp del]

definition rat_sqrt :: "rat \<Rightarrow> rat" where
  "rat_sqrt x =
     (if x = 0 then 0
      else
       let k = 56 - flog2 x div 2;
           y = x * 2 powi (2 * k);
           m = isqrt \<lfloor>y\<rfloor>
       in (if of_int (m * m) = y then of_int m else of_int m + 1 / 2) / 2 powi k)"

fun f_sqrt :: "f64 \<Rightarrow> f64" where
  "f_sqrt (Fin x) = (if x < 0 then NaN else Fin (rnd (rat_sqrt x)))"
| "f_sqrt PInf = PInf"
| "f_sqrt _ = NaN"

fun f_round :: "f64 \<Rightarrow> f64" where
  "f_round (Fin x) = f_of (if x \<ge> 0 then of_int \<lfloor>x + 1 / 2\<rfloor> else - of_int \<lfloor>1 / 2 - x\<rfloor>)"
| "f_round x = x"

section \<open>Lemmas on rounding\<close>

lemma powi_pos [simp]: "(0::rat) < 2 powi k"
  by (simp add: zero_less_power_int)

lemma powi_nz [simp]: "(2::rat) powi k \<noteq> 0"
  using powi_pos [of k] by linarith

lemma powi_mono: "a \<le> b \<Longrightarrow> (2::rat) powi a \<le> 2 powi b"
  by (rule power_int_increasing) auto

lemma powi_add: "(2::rat) powi (a + b) = 2 powi a * 2 powi b"
  by (rule power_int_add) simp

lemma powi_diff: "(2::rat) powi (a - b) = 2 powi a / 2 powi b"
  by (simp add: power_int_diff)

lemma powi_int: "0 \<le> k \<Longrightarrow> (2::rat) powi k = of_int (2 ^ nat k)"
  by (simp add: power_int_def)

lemma bitlen_bounds_int: "0 < a \<Longrightarrow> 2 powi (bitlen a - 1) \<le> (of_int a :: rat) \<and> of_int a < (2::rat) powi bitlen a"
proof -
  assume a: "0 < a"
  have p: "0 < bitlen a" using a bitlen_bounds [of a] by (cases "0 < bitlen a") auto
  have "2 ^ nat (bitlen a - 1) \<le> a \<and> a < 2 ^ nat (bitlen a)"
    using a bitlen_bounds [of a] by simp
  then have "(of_int (2 ^ nat (bitlen a - 1)) :: rat) \<le> of_int a" "(of_int a :: rat) < of_int (2 ^ nat (bitlen a))"
    by (simp_all only: of_int_le_iff of_int_less_iff)
  then show ?thesis using p by (simp add: power_int_def)
qed

lemma flog2_bounds:
  assumes "0 < x"
  shows "2 powi flog2 x \<le> x" and "x < 2 powi (flog2 x + 1)"
proof -
  obtain a b where q: "quotient_of x = (a, b)" by fastforce
  have b: "0 < b" and x: "x = of_int a / of_int b"
    using q quotient_of_denom_pos quotient_of_div by blast+
  have a: "0 < a" using assms b by (simp add: x zero_less_divide_iff)
  let ?k = "bitlen a - bitlen b"
  have "x < 2 powi bitlen a / 2 powi (bitlen b - 1)"
    unfolding x using bitlen_bounds_int [OF a] bitlen_bounds_int [OF b] b a
    by (intro frac_less) auto
  also have "\<dots> = 2 powi (?k + 1)" by (simp add: powi_diff [symmetric] algebra_simps)
  finally have u: "x < 2 powi (?k + 1)" .
  have "2 powi (bitlen a - 1) / 2 powi bitlen b \<le> x"
    unfolding x using bitlen_bounds_int [OF a] bitlen_bounds_int [OF b] a b
    by (intro frac_le) auto
  moreover have "(2::rat) powi (bitlen a - 1) / 2 powi bitlen b = 2 powi (?k - 1)"
    by (simp add: powi_diff [symmetric] algebra_simps)
  ultimately have l: "2 powi (?k - 1) \<le> x" by simp
  show "2 powi flog2 x \<le> x" "x < 2 powi (flog2 x + 1)"
    using u l by (auto simp: flog2_def q Let_def)
qed

lemma flog2_unique:
  assumes "2 powi k \<le> x" and "x < 2 powi (k + 1)"
  shows "flog2 x = k"
proof (rule ccontr)
  have x: "0 < x" using assms(1) powi_pos [of k] by linarith
  assume "flog2 x \<noteq> k"
  then consider "k + 1 \<le> flog2 x" | "flog2 x + 1 \<le> k" by linarith
  then show False
  proof cases
    case 1
    then show False using powi_mono [OF 1] flog2_bounds(1) [OF x] assms(2) by linarith
  next
    case 2
    then show False using powi_mono [OF 2] flog2_bounds(2) [OF x] assms(1) by linarith
  qed
qed

lemma flog2_mono: "0 < x \<Longrightarrow> x \<le> y \<Longrightarrow> flog2 x \<le> flog2 y"
proof (rule ccontr)
  assume a: "0 < x" "x \<le> y" "\<not> flog2 x \<le> flog2 y"
  then have "y < 2 powi (flog2 y + 1)" by (intro flog2_bounds) simp
  also have "\<dots> \<le> 2 powi flog2 x" using a(3) by (intro powi_mono) simp
  also have "\<dots> \<le> x" using a(1) by (rule flog2_bounds)
  finally show False using a(2) by simp
qed

lemma round_even_err: "\<bar>of_int (round_even z) - z\<bar> \<le> 1 / 2"
proof -
  have "of_int \<lfloor>z\<rfloor> \<le> z" "z < of_int \<lfloor>z\<rfloor> + 1" by linarith+
  then show ?thesis by (auto simp: round_even_def Let_def)
qed

lemma round_even_of_int [simp]: "round_even (of_int n) = n"
  by (simp add: round_even_def)

lemma round_even_mono: "x \<le> y \<Longrightarrow> round_even x \<le> round_even y"
proof -
  assume le: "x \<le> y"
  have f: "\<lfloor>x\<rfloor> \<le> \<lfloor>y\<rfloor>" using le by (rule floor_mono)
  show ?thesis
  proof (cases "\<lfloor>x\<rfloor> = \<lfloor>y\<rfloor>")
    case True
    then show ?thesis using le by (auto simp: round_even_def Let_def)
  next
    case False
    then have "\<lfloor>x\<rfloor> + 1 \<le> \<lfloor>y\<rfloor>" using f by simp
    moreover have "round_even x \<le> \<lfloor>x\<rfloor> + 1" "\<lfloor>y\<rfloor> \<le> round_even y"
      by (auto simp: round_even_def Let_def)
    ultimately show ?thesis by linarith
  qed
qed

lemma round_even_minus: "round_even (- z) = - round_even z"
proof (cases "z = of_int \<lfloor>z\<rfloor>")
  case True
  then show ?thesis by (metis of_int_minus round_even_of_int)
next
  case False
  then have "\<lfloor>- z\<rfloor> = - \<lfloor>z\<rfloor> - 1" by linarith
  then show ?thesis by (auto simp: round_even_def Let_def)
qed

lemma rnd_0 [simp]: "rnd 0 = 0"
  by (simp add: rnd_def)

lemma rnd_minus: "rnd (- x) = - rnd x"
  by (simp add: rnd_def rnd_exp_def round_even_minus)

lemma rnd_pos_mono:
  assumes "0 < x" and "x \<le> y"
  shows "rnd x \<le> rnd y"
proof (cases "rnd_exp x = rnd_exp y")
  case True
  then have "x / 2 powi rnd_exp x \<le> y / 2 powi rnd_exp y" using assms by (simp add: divide_right_mono)
  then have "round_even (x / 2 powi rnd_exp x) \<le> round_even (y / 2 powi rnd_exp y)" by (rule round_even_mono)
  then show ?thesis using assms True by (simp add: rnd_def mult_right_mono)
next
  case False
  have "flog2 x \<le> flog2 y" using assms by (rule flog2_mono)
  then have lt: "rnd_exp x < rnd_exp y" "flog2 x < flog2 y" "rnd_exp y = flog2 y - 52"
    using False assms by (auto simp: rnd_exp_def)
  let ?P = "2 powi flog2 y :: rat"
  have "x < 2 powi (flog2 x + 1)" using assms(1) by (rule flog2_bounds)
  also have "\<dots> \<le> ?P" using lt by (intro powi_mono) simp
  finally have xP: "x \<le> ?P" by simp
  have "?P / 2 powi rnd_exp x = of_int (2 ^ nat (flog2 y - rnd_exp x))"
    using lt by (simp add: powi_diff [symmetric] powi_int)
  moreover have "round_even (x / 2 powi rnd_exp x) \<le> round_even (?P / 2 powi rnd_exp x)"
    using xP by (intro round_even_mono divide_right_mono) (simp_all add: less_imp_le)
  ultimately have "of_int (round_even (x / 2 powi rnd_exp x)) \<le> ?P / 2 powi rnd_exp x"
    by (metis of_int_le_iff round_even_of_int)
  then have "rnd x \<le> ?P" using assms by (simp add: rnd_def pos_le_divide_eq)
  also have "?P \<le> rnd y"
  proof -
    have "?P / 2 powi rnd_exp y = of_int (2 ^ 52)" using lt by (simp add: powi_diff [symmetric] powi_int)
    moreover have "?P \<le> y" using assms by (intro flog2_bounds) simp
    then have "round_even (?P / 2 powi rnd_exp y) \<le> round_even (y / 2 powi rnd_exp y)"
      by (intro round_even_mono divide_right_mono) (simp_all add: less_imp_le)
    ultimately have "?P / 2 powi rnd_exp y \<le> of_int (round_even (y / 2 powi rnd_exp y))"
      by (metis of_int_le_iff round_even_of_int)
    then show ?thesis using assms by (simp add: rnd_def pos_divide_le_eq)
  qed
  finally show ?thesis .
qed

lemma rnd_nonneg: "0 \<le> x \<Longrightarrow> 0 \<le> rnd x"
proof (cases "x = 0")
  case False
  assume "0 \<le> x"
  then have "round_even 0 \<le> round_even (x / 2 powi rnd_exp x)"
    by (intro round_even_mono) (simp add: less_imp_le)
  then show ?thesis using round_even_of_int [of 0] False by (simp add: rnd_def less_imp_le)
qed simp

lemma rnd_mono: "x \<le> y \<Longrightarrow> rnd x \<le> rnd y"
proof -
  assume le: "x \<le> y"
  consider "0 < x" | "x \<le> 0" "0 \<le> y" | "y < 0" by linarith
  then show ?thesis
  proof cases
    case 1
    then show ?thesis using le by (rule rnd_pos_mono)
  next
    case 2
    then show ?thesis using rnd_nonneg [of y] rnd_nonneg [of "- x"] by (simp add: rnd_minus)
  next
    case 3
    then have "rnd (- y) \<le> rnd (- x)" using le by (intro rnd_pos_mono) auto
    then show ?thesis by (simp add: rnd_minus)
  qed
qed

text \<open>A rational that is a multiple of its unit in the last place is not changed.\<close>

lemma rnd_exact: "x / 2 powi rnd_exp x = of_int m \<Longrightarrow> rnd x = x"
  by (simp add: rnd_def) (metis nonzero_eq_divide_eq powi_nz)

lemma rnd_of_int:
  assumes "\<bar>n\<bar> \<le> 2 ^ 53"
  shows "rnd (of_int n) = of_int n"
proof -
  have pos: "rnd (of_int n) = of_int n" if n: "0 < n" "n \<le> 2 ^ 53" for n
  proof (cases "n = 2 ^ 53")
    case True
    have "flog2 (of_int n) = 53" using True by (intro flog2_unique) (simp_all add: power_int_def)
    then have "rnd_exp (of_int n) = 1" using n by (simp add: rnd_exp_def)
    then show ?thesis using True by (intro rnd_exact [of _ "2 ^ 52"]) simp
  next
    case False
    then have "(of_int n :: rat) < 2 powi 53" using n by (simp add: power_int_def) 
    moreover have "2 powi flog2 (of_int n) \<le> (of_int n :: rat)" using n by (auto intro: flog2_bounds)
    ultimately have "\<not> 53 \<le> flog2 (of_int n)" using powi_mono [of 53 "flog2 (of_int n)"] by auto
    then have e: "rnd_exp (of_int n) \<le> 0" using n by (simp add: rnd_exp_def)
    then have "of_int n / 2 powi rnd_exp (of_int n) = (of_int n * 2 powi (- rnd_exp (of_int n)) :: rat)"
      by (simp add: power_int_minus divide_inverse)
    also have "\<dots> = of_int (n * 2 ^ nat (- rnd_exp (of_int n)))" using e by (simp add: powi_int)
    finally show ?thesis by (rule rnd_exact)
  qed
  show ?thesis
  proof (cases n "0::int" rule: linorder_cases)
    case less
    then show ?thesis using pos [of "- n"] assms by (simp add: rnd_minus)
  qed (use pos assms in auto)
qed

lemma rnd_err:
  assumes "2 powi (- 1022) \<le> \<bar>x\<bar>"
  shows "\<bar>rnd x - x\<bar> \<le> \<bar>x\<bar> / 2 ^ 53"
proof -
  have x: "0 < \<bar>x\<bar>" using assms powi_pos [of "- 1022"] by linarith
  have "\<not> flog2 \<bar>x\<bar> < - 1022"
  proof
    assume "flog2 \<bar>x\<bar> < - 1022"
    then have "2 powi (flog2 \<bar>x\<bar> + 1) \<le> (2::rat) powi (- 1022)" by (intro powi_mono) simp
    then show False using flog2_bounds(2) [OF x] assms by linarith
  qed
  then have e: "rnd_exp x = flog2 \<bar>x\<bar> - 52" by (simp add: rnd_exp_def)
  let ?u = "2 powi rnd_exp x :: rat"
  have "rnd x - x = (of_int (round_even (x / ?u)) - x / ?u) * ?u" using x by (simp add: rnd_def left_diff_distrib)
  then have "\<bar>rnd x - x\<bar> \<le> 1 / 2 * ?u"
    using round_even_err [of "x / ?u"] by (simp add: abs_mult mult_right_mono)
  also have "?u = 2 powi flog2 \<bar>x\<bar> / 2 ^ 52" by (simp add: e powi_diff)
  also have "1 / 2 * (2 powi flog2 \<bar>x\<bar> / 2 ^ 52) \<le> \<bar>x\<bar> / 2 ^ 53"
    using flog2_bounds(1) [OF x] by simp
  finally show ?thesis .
qed

lemma rnd_powi: "- 1022 \<le> k \<Longrightarrow> rnd (2 powi k) = 2 powi k"
proof (rule rnd_exact)
  assume "- 1022 \<le> k"
  moreover have "flog2 (2 powi k) = k" by (rule flog2_unique) (simp_all add: powi_add)
  ultimately have "rnd_exp (2 powi k) = k - 52" by (simp add: rnd_exp_def)
  then show "2 powi k / 2 powi rnd_exp (2 powi k) = (of_int (2 ^ 52) :: rat)"
    by (simp add: powi_diff)
qed

lemma rnd_rnd [simp]: "rnd (rnd x) = rnd x"
proof -
  have pos: "rnd (rnd x) = rnd x" if x: "0 < x" for x
  proof -
    define e where e: "e = rnd_exp x"
    define m where m: "m = round_even (x / 2 powi e)"
    have r: "rnd x = of_int m * 2 powi e" using x by (simp add: rnd_def e m)
    have e52: "- 1074 \<le> e" "flog2 x - 52 \<le> e" using x by (simp_all add: e rnd_exp_def)
    have "0 \<le> m" using rnd_nonneg [of x] x powi_pos [of e] by (simp add: r zero_le_mult_iff)
    have "x \<le> 2 powi (flog2 x + 1)" using flog2_bounds(2) [OF x] by simp
    also have "\<dots> \<le> 2 powi (e + 53)" using e52 by (intro powi_mono) simp
    finally have "x / 2 powi e \<le> of_int (2 ^ 53)" by (simp add: pos_divide_le_eq powi_add)
    then have "m \<le> round_even (of_int (2 ^ 53))" unfolding m by (rule round_even_mono)
    then have m53: "m \<le> 2 ^ 53" by (simp only: round_even_of_int)
    consider "m = 0" | "m = 2 ^ 53" | "0 < m" "m < 2 ^ 53" using \<open>0 \<le> m\<close> m53 by linarith
    then show ?thesis
    proof cases
      case 2
      then have "rnd x = 2 powi (e + 53)" by (simp add: r powi_add)
      then show ?thesis using e52 by (simp add: rnd_powi)
    next
      case 3
      have fm: "flog2 (of_int m) \<le> 52"
      proof (rule ccontr)
        assume "\<not> flog2 (of_int m) \<le> 52"
        then have "(2::rat) powi 53 \<le> 2 powi flog2 (of_int m)" by (intro powi_mono) simp
        also have "\<dots> \<le> of_int m" using 3 by (intro flog2_bounds) simp
        finally have "of_int (2 ^ 53) \<le> (of_int m :: rat)" by (simp add: power_int_def)
        then show False using 3 by (simp only: of_int_le_iff)
      qed
      have "2 powi flog2 (of_int m) \<le> (of_int m :: rat)" "(of_int m :: rat) < 2 powi (flog2 (of_int m) + 1)"
        using 3 by (auto intro: flog2_bounds)
      then have "flog2 (rnd x) = flog2 (of_int m) + e"
        unfolding r by (intro flog2_unique) (simp_all add: powi_add)
      moreover have "0 < rnd x" using 3 by (simp add: r)
      ultimately have "rnd_exp (rnd x) \<le> e" using fm e52 by (simp add: rnd_exp_def)
      then have "(2::rat) powi e / 2 powi rnd_exp (rnd x) = of_int (2 ^ nat (e - rnd_exp (rnd x)))"
        unfolding powi_diff [symmetric] by (intro powi_int) simp
      then have "of_int m * (2 powi e / 2 powi rnd_exp (rnd x)) = (of_int (m * 2 ^ nat (e - rnd_exp (rnd x))) :: rat)"
        by simp
      then have "rnd x / 2 powi rnd_exp (rnd x) = of_int (m * 2 ^ nat (e - rnd_exp (rnd x)))"
        by (subst (1) r) (simp only: times_divide_eq_right)
      then show ?thesis by (rule rnd_exact)
    qed (simp add: r)
  qed
  show ?thesis
  proof (cases x "0::rat" rule: linorder_cases)
    case less
    then show ?thesis using pos [of "- x"] by (simp add: rnd_minus)
  qed (use pos in auto)
qed

section \<open>Values that stay finite\<close>

lemma f_of_Fin:
  assumes "\<bar>x\<bar> \<le> 2 powi 1000"
  shows "f_of x = Fin (rnd x)"
proof -
  have p: "rnd (2 powi 1000) = 2 powi 1000" by (rule rnd_powi) simp_all
  have "rnd x \<le> rnd (2 powi 1000)" "rnd (- x) \<le> rnd (2 powi 1000)"
    using assms by (auto intro!: rnd_mono simp del: power_int_numeral)
  then have "rnd x \<le> 2 powi 1000" "rnd (- x) \<le> 2 powi 1000" unfolding p .
  then have "\<bar>rnd x\<bar> \<le> 2 powi 1000" unfolding rnd_minus abs_le_iff by blast
  also have "(2::rat) powi 1000 < 2 powi 1024" by (rule power_int_strict_increasing) auto
  finally show ?thesis by (simp add: f_of_def)
qed

lemma f_of_int: "\<bar>n\<bar> \<le> 2 ^ 53 \<Longrightarrow> f_of (of_int n) = Fin (of_int n)"
proof -
  assume n: "\<bar>n\<bar> \<le> 2 ^ 53"
  then have "\<bar>of_int n :: rat\<bar> \<le> 2 powi 53" by (simp add: of_int_le_numeral_iff flip: of_int_abs)
  also have "(2::rat) powi 53 \<le> 2 powi 1000" by (rule powi_mono) simp
  finally show ?thesis using n by (simp add: f_of_Fin rnd_of_int)
qed

lemma f_trunc_int: "i64 k \<Longrightarrow> f_trunc (Fin (of_int k)) = k"
  by (simp add: rat_trunc_def)

section \<open>The integer square root\<close>

lemma isqrt_bounds: "0 \<le> n \<Longrightarrow> 0 \<le> isqrt n \<and> isqrt n * isqrt n \<le> n \<and> n < (isqrt n + 1) * (isqrt n + 1)"
proof (induction n rule: isqrt.induct)
  case (1 n)
  show ?case
  proof (cases "n = 0")
    case True
    then show ?thesis by (simp add: isqrt.simps)
  next
    case False
    define q where "q = isqrt (n div 4)"
    have n: "0 < n" "0 \<le> n div 4" using 1 False by auto
    have ih: "0 \<le> q" "q * q \<le> n div 4" "n div 4 < (q + 1) * (q + 1)" using 1(1) n by (auto simp: q_def)
    have "4 * (q * q) \<le> n" "n < 4 * ((q + 1) * (q + 1))" using ih(2,3) by linarith+
    then have b: "(2 * q) * (2 * q) \<le> n" "n < (2 * q + 1 + 1) * (2 * q + 1 + 1)" by (auto simp: algebra_simps)
    have e: "isqrt n = (if (2 * q + 1) * (2 * q + 1) \<le> n then 2 * q + 1 else 2 * q)"
      using n(1) unfolding q_def by (subst isqrt.simps) (simp add: Let_def)
    show ?thesis using b ih(1) unfolding e by auto
  qed
qed

lemma rat_sqrt_nonneg: "0 \<le> x \<Longrightarrow> 0 \<le> rat_sqrt x"
proof -
  assume x: "0 \<le> x"
  define y where "y = x * 2 powi (2 * (56 - flog2 x div 2))"
  have "0 \<le> isqrt \<lfloor>y\<rfloor>" using isqrt_bounds [of "\<lfloor>y\<rfloor>"] x by (simp add: y_def)
  then show ?thesis unfolding rat_sqrt_def Let_def y_def [symmetric] by simp
qed

end
