(* ===== verification/Go_Approx.thy ===== *)
theory Go_Approx
  imports Go_Float
begin

text \<open>
  Error analysis of \<open>float64\<close> formulas on non-negative values. \<open>apx T n m d E\<close> says that the computed value
  \<open>d\<close> stands for the exact rational \<open>E\<close>: a finite \<open>d\<close> is within \<open>n\<close> units of \<open>2 ^ - 52\<close> relative and \<open>m\<close> units
  of \<open>tiny\<close> absolute error (underflow), and \<open>d\<close> is infinite only when \<open>E\<close> is at least \<open>T\<close> (overflow).
  There is one rule per operation.
\<close>

section \<open>The error of one rounding, underflow included\<close>

definition tiny :: rat where "tiny = 2 powi (- 1000)"
definition huge :: rat where "huge = 2 powi 998"

lemma tiny_pos [simp]: "0 < tiny" "0 \<le> tiny"
  unfolding tiny_def by (rule powi_pos, rule less_imp_le, rule powi_pos)

lemma tiny_small: "0 \<le> k \<Longrightarrow> k \<le> 2 ^ 900 \<Longrightarrow> k * tiny \<le> 1 / 2 ^ 60"
proof -
  assume k: "0 \<le> k" "k \<le> 2 ^ 900"
  have "k * tiny \<le> 2 powi 900 * 2 powi (- 1000)"
    unfolding tiny_def [symmetric] using k by (intro mult_right_mono) simp_all
  also have "\<dots> = 2 powi (- 100)" by (simp only: powi_add [symmetric]) simp
  also have "\<dots> \<le> 2 powi (- 60)" by (rule powi_mono) simp
  finally show ?thesis by (simp add: power_int_minus)
qed

lemma rnd_err_abs: "\<bar>rnd x - x\<bar> \<le> \<bar>x\<bar> / 2 ^ 53 + tiny"
proof (cases "2 powi (- 1022) \<le> \<bar>x\<bar>")
  case True
  then show ?thesis using rnd_err [OF True] tiny_pos(2) by linarith
next
  case False
  show ?thesis
  proof (cases "x = 0")
    case nz: False
    have x: "0 < \<bar>x\<bar>" using nz by simp
    have "rnd_exp x = - 1074"
    proof -
      have "\<not> - 1022 \<le> flog2 \<bar>x\<bar>"
        using powi_mono [of "- 1022" "flog2 \<bar>x\<bar>"] flog2_bounds(1) [OF x] False by linarith
      then show ?thesis by (simp add: rnd_exp_def)
    qed
    let ?u = "2 powi rnd_exp x :: rat"
    have "rnd x - x = (of_int (round_even (x / ?u)) - x / ?u) * ?u" using nz by (simp add: rnd_def left_diff_distrib)
    then have "\<bar>rnd x - x\<bar> \<le> 1 / 2 * ?u"
      using round_even_err [of "x / ?u"] by (simp add: abs_mult mult_right_mono)
    also have "\<dots> \<le> 1 * ?u" by (rule mult_right_mono) (simp_all add: less_imp_le)
    also have "\<dots> \<le> tiny"
      unfolding tiny_def mult_1 by (rule powi_mono) (simp add: \<open>rnd_exp x = - 1074\<close>)
    also have "\<dots> \<le> \<bar>x\<bar> / 2 ^ 53 + tiny" by simp
    finally show ?thesis .
  qed simp
qed

section \<open>Approximation\<close>

definition apx :: "rat \<Rightarrow> rat \<Rightarrow> rat \<Rightarrow> f64 \<Rightarrow> rat \<Rightarrow> bool" where
  "apx T n m d E \<longleftrightarrow> 0 \<le> E \<and>
     (case d of Fin x \<Rightarrow> 0 \<le> x \<and> \<bar>x - E\<bar> \<le> n / 2 ^ 52 * E + m * tiny | PInf \<Rightarrow> T \<le> E | _ \<Rightarrow> False)"

lemma apx_Fin: "apx T n m (Fin x) E \<longleftrightarrow> 0 \<le> E \<and> 0 \<le> x \<and> \<bar>x - E\<bar> \<le> n / 2 ^ 52 * E + m * tiny"
  and apx_PInf: "apx T n m PInf E \<longleftrightarrow> 0 \<le> E \<and> T \<le> E"
  by (simp_all add: apx_def)

lemma apx_cases:
  assumes "apx T n m d E"
  obtains x where "d = Fin x" "0 \<le> E" "0 \<le> x" "\<bar>x - E\<bar> \<le> n / 2 ^ 52 * E + m * tiny"
    | "d = PInf" "0 \<le> E" "T \<le> E"
  using assms by (cases d) (auto simp: apx_def)

lemma apx_exact: "0 \<le> x \<Longrightarrow> 0 \<le> n \<Longrightarrow> 0 \<le> m \<Longrightarrow> apx T n m (Fin x) x"
  by (simp add: apx_Fin)

lemma apx_weaken:
  assumes "apx T n m d E" and "n \<le> n'" and "m \<le> m'" and "T' \<le> T"
  shows "apx T' n' m' d E"
proof (use assms(1) in \<open>cases rule: apx_cases\<close>)
  case (1 x)
  have "n / 2 ^ 52 * E + m * tiny \<le> n' / 2 ^ 52 * E + m' * tiny"
    using assms 1 by (intro add_mono mult_right_mono divide_right_mono) auto
  then show ?thesis using 1 by (simp add: apx_Fin)
qed (use assms in \<open>simp add: apx_PInf\<close>)

lemma apx_finite: "apx T n m d E \<Longrightarrow> E < T \<Longrightarrow> \<exists>y. d = Fin y"
  by (cases d) (auto simp: apx_def)

text \<open>One rounding adds one unit of relative error.\<close>

lemma apx_round:
  assumes x: "0 \<le> x" "\<bar>x - E\<bar> \<le> n / 2 ^ 52 * E + m * tiny" and E: "0 \<le> E"
    and n: "0 \<le> n" "n \<le> 2 ^ 52" and m: "0 \<le> m" "m \<le> 2 ^ 900"
  shows "apx huge (n + 1) (2 * m + 1) (f_of x) E"
proof -
  have mt: "0 \<le> m * tiny" "m * tiny \<le> 1" using m tiny_small [OF m] by simp_all
  have "n / 2 ^ 52 * E \<le> 1 * E" using n E by (intro mult_right_mono) simp_all
  then have xle: "x \<le> 2 * E + m * tiny" using x by simp
  have "\<bar>rnd x - E\<bar> \<le> \<bar>rnd x - x\<bar> + \<bar>x - E\<bar>" by simp
  also have "\<dots> \<le> (x / 2 ^ 53 + tiny) + (n / 2 ^ 52 * E + m * tiny)"
    using rnd_err_abs [of x] x by (intro add_mono) simp_all
  also have "\<dots> \<le> (n + 1) / 2 ^ 52 * E + (2 * m + 1) * tiny"
    using xle mt by (simp add: field_simps)
  finally have fin: "apx huge (n + 1) (2 * m + 1) (Fin (rnd x)) E"
    using x(1) E by (simp add: apx_Fin rnd_nonneg)
  have "huge \<le> E" if "\<not> x \<le> 2 powi 1000"
  proof (rule ccontr)
    assume "\<not> huge \<le> E"
    then have "x \<le> 2 * huge + 1" using xle mt by linarith
    moreover have "(2::rat) powi 0 \<le> 2 powi 998" by (rule powi_mono) simp
    then have "1 \<le> huge" by (simp only: huge_def power_int_0_right)
    moreover have "(2::rat) powi 1000 = 2 powi 998 * 2 powi 2" unfolding powi_add [symmetric] by simp
    then have "2 powi 1000 = 4 * huge" by (simp only: huge_def) simp
    ultimately have "x \<le> 2 powi 1000" by linarith
    then show False using that by contradiction
  qed
  then have "f_of x = Fin (rnd x) \<or> huge \<le> E" using x(1) f_of_Fin [of x] by fastforce
  moreover have "f_of x = Fin (rnd x) \<or> f_of x = PInf" using x(1) by (auto simp: f_of_def)
  ultimately show ?thesis using fin E by (auto simp: apx_PInf)
qed

section \<open>The operations\<close>

lemma apx_int: "0 \<le> k \<Longrightarrow> apx T 1 0 (Fin (f_int k)) (of_int k)"
proof (cases "k = 0")
  case False
  assume "0 \<le> k"
  then have k: "1 \<le> (of_int k :: rat)" using False by simp
  have "2 powi (- 1022) \<le> (2::rat) powi 0" by (rule powi_mono) simp
  also have "\<dots> \<le> \<bar>of_int k\<bar>" using k by simp
  finally have "\<bar>rnd (of_int k) - of_int k\<bar> \<le> (of_int k :: rat) / 2 ^ 53"
    using k rnd_err [of "of_int k"] by simp
  then show ?thesis using k by (simp add: apx_Fin f_int_def rnd_nonneg)
qed (simp add: apx_Fin f_int_def)

text \<open>For an exact value of at least 1 the absolute part is one more unit of relative error.\<close>

lemma apx_rel:
  assumes "apx T n m (Fin y) E" and "1 \<le> E" and "0 \<le> m" "m \<le> 2 ^ 900"
  shows "\<bar>y - E\<bar> \<le> (n + 1) / 2 ^ 52 * E"
proof -
  have "m * tiny \<le> 1 / 2 ^ 60 * 1" using tiny_small [OF assms(3,4)] by simp
  also have "\<dots> \<le> 1 / 2 ^ 52 * E" using assms(2) by (intro mult_mono) simp_all
  finally show ?thesis using assms(1) by (simp add: apx_Fin add_divide_distrib distrib_right)
qed

lemma prod_err:
  fixes x y E1 E2 a b h :: rat
  assumes "\<bar>x - E1\<bar> \<le> a * E1 + h" "\<bar>y - E2\<bar> \<le> b * E2" and "0 \<le> E1" "0 \<le> E2" "0 \<le> y" "0 \<le> a" "0 \<le> b" "0 \<le> h"
  shows "\<bar>x * y - E1 * E2\<bar> \<le> (a + b + a * b) * (E1 * E2) + h * ((1 + b) * E2)"
proof -
  have y: "y \<le> (1 + b) * E2" using assms(2) by (simp add: distrib_right)
  have "x * y - E1 * E2 = (x - E1) * y + E1 * (y - E2)" by (simp add: algebra_simps)
  then have "\<bar>x * y - E1 * E2\<bar> \<le> \<bar>x - E1\<bar> * y + E1 * \<bar>y - E2\<bar>"
    using assms by (metis abs_mult abs_of_nonneg abs_triangle_ineq)
  also have "\<dots> \<le> (a * E1 + h) * ((1 + b) * E2) + E1 * (b * E2)"
    using assms y by (intro add_mono mult_mono) simp_all
  also have "\<dots> = (a + b + a * b) * (E1 * E2) + h * ((1 + b) * E2)" by (simp add: algebra_simps)
  finally show ?thesis .
qed

lemma apx_mul:
  assumes d: "apx T n1 m1 d E1" and y: "apx T' n2 m2 (Fin y) E2" and E2: "1 \<le> E2" "E2 \<le> 2 ^ 66" and T: "T \<le> huge" "0 \<le> T"
    and n: "0 \<le> n1" "n1 \<le> 2 ^ 20" "0 \<le> n2" "n2 \<le> 2 ^ 20" and m: "0 \<le> m1" "m1 \<le> 2 ^ 800" "0 \<le> m2" "m2 \<le> 2 ^ 800"
  shows "apx T (n1 + n2 + 3) (m1 * 2 ^ 68 + 1) (f_mul d (Fin y)) (E1 * E2)"
proof -
  let ?b = "(n2 + 1) / 2 ^ 52"
  have "m2 \<le> 2 ^ 900" using m(4) by (rule order_trans) simp
  with y E2(1) m(3) have rel: "\<bar>y - E2\<bar> \<le> ?b * E2" by (rule apx_rel)
  have b: "0 \<le> ?b" "?b \<le> 1 / 2" using n by simp_all
  have "?b * E2 \<le> 1 / 2 * E2" using b E2 by (intro mult_right_mono) simp_all
  then have y0: "0 < y" using rel E2 by linarith
  show ?thesis
  proof (use d in \<open>cases rule: apx_cases\<close>)
    case (1 x)
    have "\<bar>x * y - E1 * E2\<bar> \<le> (n1 / 2 ^ 52 + ?b + n1 / 2 ^ 52 * ?b) * (E1 * E2) + m1 * tiny * ((1 + ?b) * E2)"
      using 1 rel y0 E2 n m b by (intro prod_err) simp_all
    also have "\<dots> \<le> (n1 + n2 + 2) / 2 ^ 52 * (E1 * E2) + m1 * 2 ^ 67 * tiny"
    proof (intro add_mono mult_right_mono)
      have "n1 * (n2 + 1) \<le> 2 ^ 20 * 2 ^ 21" using n by (intro mult_mono) simp_all
      then show "n1 / 2 ^ 52 + ?b + n1 / 2 ^ 52 * ?b \<le> (n1 + n2 + 2) / 2 ^ 52" by (simp add: field_simps)
      have "(1 + ?b) * E2 \<le> 2 * 2 ^ 66" using b E2 by (intro mult_mono) simp_all
      then have "m1 * tiny * ((1 + ?b) * E2) \<le> m1 * tiny * 2 ^ 67" using m by (intro mult_left_mono) simp_all
      then show "m1 * tiny * ((1 + ?b) * E2) \<le> m1 * 2 ^ 67 * tiny" by (simp add: ac_simps)
    qed (use 1 E2 in simp)
    finally have "\<bar>x * y - E1 * E2\<bar> \<le> (n1 + n2 + 2) / 2 ^ 52 * (E1 * E2) + m1 * 2 ^ 67 * tiny" .
    moreover have "m1 * 2 ^ 67 \<le> 2 ^ 800 * 2 ^ 67" using m by (intro mult_right_mono) simp_all
    then have "m1 * 2 ^ 67 \<le> 2 ^ 900" by (rule order_trans) simp
    ultimately have "apx huge ((n1 + n2 + 2) + 1) (2 * (m1 * 2 ^ 67) + 1) (f_of (x * y)) (E1 * E2)"
      using 1 y0 E2 n m by (intro apx_round) simp_all
    then show ?thesis using T 1(1) by (auto intro: apx_weaken)
  next
    case 2
    have "T * 1 \<le> E1 * E2" using 2 T E2 by (intro mult_mono) simp_all
    then show ?thesis using 2 y0 E2 by (simp add: apx_PInf)
  qed
qed

lemma apx_div:
  assumes d: "apx T n m d E" and c: "1 \<le> c" and T: "T \<le> huge" "0 \<le> T"
    and n: "0 \<le> n" "n \<le> 2 ^ 52" and m: "0 \<le> m" "m \<le> 2 ^ 900"
  shows "apx (T / c) (n + 1) (2 * m + 1) (f_div d (Fin c)) (E / c)"
proof (use d in \<open>cases rule: apx_cases\<close>)
  case (1 x)
  have "\<bar>x / c - E / c\<bar> = \<bar>x - E\<bar> / c" using c by (simp add: diff_divide_distrib [symmetric])
  also have "\<dots> \<le> (n / 2 ^ 52 * E + m * tiny) / c" using 1 c by (intro divide_right_mono) simp_all
  also have "\<dots> = n / 2 ^ 52 * (E / c) + m * tiny / c" by (simp add: add_divide_distrib)
  also have "\<dots> \<le> n / 2 ^ 52 * (E / c) + m * tiny"
    using c m divide_left_mono [of 1 c "m * tiny"] by simp
  finally have "apx huge (n + 1) (2 * m + 1) (f_of (x / c)) (E / c)"
    using 1 c n m by (intro apx_round) simp_all
  moreover have "T / c \<le> huge" using T c divide_left_mono [of 1 c T] by simp
  ultimately show ?thesis using 1 c by (auto intro: apx_weaken)
next
  case 2
  then show ?thesis using c by (simp add: apx_PInf divide_right_mono)
qed

lemma apx_add:
  assumes a: "apx T n m1 d1 E1" and b: "apx T n m2 d2 E2" and T: "T \<le> huge"
    and n: "0 \<le> n" "n \<le> 2 ^ 52" and m: "0 \<le> m1" "m1 \<le> 2 ^ 800" "0 \<le> m2" "m2 \<le> 2 ^ 800"
  shows "apx T (n + 1) (2 * (m1 + m2) + 1) (f_add d1 d2) (E1 + E2)"
proof -
  have E: "0 \<le> E1" "0 \<le> E2" using a b by (simp_all add: apx_def)
  show ?thesis
  proof (cases d1)
    case x: (Fin x)
    show ?thesis
    proof (cases d2)
      case y: (Fin y)
      have "\<bar>(x + y) - (E1 + E2)\<bar> \<le> \<bar>x - E1\<bar> + \<bar>y - E2\<bar>" by linarith
      also have "\<dots> \<le> (n / 2 ^ 52 * E1 + m1 * tiny) + (n / 2 ^ 52 * E2 + m2 * tiny)"
        using a b x y by (intro add_mono) (simp_all add: apx_Fin)
      also have "\<dots> = n / 2 ^ 52 * (E1 + E2) + (m1 + m2) * tiny" by (simp add: algebra_simps add_divide_distrib)
      finally have e: "\<bar>(x + y) - (E1 + E2)\<bar> \<le> n / 2 ^ 52 * (E1 + E2) + (m1 + m2) * tiny" .
      have "m1 + m2 \<le> 2 ^ 800 + 2 ^ 800" using m by (intro add_mono) simp_all
      then have "m1 + m2 \<le> 2 ^ 900" by (rule order_trans) simp
      then have "apx huge (n + 1) (2 * (m1 + m2) + 1) (f_of (x + y)) (E1 + E2)"
        using e E n m a b x y by (intro apx_round) (simp_all add: apx_Fin)
      then show ?thesis using T x y by (auto intro: apx_weaken)
    qed (use b E x in \<open>auto simp: apx_def\<close>)
  qed (use a b E in \<open>cases d2; auto simp: apx_def\<close>)+
qed

lemma apx_min:
  assumes a: "apx T n m d E1" and b: "apx T n m (Fin y) E2" and T: "E2 \<le> T" and n: "0 \<le> n" "n \<le> 2 ^ 52"
  shows "apx T n m (f_min d (Fin y)) (min E1 E2)"
proof (use a in \<open>cases rule: apx_cases\<close>)
  case (1 x)
  let ?e = "\<lambda>E. n / 2 ^ 52 * E + m * tiny"
  have mono: "E - ?e E \<le> E' - ?e E'" "E + ?e E \<le> E' + ?e E'" if "E \<le> E'" for E E'
  proof -
    have "n / 2 ^ 52 * (E' - E) \<le> 1 * (E' - E)" "0 \<le> n / 2 ^ 52 * (E' - E)"
      using n that by (intro mult_right_mono, simp_all)
    then show "E - ?e E \<le> E' - ?e E'" "E + ?e E \<le> E' + ?e E'"
      using that unfolding right_diff_distrib by linarith+
  qed
  have xy: "E1 - ?e E1 \<le> x" "x \<le> E1 + ?e E1" "E2 - ?e E2 \<le> y" "y \<le> E2 + ?e E2" "0 \<le> y" "0 \<le> E2"
    using 1 b by (simp_all add: apx_Fin abs_le_iff)
  have "\<bar>min x y - min E1 E2\<bar> \<le> ?e (min E1 E2)"
  proof (cases "E1 \<le> E2")
    case True
    then show ?thesis using xy mono [OF True] by (simp add: min_def abs_le_iff)
  next
    case False
    then show ?thesis using xy mono [of E2 E1] by (simp add: min_def abs_le_iff)
  qed
  moreover have "f_min d (Fin y) = Fin (min x y)" using 1(1) by (simp add: f_min_def min_def)
  ultimately show ?thesis using 1 xy by (simp add: apx_Fin)
next
  case 2
  then have "min E1 E2 = E2" "f_min d (Fin y) = Fin y" using T by (simp_all add: f_min_def min_def)
  then show ?thesis using b by simp
qed

end
