(* ===== verification/Sched_Formula.thy ===== *)
theory Sched_Formula
  imports Go_Approx
begin

text \<open>
  The floating-point formulas of \<open>internal/sched/formula.go\<close> (death deadline, stall window, in-flight
  capacity, advertised window) and the redial \<open>Backoff\<close> of \<open>cadence.go\<close>. Rates are arbitrary
  \<open>float64\<close> values, infinities and NaN included. The lemmas show that the deadlines and capacities are the clamped values of
  the exact formulas up to rounding, overflow and out-of-range estimates included, and what bounds the advertised
  window and the redial interval keep.
\<close>

section \<open>Definitions\<close>

definition minAdvertise :: int where [simp]: "minAdvertise = 64 * 1024"
definition capSlack :: duration where [simp]: "capSlack = 50 * Millisecond"
definition capUnknownRTT :: duration where [simp]: "capUnknownRTT = 50 * Millisecond"
definition BackoffBase :: duration where [simp]: "BackoffBase = 500 * Millisecond"
definition maxBackoffShift :: int where [simp]: "maxBackoffShift = 32"

definition estimateNs :: "rat \<Rightarrow> duration \<Rightarrow> int \<Rightarrow> f64 \<Rightarrow> f64" where
  "estimateNs k srtt bytes rate =
     (let d = (if srtt > 0 then f_mul (Fin k) (Fin (f_int srtt)) else Fin 0)
      in if bytes > 0 \<and> f_lt (Fin 0) rate
         then f_add d (f_mul (f_div (Fin (f_int bytes)) rate) (Fin (f_int Second)))
         else d)"

definition clampNs :: "f64 \<Rightarrow> duration \<Rightarrow> duration \<Rightarrow> duration" where
  "clampNs d mn mx =
     (if f_le (Fin (f_int mx)) d then mx
      else
       let r = f_trunc d;
           r = (if r < mn then mn else r)
       in if r > mx then mx else r)"

definition DeathDeadline :: "duration \<Rightarrow> int \<Rightarrow> f64 \<Rightarrow> duration \<Rightarrow> duration \<Rightarrow> duration" where
  "DeathDeadline srtt inflight rate mn mx = clampNs (estimateNs 3 srtt inflight rate) mn mx"

definition StallWindow :: "duration \<Rightarrow> int \<Rightarrow> f64 \<Rightarrow> duration \<Rightarrow> duration \<Rightarrow> duration" where
  "StallWindow srtt batch rate mn mx = clampNs (estimateNs 2 srtt batch rate) mn mx"

text \<open>The value \<open>c\<close> of \<open>CapacityDuplex\<close> before it is clamped.\<close>

definition duplex_cap ::
    "f64 \<Rightarrow> duration \<Rightarrow> duration \<Rightarrow> f64 \<Rightarrow> duration \<Rightarrow> duration \<Rightarrow> int \<Rightarrow> f64" where
  "duplex_cap rate minRTT pingBusy revRate rv lag batch =
     (let minRTT = (if minRTT \<le> 0 then capUnknownRTT else minRTT);
          pingBusy = (if pingBusy < 0 then 0 else pingBusy);
          sec = Fin (f_int Second);
          c = (if f_lt (Fin 0) rate
               then f_div (f_mul (f_mul (Fin 2) rate)
                      (f_add (f_add (Fin (f_int minRTT)) (Fin (f_int pingBusy))) (Fin (f_int capSlack)))) sec
               else Fin 0)
      in if f_lt (Fin 0) revRate \<and> f_lt (Fin 0) rate
         then let c = (if rv > 0
                       then f_add c (f_div (f_mul (f_min revRate rate) (Fin (f_int rv))) sec) else c)
              in if lag > 0 \<and> batch > 0
                 then f_add c (f_min (f_div (f_mul rate (Fin (f_int lag))) sec) (Fin (f_int batch))) else c
         else c)"

definition CapacityDuplex ::
    "f64 \<Rightarrow> duration \<Rightarrow> duration \<Rightarrow> f64 \<Rightarrow> duration \<Rightarrow> duration \<Rightarrow> int \<Rightarrow> int \<Rightarrow> int \<Rightarrow> int" where
  "CapacityDuplex rate minRTT pingBusy revRate rv lag batch flr ceil =
     (let c = duplex_cap rate minRTT pingBusy revRate rv lag batch
      in if f_le (Fin (f_int ceil)) c then ceil
         else
          let r = f_trunc c;
              r = (if r < flr then flr else r)
          in if r > ceil then ceil else r)"

definition Capacity :: "f64 \<Rightarrow> duration \<Rightarrow> duration \<Rightarrow> int \<Rightarrow> int \<Rightarrow> int" where
  "Capacity rate minRTT pingBusy flr ceil = CapacityDuplex rate minRTT pingBusy (Fin 0) 0 0 0 flr ceil"

definition AdvertiseWindow :: "int \<Rightarrow> int \<Rightarrow> int \<Rightarrow> int" where
  "AdvertiseWindow window used mx =
     (if window \<le> 0 then 0
      else if mx \<le> 0 then window
      else
       let u = f_div (Fin (f_int used)) (Fin (f_int mx))
       in if f_le u (Fin (3 / 4)) then window
          else if f_le (Fin 1) u then 0
          else
           let w = f_trunc (f_div (f_mul (Fin (f_int window)) (f_sub (Fin 1) u)) (Fin (1 / 4)));
               w = (if w < minAdvertise then minAdvertise else w)
           in if w > window then window else w)"

definition backoff_cap :: "int \<Rightarrow> duration \<Rightarrow> duration" where
  "backoff_cap n mx =
     (let n = (if n < 0 then 0 else if n > maxBackoffShift then maxBackoffShift else n);
          d = w64 (push_bit (nat n) BackoffBase)
      in if mx > 0 \<and> d > mx then mx else d)"

definition Backoff :: "int \<Rightarrow> duration \<Rightarrow> f64 \<Rightarrow> duration" where
  "Backoff n mx u =
     (let d = backoff_cap n mx;
          u = (if \<not> f_le (Fin 0) u then Fin 0 else if f_lt (Fin 1) u then Fin 1 else u)
      in f_trunc (f_mul (Fin (f_int d)) (f_add (Fin (rnd (4 / 5))) (f_mul (Fin (rnd (2 / 5))) u))))"

section \<open>Non-negative values\<close>

abbreviation f_nonneg :: "f64 \<Rightarrow> bool" where
  "f_nonneg x \<equiv> f_le (Fin 0) x"

lemma f_nonneg_cases: "f_nonneg x \<Longrightarrow> (\<exists>r\<ge>0. x = Fin r) \<or> x = PInf"
  by (cases x) auto

lemma f_of_nonneg: "0 \<le> x \<Longrightarrow> f_nonneg (f_of x)"
  by (cases "x = 0") (auto simp: f_of_def rnd_nonneg)

lemma f_int_nonneg: "0 \<le> n \<Longrightarrow> 0 \<le> f_int n"
  by (simp add: f_int_def rnd_nonneg)

lemma f_add_nonneg: "f_nonneg x \<Longrightarrow> f_nonneg y \<Longrightarrow> f_nonneg (f_add x y)"
  by (cases x; cases y) (auto simp: f_of_nonneg)

lemma f_div_sec_nonneg: "f_nonneg x \<Longrightarrow> 0 < s \<Longrightarrow> f_nonneg (f_div x (Fin s))"
  by (cases x) (auto simp: f_of_nonneg)

lemma f_min_nonneg: "f_nonneg x \<Longrightarrow> f_nonneg y \<Longrightarrow> f_nonneg (f_min x y)"
  by (cases x; cases y) (auto simp: f_min_def)

lemma f_int_Second [simp]: "f_int 1000000000 = 1000000000"
  using rnd_of_int [of 1000000000] by (simp add: f_int_def)

lemma f_int_small: "\<bar>n\<bar> \<le> 2 ^ 53 \<Longrightarrow> f_int n = of_int n"
  by (simp add: f_int_def rnd_of_int)

lemma f_int_mono: "m \<le> n \<Longrightarrow> f_int m \<le> f_int n"
  by (simp add: f_int_def rnd_mono)

lemma f_int_pos: "0 < n \<Longrightarrow> 1 \<le> f_int n"
  using f_int_mono [of 1 n] f_int_small [of 1] by simp

lemma f_int_le_63: "n \<le> MaxInt64 \<Longrightarrow> f_int n \<le> 2 ^ 63"
proof -
  assume "n \<le> MaxInt64"
  then have "f_int n \<le> rnd (2 powi 63)" unfolding f_int_def by (intro rnd_mono) (simp add: power_int_def)
  moreover have "rnd (2 powi 63) = 2 powi 63" by (rule rnd_powi) simp
  ultimately have "f_int n \<le> 2 powi 63" by (simp only:)
  then show ?thesis by simp
qed

text \<open>Below a 64-bit bound a non-negative value converts without loss of range.\<close>

lemma trunc_below:
  assumes "f_nonneg d" and "\<not> f_le (Fin (f_int mx)) d" and "mx \<le> MaxInt64"
  obtains x where "d = Fin x" "0 \<le> x" "x < f_int mx" "f_trunc d = \<lfloor>x\<rfloor>" "f_fits d"
proof -
  obtain x where x: "d = Fin x" "0 \<le> x" "x < f_int mx"
    using f_nonneg_cases [OF assms(1)] assms(2) by auto
  then have "x < 2 ^ 63" using f_int_le_63 [OF assms(3)] by simp
  then have "\<lfloor>x\<rfloor> < 2 ^ 63" by (simp add: floor_less_iff)
  then have "i64 (rat_trunc x)" using x(2) by (simp add: rat_trunc_def i64_def)
  then show ?thesis using that x by (simp add: rat_trunc_def)
qed

lemma f_of_ge1: "1 \<le> x \<Longrightarrow> f_le (Fin 1) (f_of x)"
  using rnd_mono [of 1 x] rnd_of_int [of 1] by (simp add: f_of_def)

lemma f_add_ge1: "f_le (Fin 1) x \<Longrightarrow> f_nonneg y \<Longrightarrow> f_le (Fin 1) (f_add x y)"
  by (cases x; cases y) (auto intro: f_of_ge1)

lemma f_mul_pos_ge1:
  assumes "f_lt (Fin 0) x" and "f_le (Fin 1) y"
  shows "f_nonneg (f_mul x y)"
  using assms by (cases x; cases y) (auto simp: f_lt_def f_of_nonneg)

lemma f_le_int: "0 < n \<Longrightarrow> f_le (Fin 1) (Fin (f_int n))"
  by (simp add: f_int_pos)

lemma f_add_small: "0 \<le> x \<Longrightarrow> 0 \<le> y \<Longrightarrow> x + y \<le> 2 powi k \<Longrightarrow> - 1022 \<le> k \<Longrightarrow> k \<le> 1000 \<Longrightarrow>
    f_add (Fin x) (Fin y) = Fin (rnd (x + y)) \<and> rnd (x + y) \<le> 2 powi k"
  using powi_mono [of k 1000] rnd_mono [of "x + y" "2 powi k"] by (simp add: f_of_Fin rnd_powi)

lemma duplex_cap_nonneg:
  assumes "minRTT \<le> MaxInt64" and "pingBusy \<le> MaxInt64"
  shows "f_nonneg (duplex_cap rate minRTT pingBusy revRate rv lag batch)"
proof -
  let ?m = "if minRTT \<le> 0 then capUnknownRTT else minRTT" and ?p = "if pingBusy < 0 then 0 else pingBusy"
  let ?s = "f_add (f_add (Fin (f_int ?m)) (Fin (f_int ?p))) (Fin (f_int capSlack))"
  have s: "f_le (Fin 1) ?s" by (intro f_add_ge1 f_le_int) (simp_all add: f_int_nonneg)
  have two: "f_nonneg (f_mul (f_mul (Fin 2) rate) ?s)" if "f_lt (Fin 0) rate"
  proof (cases "f_mul (Fin 2) rate = Fin 0")
    case True
    have "f_int ?m \<le> 2 ^ 63" "f_int ?p \<le> 2 ^ 63" "f_int capSlack \<le> 2 ^ 63"
      by (rule f_int_le_63, use assms in simp)+
    moreover have "0 \<le> f_int ?m" "0 \<le> f_int ?p" "0 \<le> f_int capSlack" by (auto intro: f_int_nonneg)
    ultimately obtain r where "?s = Fin r"
      using f_add_small [of "f_int ?m" "f_int ?p" 64]
        f_add_small [of "rnd (f_int ?m + f_int ?p)" "f_int capSlack" 65]
      by (auto simp: rnd_nonneg)
    then show ?thesis unfolding True by (simp add: f_of_def)
  next
    case False
    moreover have "f_nonneg (f_mul (Fin 2) rate)" using that by (cases rate) (auto simp: f_lt_def f_of_nonneg)
    ultimately have "f_lt (Fin 0) (f_mul (Fin 2) rate)"
      using f_nonneg_cases [of "f_mul (Fin 2) rate"] by (auto simp: f_lt_def)
    then show ?thesis using s by (rule f_mul_pos_ge1)
  qed
  have mn: "f_lt (Fin 0) (f_min x y)" if "f_lt (Fin 0) x" "f_lt (Fin 0) y" for x y
    using that by (cases x; cases y) (auto simp: f_lt_def f_min_def)
  have tm: "f_nonneg (f_div (f_mul x (Fin (f_int n))) (Fin (f_int Second)))" if "f_lt (Fin 0) x" "0 < n" for x n
    using f_div_sec_nonneg [OF f_mul_pos_ge1 [OF that(1) f_le_int [OF that(2)]]] by simp
  show ?thesis
    unfolding duplex_cap_def Let_def
    using two mn tm f_div_sec_nonneg
    by (auto intro!: f_add_nonneg f_min_nonneg simp: f_int_nonneg)
qed

section \<open>The redial interval\<close>

lemma rnd_le: "1 / 2 \<le> x \<Longrightarrow> rnd x \<le> x * (1 + 1 / 2 ^ 53)"
  and rnd_ge: "1 / 2 \<le> x \<Longrightarrow> x * (1 - 1 / 2 ^ 53) \<le> rnd x"
proof -
  assume "1 / 2 \<le> x"
  moreover have "(2::rat) powi (- 1022) \<le> 2 powi (- 1)" by (rule powi_mono) simp
  ultimately have "\<bar>rnd x - x\<bar> \<le> x / 2 ^ 53" using rnd_err [of x] by (simp add: power_int_minus)
  then have "rnd x - x \<le> x / 2 ^ 53" "x - rnd x \<le> x / 2 ^ 53" by linarith+
  then show "rnd x \<le> x * (1 + 1 / 2 ^ 53)" "x * (1 - 1 / 2 ^ 53) \<le> rnd x"
    by (simp_all only: distrib_left right_diff_distrib mult_1_right times_divide_eq_right)
qed

definition jitter :: "rat \<Rightarrow> rat" where
  "jitter u = rnd (rnd (4 / 5) + rnd (rnd (2 / 5) * u))"

lemma rnd_4_5: "rnd (4 / 5) = 3602879701896397 / 4503599627370496" by code_simp
lemma rnd_2_5: "rnd (2 / 5) = 3602879701896397 / 9007199254740992" by code_simp
lemma jitter_0: "jitter 0 = 3602879701896397 / 4503599627370496" by code_simp
lemma jitter_1: "jitter 1 = 2702159776422298 / 2251799813685248" by code_simp

lemma jitter_mono: "u \<le> v \<Longrightarrow> jitter u \<le> jitter v"
  unfolding jitter_def rnd_2_5 by (intro rnd_mono add_left_mono mult_left_mono) auto

lemma jitter_bounds:
  assumes "0 \<le> u" and "u \<le> 1"
  shows "4 / 5 \<le> jitter u" and "jitter u \<le> 6 / 5 * (1 + 1 / 2 ^ 52)"
  using jitter_mono [OF assms(1)] jitter_mono [OF assms(2)] by (simp_all add: jitter_0 jitter_1)


lemma backoff_cap_eq:
  "backoff_cap n mx = (let d = 500000000 * 2 ^ nat (min 32 (max 0 n)) in if 0 < mx then min mx d else d)"
proof -
  let ?k = "nat (min 32 (max 0 n))"
  have "(2::int) ^ ?k \<le> 2 ^ 32" by (rule power_increasing) auto
  moreover have "(0::int) < 2 ^ ?k" by simp
  moreover have "i64 (500000000 * p)" if "p \<le> 2 ^ 32" "0 < p" for p using that by (simp add: i64_def)
  ultimately have "i64 (500000000 * 2 ^ ?k)" by blast
  moreover have "(if n < 0 then 0 else if n > maxBackoffShift then maxBackoffShift else n) = min 32 (max 0 n)" by simp
  ultimately show ?thesis
    by (simp add: backoff_cap_def Let_def push_bit_eq_mult min_def)
qed

lemma backoff_cap_range: "0 < backoff_cap n mx" "backoff_cap n mx \<le> 500000000 * 2 ^ 32"
proof -
  have "(2::int) ^ nat (min 32 (max 0 n)) \<le> 2 ^ 32" by (rule power_increasing) auto
  then show "0 < backoff_cap n mx" "backoff_cap n mx \<le> 500000000 * 2 ^ 32"
    by (auto simp: backoff_cap_eq Let_def min_def)
qed

lemma backoff_cap_mono: "n \<le> m \<Longrightarrow> backoff_cap n mx \<le> backoff_cap m mx"
proof -
  assume "n \<le> m"
  then have "(500000000::int) * 2 ^ nat (min 32 (max 0 n)) \<le> 500000000 * 2 ^ nat (min 32 (max 0 m))"
    by (intro mult_left_mono power_increasing nat_mono) auto
  then show ?thesis unfolding backoff_cap_eq Let_def by (auto simp only: min.mono order_refl split: if_split)
qed

text \<open>The jitter factor's \<open>u\<close> after the clamp.\<close>

definition unit_of :: "f64 \<Rightarrow> rat" where
  "unit_of u = (case u of Fin r \<Rightarrow> max 0 (min 1 r) | PInf \<Rightarrow> 1 | _ \<Rightarrow> 0)"

lemma unit_of_range: "0 \<le> unit_of u" "unit_of u \<le> 1"
  by (auto simp: unit_of_def split: f64.split)

lemma unit_clamp: "(if \<not> f_le (Fin 0) u then Fin 0 else if f_lt (Fin 1) u then Fin 1 else u) = Fin (unit_of u)"
  by (cases u) (auto simp: unit_of_def f_lt_def max_def min_def)

lemma jitter_fin:
  assumes "0 \<le> u" and "u \<le> 1"
  shows "f_add (Fin (rnd (4 / 5))) (f_mul (Fin (rnd (2 / 5))) (Fin u)) = Fin (jitter u)"
proof -
  have p: "(2::rat) powi 1 \<le> 2 powi 1000" by (rule powi_mono) simp
  have a: "0 \<le> rnd (2 / 5) * u" "rnd (2 / 5) * u \<le> 1 * 1"
    using assms unfolding rnd_2_5 by (auto intro!: mult_mono)
  then have m: "f_mul (Fin (rnd (2 / 5))) (Fin u) = Fin (rnd (rnd (2 / 5) * u))"
    using p by (simp add: f_of_Fin)
  have "0 \<le> rnd (rnd (2 / 5) * u)" "rnd (rnd (2 / 5) * u) \<le> 1"
    using a rnd_mono [OF a(2)] rnd_of_int [of 1] by (auto intro: rnd_nonneg)
  then show ?thesis
    unfolding m jitter_def using p by (simp add: f_of_Fin rnd_4_5)
qed

lemma Backoff_eq: "Backoff n mx u = \<lfloor>rnd (f_int (backoff_cap n mx) * jitter (unit_of u))\<rfloor>"
  and Backoff_arg: "f_int (backoff_cap n mx) * jitter (unit_of u) \<le> 2 ^ 62"
proof -
  let ?d = "backoff_cap n mx" and ?j = "jitter (unit_of u)"
  have d: "1 \<le> ?d" "?d \<le> 2 ^ 61" using backoff_cap_range [of n mx] by auto
  have j: "4 / 5 \<le> ?j" "?j \<le> 2"
    using jitter_bounds [OF unit_of_range [of u]] by (auto elim: order_trans)
  have "rnd (of_int ?d) \<le> rnd (2 powi 61)" using d(2) by (intro rnd_mono) (simp add: of_int_le_numeral_iff)
  then have f: "f_int ?d \<le> 2 ^ 61" "0 \<le> f_int ?d"
    using d(1) rnd_powi [of 61] by (auto simp: f_int_def rnd_nonneg)
  have "f_int ?d * ?j \<le> 2 ^ 61 * 2" using f j by (intro mult_mono) auto
  then show le: "f_int ?d * ?j \<le> 2 ^ 62" by simp
  have ge: "0 \<le> f_int ?d * ?j" using f j by simp
  have r: "rnd (f_int ?d * ?j) \<le> 2 ^ 62"
    using rnd_mono [OF le] rnd_powi [of 62] by simp
  have "(2::rat) powi 62 \<le> 2 powi 1000" by (rule powi_mono) simp
  then have m: "f_mul (Fin (f_int ?d)) (Fin ?j) = Fin (rnd (f_int ?d * ?j))"
    using le ge by (simp add: f_of_Fin)
  have "0 \<le> rnd (f_int ?d * ?j)" using ge by (rule rnd_nonneg)
  moreover have "\<lfloor>rnd (f_int ?d * ?j)\<rfloor> \<le> 2 ^ 62" using r by (simp add: floor_le_iff)
  ultimately have "f_trunc (Fin (rnd (f_int ?d * ?j))) = \<lfloor>rnd (f_int ?d * ?j)\<rfloor>"
    by (simp add: rat_trunc_def i64_def)
  then show "Backoff n mx u = \<lfloor>rnd (f_int ?d * ?j)\<rfloor>"
    unfolding Backoff_def Let_def unit_clamp jitter_fin [OF unit_of_range] m by simp
qed

lemma Backoff_mono: "n \<le> m \<Longrightarrow> Backoff n mx u \<le> Backoff m mx u"
proof -
  assume "n \<le> m"
  then have "f_int (backoff_cap n mx) \<le> f_int (backoff_cap m mx)"
    unfolding f_int_def by (intro rnd_mono) (simp add: backoff_cap_mono)
  moreover have "0 \<le> jitter (unit_of u)" using jitter_bounds(1) [OF unit_of_range [of u]] by simp
  ultimately show ?thesis unfolding Backoff_eq by (intro floor_mono rnd_mono mult_right_mono)
qed

lemma Backoff_near:
  defines "e \<equiv> 1 / (2::rat) ^ 50"
  shows "of_int (Backoff n mx u) \<le> of_int (backoff_cap n mx) * (6 / 5) * (1 + e)"
    and "of_int (backoff_cap n mx) * (4 / 5) * (1 - e) < of_int (Backoff n mx u) + (1::rat)"
proof -
  let ?d = "of_int (backoff_cap n mx) :: rat" and ?j = "jitter (unit_of u)"
  let ?x = "f_int (backoff_cap n mx) * ?j" and ?r = "1 / (2::rat) ^ 53"
  have d: "1 \<le> ?d" using backoff_cap_range [of n mx] by simp
  have f: "?d * (1 - ?r) \<le> f_int (backoff_cap n mx)" "f_int (backoff_cap n mx) \<le> ?d * (1 + ?r)"
    using d rnd_le [of ?d] rnd_ge [of ?d] unfolding f_int_def by linarith+
  have j: "4 / 5 \<le> ?j" "?j \<le> 6 / 5 * (1 + 2 * ?r)" using jitter_bounds [OF unit_of_range [of u]] by auto
  have lo: "?d * (1 - ?r) * (4 / 5) \<le> ?x" using f(1) j(1) d by (intro mult_mono) auto
  have hi: "?x \<le> ?d * (1 + ?r) * (6 / 5 * (1 + 2 * ?r))"
    using f j d by (intro mult_mono) (auto intro: order_trans [OF _ f(1)])
  have half: "1 / 2 \<le> ?x" using lo d by simp
  have b: "of_int (Backoff n mx u) \<le> rnd ?x" "rnd ?x < of_int (Backoff n mx u) + 1"
    unfolding Backoff_eq by linarith+
  have "rnd ?x \<le> ?x * (1 + ?r)" using half by (rule rnd_le)
  also have "\<dots> \<le> ?d * (1 + ?r) * (6 / 5 * (1 + 2 * ?r)) * (1 + ?r)" using hi by (rule mult_right_mono) simp
  also have "\<dots> \<le> ?d * (6 / 5) * (1 + e)" using d unfolding e_def by simp
  finally show "of_int (Backoff n mx u) \<le> ?d * (6 / 5) * (1 + e)" using b(1) by linarith
  have "?d * (4 / 5) * (1 - e) \<le> ?d * (1 - ?r) * (4 / 5) * (1 - ?r)" using d unfolding e_def by simp
  also have "\<dots> \<le> ?x * (1 - ?r)" using lo by (rule mult_right_mono) simp
  also have "\<dots> \<le> rnd ?x" using half by (rule rnd_ge)
  finally show "?d * (4 / 5) * (1 - e) < of_int (Backoff n mx u) + 1" using b(2) by linarith
qed

section \<open>The advertised window\<close>

definition adv_share :: "rat \<Rightarrow> rat \<Rightarrow> rat" where
  "adv_share W q = rnd (rnd (W * rnd (1 - q)) / (1 / 4))"

lemma rnd_quarter: "rnd (1 / 4) = 1 / 4" by code_simp
lemma rnd_below_1: "rnd (1 - 1 / 2 ^ 53) = 1 - 1 / 2 ^ 53" by code_simp
lemma rnd_3_4: "rnd (3 / 4) = 3 / 4" by code_simp

lemma adv_share_mono: "0 \<le> W \<Longrightarrow> q \<le> q' \<Longrightarrow> adv_share W q' \<le> adv_share W q"
  unfolding adv_share_def by (intro rnd_mono divide_right_mono mult_left_mono) auto

lemma adv_share_fin:
  assumes W: "0 \<le> W" "W \<le> 2 ^ 62" and q: "3 / 4 < q" "q < 1"
  shows "f_trunc (f_div (f_mul (Fin W) (f_sub (Fin 1) (Fin q))) (Fin (1 / 4))) = \<lfloor>adv_share W q\<rfloor>"
    and "0 \<le> adv_share W q" "adv_share W q \<le> 2 ^ 62"
proof -
  have p: "(2::rat) powi 62 \<le> 2 powi 1000" "(2::rat) powi 0 \<le> 2 powi 1000" by (rule powi_mono; simp)+
  have s: "f_sub (Fin 1) (Fin q) = Fin (rnd (1 - q))" using q p(2) by (simp add: f_sub_def f_of_Fin)
  have r: "0 \<le> rnd (1 - q)" "rnd (1 - q) \<le> 1 / 4"
    using q rnd_mono [of "1 - q" "1 / 4"] by (auto simp: rnd_quarter intro: rnd_nonneg)
  have m: "0 \<le> W * rnd (1 - q)" "W * rnd (1 - q) \<le> 2 ^ 62 * (1 / 4)"
    using W r by (simp, intro mult_mono) auto
  have m2: "0 \<le> rnd (W * rnd (1 - q))" "rnd (W * rnd (1 - q)) \<le> 2 ^ 60"
    using m(1) rnd_mono [OF m(2)] rnd_powi [of 60] by (auto intro: rnd_nonneg)
  have d: "0 \<le> rnd (W * rnd (1 - q)) / (1 / 4)" "rnd (W * rnd (1 - q)) / (1 / 4) \<le> 2 ^ 62"
    using m2 by auto
  show a: "0 \<le> adv_share W q" "adv_share W q \<le> 2 ^ 62"
    unfolding adv_share_def using d(1) rnd_mono [OF d(2)] rnd_powi [of 62] by (auto intro: rnd_nonneg)
  have "f_mul (Fin W) (Fin (rnd (1 - q))) = Fin (rnd (W * rnd (1 - q)))"
    using m p(1) by (simp add: f_of_Fin)
  then have "f_div (f_mul (Fin W) (f_sub (Fin 1) (Fin q))) (Fin (1 / 4)) = Fin (adv_share W q)"
    using d p(1) unfolding s adv_share_def by (simp add: f_of_Fin)
  moreover have "\<lfloor>adv_share W q\<rfloor> \<le> 2 ^ 62" using a(2) by (simp add: floor_le_iff)
  ultimately show "f_trunc (f_div (f_mul (Fin W) (f_sub (Fin 1) (Fin q))) (Fin (1 / 4))) = \<lfloor>adv_share W q\<rfloor>"
    using a(1) by (simp add: rat_trunc_def i64_def)
qed

text \<open>The window as a function of the exact quotient \<open>used / max\<close>.\<close>

definition adv_of :: "int \<Rightarrow> rat \<Rightarrow> int" where
  "adv_of window q =
     (if q \<le> 3 / 4 then window else if 1 \<le> q then 0
      else min window (max minAdvertise \<lfloor>adv_share (f_int window) q\<rfloor>))"

lemma AdvertiseWindow_eq:
  assumes "0 < window" "window \<le> 2 ^ 62" "0 < mx" "mx \<le> 2 ^ 53" "0 \<le> used" "used \<le> 2 ^ 53"
  shows "AdvertiseWindow window used mx = adv_of window (rnd (of_int used / of_int mx))"
proof -
  have "rnd (of_int window) \<le> rnd (2 powi 62)" using assms(2) by (intro rnd_mono) (simp add: of_int_le_numeral_iff)
  then have W: "0 \<le> f_int window" "f_int window \<le> 2 ^ 62"
    using assms(1) rnd_powi [of 62] by (auto simp: f_int_def rnd_nonneg)
  have q: "(of_int used :: rat) / of_int mx \<le> of_int used / 1" "0 \<le> (of_int used :: rat) / of_int mx"
    using assms(3,5) by (intro divide_left_mono, auto)
  have "(of_int used :: rat) \<le> 2 powi 53" using assms(6) by (simp add: of_int_le_numeral_iff)
  also have "(2::rat) powi 53 \<le> 2 powi 1000" by (rule powi_mono) simp
  finally have "\<bar>(of_int used :: rat) / of_int mx\<bar> \<le> 2 powi 1000" using q by linarith
  then have u: "f_div (Fin (f_int used)) (Fin (f_int mx)) = Fin (rnd (of_int used / of_int mx))"
    using assms(3-6) by (simp add: f_int_small f_of_Fin)
  define q where "q = rnd (of_int used / of_int mx)"
  define t where "t = f_trunc (f_div (f_mul (Fin (f_int window)) (f_sub (Fin 1) (Fin q))) (Fin (1 / 4)))"
  have "t = \<lfloor>adv_share (f_int window) q\<rfloor>" if "\<not> q \<le> 3 / 4" "\<not> 1 \<le> q"
    unfolding t_def using that by (intro adv_share_fin(1) [OF W]) auto
  moreover have "AdvertiseWindow window used mx =
      (if q \<le> 3 / 4 then window else if 1 \<le> q then 0 else min window (max minAdvertise t))"
    using assms(1,3) unfolding AdvertiseWindow_def u q_def [symmetric] Let_def t_def [symmetric]
    by simp
  ultimately show ?thesis unfolding adv_of_def q_def [symmetric] by auto
qed

lemma adv_of_mono:
  assumes "0 \<le> window" and "q \<le> q'"
  shows "adv_of window q' \<le> adv_of window q"
proof -
  have "\<lfloor>adv_share (f_int window) q'\<rfloor> \<le> \<lfloor>adv_share (f_int window) q\<rfloor>"
    by (intro floor_mono adv_share_mono f_int_nonneg assms)
  then have "min window (max minAdvertise \<lfloor>adv_share (f_int window) q'\<rfloor>)
      \<le> min window (max minAdvertise \<lfloor>adv_share (f_int window) q\<rfloor>)"
    by (intro min.mono max.mono order_refl)
  then show ?thesis
    using assms unfolding adv_of_def by (simp del: minAdvertise_def) (simp add: le_max_iff_disj)
qed

section \<open>Accuracy of the estimates\<close>

text \<open>The documented formulas in exact arithmetic. A rate that is unknown (zero, negative or NaN) or infinite
  contributes no transmission time.\<close>

definition est_exact :: "rat \<Rightarrow> duration \<Rightarrow> int \<Rightarrow> f64 \<Rightarrow> rat" where
  "est_exact k srtt bytes rate =
     k * of_int (max 0 srtt) +
     (case rate of Fin r \<Rightarrow> if 0 < bytes \<and> 0 < r then of_int bytes / r * 10 ^ 9 else 0 | _ \<Rightarrow> 0)"

definition cap_exact :: "rat \<Rightarrow> duration \<Rightarrow> duration \<Rightarrow> f64 \<Rightarrow> duration \<Rightarrow> duration \<Rightarrow> int \<Rightarrow> rat" where
  "cap_exact r minRTT pingBusy revRate rv lag batch =
     2 * r * of_int ((if minRTT \<le> 0 then capUnknownRTT else minRTT) + max 0 pingBusy + capSlack) / 10 ^ 9 +
     (if f_lt (Fin 0) revRate
      then (if 0 < rv then (case revRate of Fin q \<Rightarrow> min q r | _ \<Rightarrow> r) * of_int rv / 10 ^ 9 else 0) +
           (if 0 < lag \<and> 0 < batch then min (r * of_int lag / 10 ^ 9) (of_int batch) else 0)
      else 0)"

definition clampq :: "rat \<Rightarrow> int \<Rightarrow> int \<Rightarrow> int" where
  "clampq x mn mx = min mx (max mn \<lfloor>x\<rfloor>)"

text \<open>\<open>v\<close> is the clamped exact value up to a relative error of \<open>2 ^ - 48\<close> (and \<open>2 ^ - 48\<close> of a unit).\<close>

definition near_clamp :: "rat \<Rightarrow> int \<Rightarrow> int \<Rightarrow> int \<Rightarrow> bool" where
  "near_clamp E mn mx v \<longleftrightarrow>
     clampq (E * (1 - 1 / 2 ^ 48) - 1 / 2 ^ 48) mn mx \<le> v \<and> v \<le> clampq (E * (1 + 1 / 2 ^ 48) + 1 / 2 ^ 48) mn mx"

lemma clampq_mono: "x \<le> y \<Longrightarrow> clampq x mn mx \<le> clampq y mn mx"
  unfolding clampq_def by (intro min.mono max.mono floor_mono order_refl)

lemma clampq_top: "of_int mx \<le> x \<Longrightarrow> clampq x mn mx = mx"
  unfolding clampq_def le_floor_iff [symmetric] by (simp add: le_max_iff_disj)

lemma clampq_le: "clampq x mn mx \<le> mx"
  by (simp add: clampq_def)

lemma huge_ge: "2 ^ 100 \<le> huge / 10 ^ 9"
proof -
  have "(2::rat) powi 130 \<le> huge" unfolding huge_def by (rule powi_mono) simp
  then show ?thesis by simp
qed

lemma clampNs_near:
  assumes d: "apx T n m d E" and mx: "mx \<le> MaxInt64" and T: "2 ^ 100 \<le> T" and n: "0 \<le> n" "n \<le> 15" and m: "0 \<le> m" "m \<le> 2 ^ 900"
  shows "near_clamp E mn mx (clampNs d mn mx)"
proof -
  let ?hi = "E * (1 + 1 / 2 ^ 48) + 1 / 2 ^ 48" and ?lo = "E * (1 - 1 / 2 ^ 48) - 1 / 2 ^ 48"
  have E: "0 \<le> E" using d by (simp add: apx_def)
  have mt: "m * tiny \<le> 1 / 2 ^ 60" using m by (rule tiny_small)
  have nE: "n / 2 ^ 52 * E \<le> 15 / 2 ^ 52 * E" using n E by (intro mult_right_mono divide_right_mono) simp_all
  have top: "near_clamp E mn mx mx" if "of_int mx \<le> ?hi"
    using that clampq_top [of mx ?hi mn] clampq_le by (simp add: near_clamp_def)
  show ?thesis
  proof (use d in \<open>cases rule: apx_cases\<close>)
    case (1 x)
    have x: "x \<le> E * (1 + 15 / 2 ^ 52) + 1 / 2 ^ 60" "E * (1 - 15 / 2 ^ 52) - 1 / 2 ^ 60 \<le> x"
      using 1(4) mt nE by (simp_all add: abs_le_iff distrib_left right_diff_distrib)
    show ?thesis
    proof (cases "f_le (Fin (f_int mx)) d")
      case True
      have "of_int mx \<le> ?hi"
      proof (cases "0 < mx")
        case pos: True
        then have "of_int mx * (1 - 1 / 2 ^ 53) \<le> f_int mx" unfolding f_int_def by (intro rnd_ge) simp
        then have "of_int mx * (1 - 1 / 2 ^ 53) \<le> E * (1 + 15 / 2 ^ 52) + 1 / 2 ^ 60" using True 1(1) x(1) by simp
        then show ?thesis using E by simp
      next
        case False
        then have "of_int mx \<le> (0::rat)" by simp
        also have "\<dots> \<le> ?hi" using E by simp
        finally show ?thesis .
      qed
      then show ?thesis using True top by (simp add: clampNs_def)
    next
      case False
      have "f_le (Fin 0) d" using 1 by simp
      then obtain x' where x': "d = Fin x'" "f_trunc d = \<lfloor>x'\<rfloor>" using trunc_below [OF _ False mx] by blast
      then have "clampNs d mn mx = clampq x mn mx"
        using False 1(1) by (auto simp: clampNs_def clampq_def Let_def min_def max_def)
      moreover have "?lo \<le> x" "x \<le> ?hi" using x E by simp_all
      ultimately show ?thesis by (simp add: near_clamp_def clampq_mono)
    qed
  next
    case 2
    have "of_int mx \<le> (2 ^ 100 :: rat)" using mx by (simp add: of_int_le_numeral_iff)
    also have "\<dots> \<le> E" using T 2 by simp
    also have "\<dots> \<le> ?hi" using E by simp
    finally show ?thesis using top 2 by (simp add: clampNs_def)
  qed
qed

lemma sec_apx: "apx T 0 0 (Fin 1000000000) 1000000000"
  by (rule apx_exact) simp_all

lemma of_int_64: "n \<le> MaxInt64 \<Longrightarrow> (of_int n :: rat) \<le> 2 ^ 63"
  by (simp add: of_int_le_numeral_iff)

lemma huge_ge0: "(0::rat) \<le> huge"
  unfolding huge_def by (rule less_imp_le) simp

lemma estimate_apx:
  assumes k: "0 \<le> k" and "srtt \<le> MaxInt64"
  shows "apx huge 6 (2 * (1 + (2 ^ 68 + 1)) + 1) (estimateNs k srtt bytes rate) (est_exact k srtt bytes rate)"
proof -
  let ?d = "if srtt > 0 then f_mul (Fin k) (Fin (f_int srtt)) else Fin 0"
  have "apx huge (0 + 1 + 3) (0 * 2 ^ 68 + 1) (f_mul (Fin k) (Fin (f_int srtt))) (k * of_int srtt)" if "srtt > 0"
    using that k assms(2) of_int_64 [OF assms(2)] apx_int [of srtt]
    by (intro apx_mul [OF apx_exact apx_int]) (simp_all add: huge_ge0)
  then have "apx huge 4 1 ?d (k * of_int (max 0 srtt))" by (auto simp: apx_exact max_def)
  then have d: "apx huge 5 1 ?d (k * of_int (max 0 srtt))" by (rule apx_weaken) simp_all
  show ?thesis
  proof (cases "bytes > 0 \<and> f_lt (Fin 0) rate")
    case False
    then have "est_exact k srtt bytes rate = k * of_int (max 0 srtt)"
      by (auto simp: est_exact_def f_lt_def split: f64.split)
    moreover have "apx huge 6 (2 * (1 + (2 ^ 68 + 1)) + 1) ?d (k * of_int (max 0 srtt))"
      using d by (rule apx_weaken) simp_all
    ultimately show ?thesis using False by (auto simp: estimateNs_def Let_def)
  next
    case True
    let ?q = "case rate of Fin r \<Rightarrow> of_int bytes / r | _ \<Rightarrow> 0"
    have "apx huge 2 1 (f_div (Fin (f_int bytes)) rate) ?q"
    proof (cases rate)
      case (Fin r)
      then have r: "0 < r" using True by (auto simp: f_lt_def)
      have "\<bar>f_int bytes - of_int bytes\<bar> / r \<le> 1 / 2 ^ 52 * of_int bytes / r"
        using apx_int [of bytes huge] True r by (intro divide_right_mono) (simp_all add: apx_Fin)
      then have "\<bar>f_int bytes / r - of_int bytes / r\<bar> \<le> 1 / 2 ^ 52 * (of_int bytes / r) + 0 * tiny"
        using r by (simp add: diff_divide_distrib [symmetric])
      then have "apx huge (1 + 1) (2 * 0 + 1) (f_of (f_int bytes / r)) (of_int bytes / r)"
        using True r f_int_nonneg [of bytes] by (intro apx_round) simp_all
      then show ?thesis using Fin r by simp
    qed (use True in \<open>auto simp: f_lt_def apx_Fin\<close>)
    then have "apx huge (2 + 0 + 3) (1 * 2 ^ 68 + 1) (f_mul (f_div (Fin (f_int bytes)) rate) (Fin 1000000000)) (?q * 1000000000)"
      using sec_apx by (rule apx_mul) (simp_all add: huge_ge0)
    then have "apx huge (5 + 1) (2 * (1 + (1 * 2 ^ 68 + 1)) + 1)
        (f_add ?d (f_mul (f_div (Fin (f_int bytes)) rate) (Fin 1000000000)))
        (k * of_int (max 0 srtt) + ?q * 1000000000)"
      using d by (intro apx_add) simp_all
    moreover have "est_exact k srtt bytes rate = k * of_int (max 0 srtt) + ?q * 1000000000"
      using True by (auto simp: est_exact_def f_lt_def split: f64.split)
    ultimately show ?thesis using True by (simp add: estimateNs_def Let_def)
  qed
qed

abbreviation T_cap :: rat where
  "T_cap \<equiv> huge / 1000000000"

lemma T_cap_le: "T_cap \<le> huge"
  using divide_left_mono [of 1 1000000000 huge] huge_ge0 by simp

text \<open>The bytes a rate carries in a time.\<close>

lemma carry_apx:
  assumes "0 < q" and "0 < k" "k \<le> MaxInt64"
  shows "apx T_cap 5 3 (f_div (f_mul (Fin q) (Fin (f_int k))) (Fin 1000000000)) (q * of_int k / 1000000000)"
proof -
  have "apx huge (0 + 1 + 3) (0 * 2 ^ 68 + 1) (f_mul (Fin q) (Fin (f_int k))) (q * of_int k)"
    using assms of_int_64 [OF assms(3)]
    by (intro apx_mul [OF apx_exact apx_int]) (simp_all add: huge_ge0)
  then have "apx T_cap ((0 + 1 + 3) + 1) (2 * (0 * 2 ^ 68 + 1) + 1)
      (f_div (f_mul (Fin q) (Fin (f_int k))) (Fin 1000000000)) (q * of_int k / 1000000000)"
    by (rule apx_div) (simp_all add: huge_ge0)
  then show ?thesis by simp
qed

lemma carry_min_apx:
  assumes "0 < q" and "0 < k" "k \<le> MaxInt64" and "0 < b" "b \<le> MaxInt64"
  shows "apx T_cap 5 3 (f_min (f_div (f_mul (Fin q) (Fin (f_int k))) (Fin 1000000000)) (Fin (f_int b)))
    (min (q * of_int k / 1000000000) (of_int b))"
proof (rule apx_min [OF carry_apx [OF assms(1-3)]])
  show "apx T_cap 5 3 (Fin (f_int b)) (of_int b)"
    using assms(4) by (intro apx_weaken [OF apx_int [of b T_cap]]) simp_all
  have "of_int b \<le> (2 ^ 100 :: rat)" using of_int_64 [OF assms(5)] by (rule order_trans) simp
  then show "of_int b \<le> T_cap" using huge_ge by simp
qed simp_all

lemma round_trip_apx:
  assumes "0 < r" and "0 < a" "a \<le> MaxInt64" and "0 \<le> b" "b \<le> MaxInt64"
  shows "apx T_cap 8 (2 ^ 70)
    (f_div (f_mul (f_mul (Fin 2) (Fin r))
      (f_add (f_add (Fin (f_int a)) (Fin (f_int b))) (Fin (f_int capSlack)))) (Fin 1000000000))
    (2 * r * of_int (a + b + capSlack) / 1000000000)"
proof -
  let ?s = "f_add (f_add (Fin (f_int a)) (Fin (f_int b))) (Fin (f_int capSlack))"
  let ?E = "of_int a + of_int b + of_int capSlack :: rat"
  have "apx huge (1 + 1) (2 * (0 + 0) + 1) (f_add (Fin (f_int a)) (Fin (f_int b))) (of_int a + of_int b)"
    using assms by (intro apx_add apx_int) simp_all
  moreover have "apx huge (1 + 1) 0 (Fin (f_int capSlack)) (of_int capSlack)"
    by (rule apx_weaken [OF apx_int [of capSlack huge]]) simp_all
  ultimately have "apx huge ((1 + 1) + 1) (2 * ((2 * (0 + 0) + 1) + 0) + 1) ?s ?E"
    by (rule apx_add) simp_all
  then have s: "apx huge 3 3 ?s ?E" by simp
  have E: "1 \<le> ?E" "?E \<le> 2 ^ 66" using assms of_int_64 [OF assms(3)] of_int_64 [OF assms(5)] by simp_all
  have "?E < huge" using E(2) huge_ge by simp
  then obtain y where y: "?s = Fin y" using apx_finite [OF s] by blast
  have "apx huge (0 + 1) (2 * 0 + 1) (f_of (2 * r)) (2 * r)" using assms(1) by (intro apx_round) simp_all
  then have "apx huge (0 + 1 + 3 + 3) ((2 * 0 + 1) * 2 ^ 68 + 1) (f_mul (f_of (2 * r)) (Fin y)) (2 * r * ?E)"
    using s E unfolding y by (rule apx_mul) (simp_all add: huge_ge0)
  then have "apx T_cap ((0 + 1 + 3 + 3) + 1) (2 * ((2 * 0 + 1) * 2 ^ 68 + 1) + 1)
      (f_div (f_mul (f_of (2 * r)) (Fin y)) (Fin 1000000000)) (2 * r * ?E / 1000000000)"
    by (rule apx_div) (simp_all add: huge_ge0)
  then have "apx T_cap 8 (2 ^ 70) (f_div (f_mul (f_of (2 * r)) (Fin y)) (Fin 1000000000)) (2 * r * ?E / 1000000000)"
    by (rule apx_weaken) simp_all
  then show ?thesis by (simp only: y f_mul.simps of_int_add)
qed

lemma apx_add_carry:
  assumes "apx T_cap n (2 ^ k) c E" and "apx T_cap 5 3 t F" and "5 \<le> n" "n \<le> 20" and "3 \<le> k" "k \<le> 100"
  shows "apx T_cap (n + 1) (2 ^ (k + 2)) (f_add c t) (E + F)"
proof -
  have k: "(2::rat) ^ 3 \<le> 2 ^ k" "(2::rat) ^ k \<le> 2 ^ 800" by (rule power_increasing; use assms in simp)+
  have "apx T_cap n 3 t F" using assms(2) by (rule apx_weaken) (use assms in simp_all)
  with assms(1) have "apx T_cap (n + 1) (2 * (2 ^ k + 3) + 1) (f_add c t) (E + F)"
    by (rule apx_add) (use assms k T_cap_le in simp_all)
  then show ?thesis by (rule apx_weaken) (use k in simp_all)
qed

lemma duplex_cap_apx:
  assumes r: "0 < r" and i: "minRTT \<le> MaxInt64" "pingBusy \<le> MaxInt64" "rv \<le> MaxInt64" "lag \<le> MaxInt64" "batch \<le> MaxInt64"
  shows "apx T_cap 10 (2 ^ 74) (duplex_cap (Fin r) minRTT pingBusy revRate rv lag batch)
    (cap_exact r minRTT pingBusy revRate rv lag batch)"
proof -
  let ?m = "if minRTT \<le> 0 then capUnknownRTT else minRTT" and ?p = "if pingBusy < 0 then 0 else pingBusy"
  define c where "c = f_div (f_mul (f_mul (Fin 2) (Fin r))
      (f_add (f_add (Fin (f_int ?m)) (Fin (f_int ?p))) (Fin (f_int capSlack)))) (Fin 1000000000)"
  define C where "C = 2 * r * of_int (?m + ?p + capSlack) / 1000000000"
  have c: "apx T_cap 8 (2 ^ 70) c C"
    unfolding c_def C_def by (rule round_trip_apx) (use r i in auto)
  define q where "q = (case revRate of Fin q \<Rightarrow> min q r | _ \<Rightarrow> r)"
  have lt: "f_lt (Fin 0) (Fin r)" using r by (simp add: f_lt_def)
  have pm: "max 0 pingBusy = ?p" by auto
  show ?thesis
  proof (cases "f_lt (Fin 0) revRate")
    case False
    then have "cap_exact r minRTT pingBusy revRate rv lag batch = C" unfolding cap_exact_def C_def pm by simp
    moreover have "duplex_cap (Fin r) minRTT pingBusy revRate rv lag batch = c"
      using False lt unfolding duplex_cap_def Let_def c_def by simp
    ultimately show ?thesis using apx_weaken [OF c] by simp
  next
    case True
    have q: "0 < q" "f_min revRate (Fin r) = Fin q"
      using True r by (auto simp: q_def f_lt_def f_min_def min_def split: f64.splits)
    define c2 where "c2 = (if rv > 0 then f_add c (f_div (f_mul (Fin q) (Fin (f_int rv))) (Fin 1000000000)) else c)"
    define C2 where "C2 = C + (if rv > 0 then q * of_int rv / 1000000000 else 0)"
    have c2: "apx T_cap (8 + 1) (2 ^ (70 + 2)) c2 C2"
      using apx_add_carry [OF c carry_apx [OF q(1) _ i(3)]] apx_weaken [OF c] by (simp add: c2_def C2_def)
    define c3 where "c3 = (if lag > 0 \<and> batch > 0
        then f_add c2 (f_min (f_div (f_mul (Fin r) (Fin (f_int lag))) (Fin 1000000000)) (Fin (f_int batch))) else c2)"
    define C3 where "C3 = C2 + (if lag > 0 \<and> batch > 0 then min (r * of_int lag / 1000000000) (of_int batch) else 0)"
    have "apx T_cap (8 + 1 + 1) (2 ^ (70 + 2 + 2)) c3 C3"
      using apx_add_carry [OF c2 carry_min_apx [OF r _ i(4) _ i(5)]] apx_weaken [OF c2] by (simp add: c3_def C3_def)
    moreover have "cap_exact r minRTT pingBusy revRate rv lag batch = C3"
      using True unfolding cap_exact_def C3_def C2_def C_def q_def pm by simp
    moreover have "duplex_cap (Fin r) minRTT pingBusy revRate rv lag batch = c3"
      using True lt q(2) unfolding duplex_cap_def Let_def c3_def c2_def c_def by simp
    ultimately show ?thesis by simp
  qed
qed

lemma CapacityDuplex_clamp:
  "CapacityDuplex rate minRTT pingBusy revRate rv lag batch flr ceil =
     clampNs (duplex_cap rate minRTT pingBusy revRate rv lag batch) flr ceil"
  by (simp add: CapacityDuplex_def clampNs_def Let_def)

lemma clampNs_0: "clampNs (Fin 0) mn mx = clampq 0 mn mx"
proof (cases "0 < mx")
  case True
  then show ?thesis using f_int_pos [OF True]
    by (auto simp: clampNs_def clampq_def rat_trunc_def i64_def min_def max_def)
next
  case False
  then have "f_int mx \<le> 0" using f_int_mono [of mx 0] f_int_small [of 0] by simp
  then show ?thesis using False by (simp add: clampNs_def clampq_def min_def max_def)
qed

lemma duplex_cap_unknown:
  "\<not> f_lt (Fin 0) rate \<Longrightarrow> duplex_cap rate minRTT pingBusy revRate rv lag batch = Fin 0"
  by (simp add: duplex_cap_def Let_def)

lemma duplex_cap_PInf:
  assumes "minRTT \<le> MaxInt64" and "pingBusy \<le> MaxInt64"
  shows "duplex_cap PInf minRTT pingBusy revRate rv lag batch = PInf"
proof -
  let ?m = "if minRTT \<le> 0 then capUnknownRTT else minRTT" and ?p = "if pingBusy < 0 then 0 else pingBusy"
  let ?s = "f_add (f_add (Fin (f_int ?m)) (Fin (f_int ?p))) (Fin (f_int capSlack))"
  have "f_le (Fin 1) ?s" by (intro f_add_ge1 f_le_int) (simp_all add: f_int_nonneg)
  then have c: "f_div (f_mul (f_mul (Fin 2) PInf) ?s) (Fin (f_int Second)) = PInf" by (cases ?s) auto
  define t where "t = f_div (f_mul (f_min revRate PInf) (Fin (f_int rv))) (Fin (f_int Second))"
  define u where "u = f_min (f_div (f_mul PInf (Fin (f_int lag))) (Fin (f_int Second))) (Fin (f_int batch))"
  have "duplex_cap PInf minRTT pingBusy revRate rv lag batch =
      (if f_lt (Fin 0) revRate
       then let c = (if rv > 0 then f_add PInf t else PInf) in if lag > 0 \<and> batch > 0 then f_add c u else c
       else PInf)"
    unfolding duplex_cap_def Let_def c t_def [symmetric] u_def [symmetric] by (simp add: f_lt_def)
  then have "duplex_cap PInf minRTT pingBusy revRate rv lag batch \<in> {PInf, NaN}"
    by (cases t; cases u) (simp_all add: Let_def)
  then show ?thesis using duplex_cap_nonneg [OF assms, of PInf revRate rv lag batch] by auto
qed

section \<open>Properties\<close>

text \<open>Claim C32: deadlines and capacities are what their formulas say, for every rate including infinities and
  NaN. For 64-bit arguments, \<open>DeathDeadline\<close> is \<open>3 * srtt + inflight / rate\<close> and \<open>StallWindow\<close> is
  \<open>2 * srtt + bytes / rate\<close>, clamped to their bounds (the upper one wins), up to a relative error of
  \<open>2 ^ - 48\<close>. For a positive finite rate \<open>CapacityDuplex\<close> is twice the rate times round trip, probe time and slack, plus
  the duplex terms, clamped in the same way; it is the upper bound for an infinite rate and the clamped 0 for an
  unknown one. \<open>Capacity\<close> is the formula without the duplex terms. An estimate that overflows or does not fit 64 bits therefore
  gives the upper bound, never the result of an out-of-range conversion.\<close>

theorem formula_accuracy:
  assumes "mx \<le> MaxInt64" and "srtt \<le> MaxInt64" and "minRTT \<le> MaxInt64" and "pingBusy \<le> MaxInt64"
    and "rv \<le> MaxInt64" and "lag \<le> MaxInt64" and "batch \<le> MaxInt64"
  shows "near_clamp (est_exact 3 srtt bytes rate) mn mx (DeathDeadline srtt bytes rate mn mx) \<and>
    near_clamp (est_exact 2 srtt bytes rate) mn mx (StallWindow srtt bytes rate mn mx) \<and>
    (0 < r \<longrightarrow>
      near_clamp (cap_exact r minRTT pingBusy revRate rv lag batch) mn mx
        (CapacityDuplex (Fin r) minRTT pingBusy revRate rv lag batch mn mx) \<and>
      near_clamp (2 * r * of_int ((if minRTT \<le> 0 then capUnknownRTT else minRTT) + max 0 pingBusy + capSlack) / 10 ^ 9)
        mn mx (Capacity (Fin r) minRTT pingBusy mn mx)) \<and>
    CapacityDuplex PInf minRTT pingBusy revRate rv lag batch mn mx = mx \<and>
    (\<not> f_lt (Fin 0) rate \<longrightarrow> CapacityDuplex rate minRTT pingBusy revRate rv lag batch mn mx = clampq 0 mn mx)"
proof -
  have e: "near_clamp (est_exact k srtt bytes rate) mn mx (clampNs (estimateNs k srtt bytes rate) mn mx)" if "0 \<le> k" for k
    by (rule clampNs_near [OF estimate_apx [OF that assms(2)] assms(1)]) (use T_cap_le huge_ge in simp_all)
  have c: "near_clamp (cap_exact r minRTT pingBusy w x y z) mn mx
      (CapacityDuplex (Fin r) minRTT pingBusy w x y z mn mx)"
    if "0 < r" "x \<le> MaxInt64" "y \<le> MaxInt64" "z \<le> MaxInt64" for w x y z
    unfolding CapacityDuplex_clamp
    by (rule clampNs_near [OF duplex_cap_apx assms(1)]) (use that assms huge_ge in simp_all)
  have z: "cap_exact r minRTT pingBusy (Fin 0) 0 0 0 =
      2 * r * of_int ((if minRTT \<le> 0 then capUnknownRTT else minRTT) + max 0 pingBusy + capSlack) / 10 ^ 9"
    by (simp add: cap_exact_def f_lt_def)
  have "near_clamp (2 * r * of_int ((if minRTT \<le> 0 then capUnknownRTT else minRTT) + max 0 pingBusy + capSlack) / 10 ^ 9)
        mn mx (Capacity (Fin r) minRTT pingBusy mn mx)" if "0 < r"
    using c [OF that, of 0 0 0 "Fin 0"] unfolding Capacity_def z [symmetric] by simp
  moreover have "CapacityDuplex PInf minRTT pingBusy revRate rv lag batch mn mx = mx"
    unfolding CapacityDuplex_clamp duplex_cap_PInf [OF assms(3,4)] by (simp add: clampNs_def)
  moreover have "CapacityDuplex rate minRTT pingBusy revRate rv lag batch mn mx = clampq 0 mn mx"
    if "\<not> f_lt (Fin 0) rate"
    unfolding CapacityDuplex_clamp duplex_cap_unknown [OF that] by (rule clampNs_0)
  ultimately show ?thesis
    using e [of 3] e [of 2] c [OF _ assms(5-7)] unfolding DeathDeadline_def StallWindow_def by simp
qed

theorem formula_accuracy_witness:
  "1059999999 \<le> DeathDeadline (20 * Millisecond) 1000000 (Fin 1000000) Second (5 * Second) \<and>
   DeathDeadline (20 * Millisecond) 1000000 (Fin 1000000) Second (5 * Second) \<le> 1060000000 \<and>
   CapacityDuplex PInf 0 0 NaN 0 0 0 65536 (2 ^ 30) = 2 ^ 30"
proof -
  have f: "\<lfloor>298363475313294299999999 / 281474976710656 :: rat\<rfloor> = 1059999999"
    "\<lfloor>298363475313296420000001 / 281474976710656 :: rat\<rfloor> = 1060000000"
    by (rule floor_unique; simp)+
  have "near_clamp (est_exact 3 (20 * Millisecond) 1000000 (Fin 1000000)) Second (5 * Second)
      (DeathDeadline (20 * Millisecond) 1000000 (Fin 1000000) Second (5 * Second))"
    by (rule formula_accuracy [THEN conjunct1, of _ _ 0 0 0 0 0]) simp_all
  moreover have "CapacityDuplex PInf 0 0 NaN 0 0 0 65536 (2 ^ 30) = 2 ^ 30"
    using formula_accuracy [of "2 ^ 30" 0 0 0 0 0 0] by simp
  ultimately show ?thesis by (simp add: near_clamp_def clampq_def est_exact_def f)
qed

text \<open>Claim C33: the redial interval. The capped step is \<open>500 ms * 2^n\<close> (\<open>n\<close> clamped to 0..32), at most
  the cap when there is one; the jittered interval lies between 0.8 and 1.2 times the step up to
  rounding, for every \<open>float64\<close> \<open>u\<close>, NaN and infinities included, and never shrinks when the number of
  failures grows.\<close>

theorem backoff_bounds:
  assumes "n \<le> m"
  shows "backoff_cap n mx = (if 0 < mx then min mx (500 * Millisecond * 2 ^ nat (min 32 (max 0 n)))
           else 500 * Millisecond * 2 ^ nat (min 32 (max 0 n))) \<and>
    of_int (Backoff n mx u) \<le> of_int (backoff_cap n mx) * (6 / 5) * (1 + 1 / (2::rat) ^ 50) \<and>
    of_int (backoff_cap n mx) * (4 / 5) * (1 - 1 / 2 ^ 50) < of_int (Backoff n mx u) + (1::rat) \<and>
    Backoff n mx u \<le> Backoff m mx u"
  using Backoff_near [of n mx u] Backoff_mono [OF assms] by (simp add: backoff_cap_eq Let_def)

theorem backoff_bounds_witness:
  "backoff_cap 3 (8 * Second) = 4 * Second \<and> Backoff 3 (8 * Second) NaN \<le> Backoff 5 (8 * Second) NaN"
  using backoff_bounds [of 3 5 "8 * Second" NaN] by simp

text \<open>Claim C34: the advertised window. The whole window is offered while memory use is at most three
  quarters of the budget, nothing once the budget is used up, and in between at least the smaller of
  the window and 64 KiB, so that the peer is never stopped before the budget is full; the offer
  never grows when use grows.\<close>

theorem advertise_window:
  assumes "0 < window" "window \<le> 2 ^ 62" "0 < mx" "mx \<le> 2 ^ 53" "0 \<le> used" "used \<le> used'" "used' \<le> 2 ^ 53"
  shows "(4 * used \<le> 3 * mx \<longrightarrow> AdvertiseWindow window used mx = window) \<and>
    (used \<ge> mx \<longrightarrow> AdvertiseWindow window used mx = 0) \<and>
    (used < mx \<longrightarrow> min window minAdvertise \<le> AdvertiseWindow window used mx) \<and>
    AdvertiseWindow window used mx \<le> window \<and>
    AdvertiseWindow window used' mx \<le> AdvertiseWindow window used mx"
proof -
  let ?q = "\<lambda>u. (of_int u :: rat) / of_int mx"
  have eq: "AdvertiseWindow window u mx = adv_of window (rnd (?q u))" if "0 \<le> u" "u \<le> used'" for u
    using that assms by (intro AdvertiseWindow_eq) auto
  have lo: "rnd (?q used) \<le> 3 / 4" if "4 * used \<le> 3 * mx"
  proof -
    have "4 * (of_int used :: rat) \<le> 3 * of_int mx" using that by (metis of_int_le_iff of_int_mult of_int_numeral)
    then show ?thesis using assms(3) rnd_mono [of "?q used" "3 / 4"] by (simp add: field_simps rnd_3_4)
  qed
  have hi: "1 \<le> rnd (?q used)" if "used \<ge> mx"
    using that assms(3) rnd_mono [of 1 "?q used"] rnd_of_int [of 1] by (simp add: field_simps)
  have lt: "rnd (?q used) < 1" if "used < mx"
  proof -
    have "(of_int used :: rat) \<le> of_int mx - 1" using that by (metis of_int_1 of_int_diff of_int_le_iff zle_diff1_eq)
    moreover have "(of_int mx :: rat) \<le> 2 ^ 53" using assms(4) by (simp add: of_int_le_numeral_iff)
    ultimately have "?q used \<le> 1 - 1 / 2 ^ 53" using assms(3) by (simp add: field_simps)
    then have "rnd (?q used) \<le> 1 - 1 / 2 ^ 53" using rnd_mono [of "?q used" "1 - 1 / 2 ^ 53"] unfolding rnd_below_1 by blast
    then show ?thesis by (rule order_le_less_trans) simp
  qed
  have "?q used \<le> ?q used'" using assms(3,6) by (intro divide_right_mono) auto
  then have "adv_of window (rnd (?q used')) \<le> adv_of window (rnd (?q used))"
    using assms(1) by (intro adv_of_mono rnd_mono) auto
  then show ?thesis
    unfolding eq [OF assms(5,6)] eq [OF order_trans [OF assms(5,6)] order_refl]
    using lo hi lt assms(1) by (auto simp: adv_of_def simp del: minAdvertise_def)
qed

theorem advertise_window_witness:
  "AdvertiseWindow 1048576 50 100 = 1048576 \<and> AdvertiseWindow 1048576 100 100 = 0 \<and>
   min 1048576 minAdvertise \<le> AdvertiseWindow 1048576 99 100"
proof (intro conjI)
  show "AdvertiseWindow 1048576 50 100 = 1048576"
    by (rule advertise_window [THEN conjunct1, rule_format, where used' = 50]) simp_all
  show "AdvertiseWindow 1048576 100 100 = 0"
    by (rule advertise_window [THEN conjunct2, THEN conjunct1, rule_format, where used' = 100]) simp_all
  show "min 1048576 minAdvertise \<le> AdvertiseWindow 1048576 99 100"
    by (rule advertise_window [THEN conjunct2, THEN conjunct2, THEN conjunct1, rule_format, where used' = 99]) simp_all
qed

end
