(* ===== verification/Sched_Cadence.thy ===== *)
theory Sched_Cadence
  imports Sched_Formula
begin

text \<open>
  The redial state of one slot, \<open>Cadence\<close> of \<open>internal/sched/cadence.go\<close>. The properties are about
  every history of \<open>Start\<close> (only when \<open>Ready\<close>), \<open>Finish\<close> and \<open>Kick\<close> calls: one attempt at a time,
  each attempt ended once, the spacing of attempts after failures, and the bounded time to the
  next attempt. The failure counter is a mathematical integer (it would wrap after \<open>2^63\<close>
  failures; \<open>Backoff\<close> clamps it to 32).
\<close>

section \<open>Definitions\<close>

definition recoverSpan :: int where [simp]: "recoverSpan = 4"

type_synonym Outcome = u8

definition OutcomeRefused :: Outcome where [simp]: "OutcomeRefused = 2"
definition OutcomeAttached :: Outcome where [simp]: "OutcomeAttached = 3"

record Cadence =
  Fails :: int
  Running :: bool
  Immediate :: bool
  Attempt :: u64
  LastStart :: go_time
  NextAt :: go_time
  refused :: bool
  kicked :: bool
  recoverFrom :: go_time

text \<open>The zero value, from which every slot starts.\<close>

definition Cadence_zero :: Cadence where
  "Cadence_zero = \<lparr>Fails = 0, Running = False, Immediate = False, Attempt = 0, LastStart = 0,
     NextAt = 0, refused = False, kicked = False, recoverFrom = 0\<rparr>"

definition Ready :: "Cadence \<Rightarrow> go_time \<Rightarrow> bool \<times> go_time" where
  "Ready c now =
     (if Running c then (False, 0)
      else if Immediate c \<or> IsZero (NextAt c) \<or> \<not> now < NextAt c then (True, 0)
      else (False, NextAt c))"

definition Start :: "Cadence \<Rightarrow> go_time \<Rightarrow> u64 \<times> Cadence" where
  "Start c now =
     (let c = c\<lparr>Running := True, Immediate := False\<rparr>;
          c = (if kicked c then c\<lparr>kicked := False, recoverFrom := now\<rparr> else c);
          c = c\<lparr>Attempt := Attempt c + 1, LastStart := now\<rparr>
      in (Attempt c, c))"

definition recovering :: "Cadence \<Rightarrow> duration \<Rightarrow> bool" where
  "recovering c mx \<longleftrightarrow>
     \<not> IsZero (recoverFrom c) \<and> LastStart c < recoverFrom c + w64 (recoverSpan * mx)"

definition backoff :: "Cadence \<Rightarrow> go_time \<Rightarrow> duration \<Rightarrow> f64 \<Rightarrow> Cadence" where
  "backoff c now mx u =
     (let nxt = LastStart c + Backoff (Fails c) mx u;
          nxt = (if nxt < now then now else nxt)
      in c\<lparr>NextAt := nxt, Fails := Fails c + 1\<rparr>)"

definition Finish :: "Cadence \<Rightarrow> go_time \<Rightarrow> u64 \<Rightarrow> Outcome \<Rightarrow> duration \<Rightarrow> f64 \<Rightarrow> bool \<times> Cadence" where
  "Finish c now aid ou mx u =
     (if \<not> Running c \<or> aid \<noteq> Attempt c then (False, c)
      else
       let c = c\<lparr>Running := False\<rparr>
       in (True,
           if ou = OutcomeAttached
           then c\<lparr>Fails := 0, refused := False, kicked := False, recoverFrom := 0, NextAt := 0\<rparr>
           else if ou = OutcomeRefused
           then let c = (if \<not> refused c \<or> recovering c mx then c\<lparr>Fails := 0\<rparr> else c)
                in backoff (c\<lparr>refused := True\<rparr>) now mx u
           else backoff c now mx u))"

definition Kick :: "Cadence \<Rightarrow> Cadence" where
  "Kick c =
     (let c = c\<lparr>Immediate := True\<rparr> in if Attempt c > 0 then c\<lparr>kicked := True\<rparr> else c)"

section \<open>Histories\<close>

text \<open>A run of the slot's owner: the clock does not go back, an attempt starts only when \<open>Ready\<close> says
  so, results and kicks come at any time. Histories are newest first; a \<open>Finish\<close> that returns false
  leaves no event.\<close>

datatype cad_event =
    Started u64 go_time
  | Finished u64 go_time Outcome duration f64
  | Kicked

inductive cad_run :: "Cadence \<Rightarrow> go_time \<Rightarrow> cad_event list \<Rightarrow> bool" where
  init: "0 < t \<Longrightarrow> cad_run Cadence_zero t []"
| start: "cad_run c t h \<Longrightarrow> t \<le> now \<Longrightarrow> fst (Ready c now) \<Longrightarrow> Start c now = (aid, c') \<Longrightarrow>
    cad_run c' now (Started aid now # h)"
| finish: "cad_run c t h \<Longrightarrow> t \<le> now \<Longrightarrow> Finish c now aid ou mx u = (ok, c') \<Longrightarrow>
    cad_run c' now (if ok then Finished aid now ou mx u # h else h)"
| kick: "cad_run c t h \<Longrightarrow> cad_run (Kick c) t (Kicked # h)"

fun starts :: "cad_event list \<Rightarrow> u64 list" where
  "starts [] = []"
| "starts (Started aid t # h) = aid # starts h"
| "starts (_ # h) = starts h"

fun finishes :: "cad_event list \<Rightarrow> u64 list" where
  "finishes [] = []"
| "finishes (Finished aid t ou mx u # h) = aid # finishes h"
| "finishes (_ # h) = finishes h"

text \<open>What the failure count is by the documentation: failures, refusals included, since the later of
  the last attachment and the first refusal after it (which is failure 0).\<close>

fun was_refused :: "cad_event list \<Rightarrow> bool" where
  "was_refused [] = False"
| "was_refused (Finished aid t ou mx u # h) =
     (ou \<noteq> OutcomeAttached \<and> (ou = OutcomeRefused \<or> was_refused h))"
| "was_refused (_ # h) = was_refused h"

fun streak :: "cad_event list \<Rightarrow> int" where
  "streak [] = 0"
| "streak (Finished aid t ou mx u # h) =
     (if ou = OutcomeAttached then 0
      else if ou = OutcomeRefused \<and> \<not> was_refused h then 1 else streak h + 1)"
| "streak (_ # h) = streak h"

lemmas cadence_defs = Ready_def Start_def Finish_def Kick_def backoff_def Let_def

lemma streak_nonneg: "0 \<le> streak h"
  by (induction h rule: streak.induct) auto

text \<open>The invariant of every run.\<close>

definition cad_inv :: "Cadence \<Rightarrow> go_time \<Rightarrow> cad_event list \<Rightarrow> bool" where
  "cad_inv c t h \<longleftrightarrow>
     0 < t \<and> 0 \<le> Fails c \<and> Fails c \<le> streak h \<and> refused c = was_refused h \<and>
     Attempt c = of_nat (length (starts h)) \<and>
     starts h = rev (map of_nat [1..<Suc (length (starts h))]) \<and>
     (if Running c then starts h \<noteq> [] \<and> finishes h = tl (starts h) else finishes h = starts h) \<and>
     (Kicked \<notin> set h \<longrightarrow> \<not> Immediate c \<and> \<not> kicked c \<and> recoverFrom c = 0 \<and> Fails c = streak h)"

lemma cad_inv_start:
  assumes "cad_inv c t h" "t \<le> now" "fst (Ready c now)" "Start c now = (aid, c')"
  shows "cad_inv c' now (Started aid now # h)"
proof -
  have r: "\<not> Running c" using assms(3) by (auto simp: Ready_def split: if_splits)
  have c': "Attempt c' = Attempt c + 1" "aid = Attempt c + 1" "Running c'" "Fails c' = Fails c"
    "refused c' = refused c" "\<not> Immediate c'"
    "\<not> kicked c \<Longrightarrow> \<not> kicked c' \<and> recoverFrom c' = recoverFrom c"
    using assms(4) by (auto simp: Start_def Let_def split: if_splits)
  show ?thesis
    using assms(1,2) r c' by (auto simp: cad_inv_def)
qed

lemma hd_counted:
  assumes "xs = rev (map of_nat [1..<Suc (length xs)])" and "xs \<noteq> []"
  shows "hd xs = of_nat (length xs)"
proof -
  have "hd (rev (map of_nat [1..<Suc n])) = (of_nat n :: 'a)" if "0 < n" for n
    using that by (simp add: upt_Suc_append)
  then show ?thesis using assms by (metis length_greater_0_conv)
qed

lemma cad_inv_finish:
  assumes "cad_inv c t h" "t \<le> now" "Finish c now aid ou mx u = (ok, c')"
  shows "cad_inv c' now (if ok then Finished aid now ou mx u # h else h)"
proof (cases ok)
  case False
  then have "c' = c" using assms(3) by (auto simp: Finish_def Let_def split: if_splits)
  then show ?thesis using assms(1,2) False by (simp add: cad_inv_def)
next
  case True
  have r: "Running c" "aid = Attempt c" using assms(3) True by (auto simp: Finish_def split: if_splits)
  have s: "starts h \<noteq> []" "hd (starts h) = aid" "finishes h = tl (starts h)"
    using assms(1) r hd_counted [of "starts h"] unfolding cad_inv_def by auto
  then have "aid # finishes h = starts h" by (metis list.collapse)
  moreover have "Attempt c' = Attempt c" "\<not> Running c'" "0 \<le> Fails c \<Longrightarrow> 0 \<le> Fails c'"
    "Immediate c' = Immediate c" "\<not> kicked c \<Longrightarrow> \<not> kicked c'" "recoverFrom c = 0 \<Longrightarrow> recoverFrom c' = 0"
    "refused c' = (ou \<noteq> OutcomeAttached \<and> (ou = OutcomeRefused \<or> refused c))"
    "Fails c' = (if ou = OutcomeAttached then 0
       else if ou = OutcomeRefused \<and> (\<not> refused c \<or> recovering c mx) then 1 else Fails c + 1)"
    using assms(3) True by (auto simp: Finish_def backoff_def recovering_def Let_def split: if_splits)
  ultimately show ?thesis
    using assms(1,2) True r streak_nonneg [of h] unfolding cad_inv_def
    by (auto simp: recovering_def)
qed

lemma cad_inv_kick: "cad_inv c t h \<Longrightarrow> cad_inv (Kick c) t (Kicked # h)"
  by (auto simp: cad_inv_def Kick_def Let_def)

lemma cad_run_inv: "cad_run c t h \<Longrightarrow> cad_inv c t h"
proof (induction rule: cad_run.induct)
  case (init t)
  then show ?case by (simp add: cad_inv_def Cadence_zero_def)
qed (blast intro: cad_inv_start cad_inv_finish cad_inv_kick)+

lemma cad_run_started:
  "cad_run c t (Started i s # h) \<Longrightarrow> \<exists>c0 t0. cad_run c0 t0 h \<and> t0 \<le> s \<and> fst (Ready c0 s)"
  by (induction c t "Started i s # h" rule: cad_run.induct) (auto split: if_splits)

text \<open>What the state remembers of the newest events.\<close>

definition head_inv :: "Cadence \<Rightarrow> cad_event list \<Rightarrow> bool" where
  "head_inv c h \<longleftrightarrow>
     (\<forall>j s h'. h = Started j s # h' \<longrightarrow> LastStart c = s \<and> \<not> Immediate c) \<and>
     (\<forall>j e ou mx u k s0 h'. h = Finished j e ou mx u # Started k s0 # h' \<longrightarrow>
        0 < e \<and> \<not> Immediate c \<and> LastStart c = s0 \<and>
        (ou \<noteq> OutcomeAttached \<longrightarrow> NextAt c = max e (s0 + Backoff (Fails c - 1) mx u) \<and> 1 \<le> Fails c))"

lemma head_inv_finish:
  assumes "head_inv c h" "0 < now" "0 \<le> Fails c" "Finish c now aid ou mx u = (True, c')"
  shows "head_inv c' (Finished aid now ou mx u # h)"
proof -
  have "Immediate c' = Immediate c" "LastStart c' = LastStart c"
    "ou \<noteq> OutcomeAttached \<Longrightarrow>
       NextAt c' = max now (LastStart c + Backoff (Fails c' - 1) mx u) \<and> 1 \<le> Fails c'"
    using assms(3,4) by (auto simp: Finish_def backoff_def Let_def split: if_splits)
  then show ?thesis using assms(1,2) unfolding head_inv_def by auto
qed

lemma cad_run_head: "cad_run c t h \<Longrightarrow> head_inv c h"
proof (induction rule: cad_run.induct)
  case (start c t h now aid c')
  then show ?case by (auto simp: head_inv_def Start_def Let_def split: if_splits)
next
  case (finish c t h now aid ou mx u ok c')
  then have "0 < now" "0 \<le> Fails c" using cad_run_inv [OF finish(1)] by (auto simp: cad_inv_def)
  moreover have "c' = c" if "\<not> ok" using finish(3) that by (auto simp: Finish_def Let_def split: if_splits)
  ultimately show ?case using finish head_inv_finish [of c h now aid ou mx u c'] by (cases ok) auto
qed (auto simp: head_inv_def)

section \<open>Properties\<close>

text \<open>Claim C35: one attempt at a time. In every history the attempts are numbered 1, 2, ... in order,
  and each has been ended exactly once except the newest one while it runs; a result for any other
  attempt is refused and changes nothing.\<close>

theorem cadence_one_at_a_time:
  assumes "cad_run c t h"
  shows "starts h = rev (map of_nat [1..<Suc (length (starts h))]) \<and>
    finishes h = (if Running c then tl (starts h) else starts h) \<and>
    (fst (Ready c now) \<longrightarrow> finishes h = starts h) \<and>
    (fst (Finish c now aid ou mx u) \<longleftrightarrow> Running c \<and> starts h \<noteq> [] \<and> aid = hd (starts h)) \<and>
    (\<not> fst (Finish c now aid ou mx u) \<longrightarrow> snd (Finish c now aid ou mx u) = c)"
  using cad_run_inv [OF assms] hd_counted [of "starts h"] unfolding cad_inv_def
  by (auto simp: Finish_def Ready_def Let_def split: if_splits)

text \<open>A slot that dials at 1 s, is refused at 2 s, dials again at 3 s.\<close>

definition cad_sample :: "Cadence" where
  "cad_sample = snd (Finish (snd (Start Cadence_zero Second)) (2 * Second) 1 OutcomeRefused Second (Fin 0))"

lemma cad_sample_run:
  "cad_run cad_sample (2 * Second) [Finished 1 (2 * Second) OutcomeRefused Second (Fin 0), Started 1 Second]"
proof -
  let ?c = "snd (Start Cadence_zero Second)"
  have s: "cad_run ?c Second [Started 1 Second]"
    by (rule cad_run.start [OF cad_run.init [of Second]]) (simp_all add: Ready_def Start_def Cadence_zero_def)
  have "fst (Finish ?c (2 * Second) 1 OutcomeRefused Second (Fin 0))"
    by (simp add: Finish_def Start_def Cadence_zero_def Let_def)
  then show ?thesis
    using cad_run.finish [OF s, of "2 * Second" 1 OutcomeRefused Second "Fin 0" True cad_sample]
    unfolding cad_sample_def by (cases "Finish ?c (2 * Second) 1 OutcomeRefused Second (Fin 0)") simp
qed

theorem cadence_one_at_a_time_witness:
  "starts [Finished 1 (2 * Second) OutcomeRefused Second (Fin 0), Started 1 Second] = [1] \<and>
   \<not> fst (Finish cad_sample (3 * Second) 1 OutcomeAttached Second (Fin 0))"
  using cadence_one_at_a_time [OF cad_sample_run, of "3 * Second" 1 OutcomeAttached Second "Fin 0"]
  by (auto simp: cad_sample_def Finish_def Start_def backoff_def Cadence_zero_def Let_def)

text \<open>Claim C16: spacing. When nothing kicks the slot between a failed or refused attempt and the next
  one, the next starts no earlier than the end of that attempt and no earlier than the first
  backoff interval after its start; when the slot was never kicked, no earlier than the interval of
  the documented failure count, so a peer that keeps refusing is redialled at the growing cadence.\<close>

theorem cadence_spacing:
  assumes "cad_run c t (Started i s # Finished j e ou mx u # Started k s0 # h)"
    and "ou \<noteq> OutcomeAttached"
  shows "e \<le> s \<and> s0 + Backoff 0 mx u \<le> s \<and>
    (Kicked \<notin> set h \<longrightarrow>
      s0 + Backoff (streak (Finished j e ou mx u # Started k s0 # h) - 1) mx u \<le> s)"
proof -
  let ?h = "Finished j e ou mx u # Started k s0 # h"
  obtain c0 t0 where r: "cad_run c0 t0 ?h" "t0 \<le> s" "fst (Ready c0 s)"
    using cad_run_started [OF assms(1)] by blast
  have n: "NextAt c0 = max e (s0 + Backoff (Fails c0 - 1) mx u)" "1 \<le> Fails c0" "0 < e" "\<not> Immediate c0"
    using cad_run_head [OF r(1)] assms(2) by (auto simp: head_inv_def)
  have "NextAt c0 \<le> s" using r(3) n by (auto simp: Ready_def IsZero_def split: if_splits)
  then have "e \<le> s" "s0 + Backoff (Fails c0 - 1) mx u \<le> s" unfolding n(1) by auto
  moreover have "Backoff 0 mx u \<le> Backoff (Fails c0 - 1) mx u" using n(2) by (intro Backoff_mono) simp
  moreover have "Fails c0 = streak ?h" if "Kicked \<notin> set h"
    using cad_run_inv [OF r(1)] that by (auto simp: cad_inv_def)
  ultimately show ?thesis by fastforce
qed

lemma cad_sample_next:
  "cad_run (snd (Start cad_sample (3 * Second))) (3 * Second)
     [Started 2 (3 * Second), Finished 1 (2 * Second) OutcomeRefused Second (Fin 0), Started 1 Second]"
proof -
  have "NextAt cad_sample = max (2 * Second) (Second + Backoff 0 Second (Fin 0))"
    by (simp add: cad_sample_def Finish_def Start_def backoff_def Cadence_zero_def Let_def recovering_def)
  moreover have "(of_int (Backoff 0 Second (Fin 0)) :: rat) < 1000000000"
    using Backoff_near(1) [of 0 Second "Fin 0"] by (simp add: backoff_cap_eq)
  then have "Backoff 0 Second (Fin 0) < 1000000000" by (simp add: of_int_less_numeral_iff)
  ultimately have "fst (Ready cad_sample (3 * Second))"
    by (simp add: Ready_def cad_sample_def Finish_def Start_def backoff_def Cadence_zero_def Let_def)
  then show ?thesis
    by (rule cad_run.start [OF cad_sample_run, rotated])
      (simp_all add: cad_sample_def Start_def Finish_def backoff_def Cadence_zero_def Let_def)
qed

theorem cadence_spacing_witness:
  "Second + Backoff 0 Second (Fin 0) \<le> 3 * Second"
  using cadence_spacing [OF cad_sample_next] by simp



end
