(* ===== verification/Sched_Evidence.thy ===== *)
theory Sched_Evidence
  imports Go_Num
begin

text \<open>
  The evidence classification of \<open>internal/sched/evidence.go\<close>: \<open>Summary\<close>, \<open>Evidence\<close>, \<open>Classify\<close>
  and \<open>NextChange\<close>, which tells a caller when evidence will change by ageing alone.
\<close>

section \<open>Definitions\<close>

record Summary =
  Seen :: bool
  Mean :: duration
  NSamples :: int
  At :: go_time
  LoadedAt :: go_time

datatype EvState = EvUnknown | EvFresh | EvHeld | EvStale

definition EvState_String :: "EvState \<Rightarrow> string" where
  "EvState_String s =
     (case s of EvFresh \<Rightarrow> ''fresh'' | EvHeld \<Rightarrow> ''held'' | EvStale \<Rightarrow> ''stale'' | _ \<Rightarrow> ''unknown'')"

record Evidence =
  State :: EvState
  RTT :: duration

definition valued :: "Summary \<Rightarrow> bool" where
  "valued s \<longleftrightarrow> NSamples s > 0 \<and> Mean s > 0 \<and> \<not> IsZero (At s)"

definition within :: "go_time \<Rightarrow> go_time \<Rightarrow> duration \<Rightarrow> bool" where
  "within now t fresh \<longleftrightarrow> \<not> IsZero t \<and> Sub now t \<le> fresh"

definition Classify :: "Summary \<Rightarrow> go_time \<Rightarrow> duration \<Rightarrow> Evidence" where
  "Classify s now fresh =
     (if \<not> Seen s then \<lparr>State = EvUnknown, RTT = 0\<rparr>
      else if valued s \<and> within now (At s) fresh then \<lparr>State = EvFresh, RTT = Mean s\<rparr>
      else if within now (LoadedAt s) fresh
      then \<lparr>State = EvHeld, RTT = (if valued s then Mean s else 0)\<rparr>
      else \<lparr>State = EvStale, RTT = 0\<rparr>)"

text \<open>The two breakpoints of \<open>NextChange\<close> in ascending order, and the loop over them.\<close>

definition breakpoints :: "Summary \<Rightarrow> duration \<Rightarrow> go_time list" where
  "breakpoints s fresh =
     (let c = (if valued s then [At s + fresh + 1] else []) @
              (if \<not> IsZero (LoadedAt s) then [LoadedAt s + fresh + 1] else [])
      in if length c = 2 \<and> c ! 1 < c ! 0 then [c ! 1, c ! 0] else c)"

primrec first_change :: "Summary \<Rightarrow> go_time \<Rightarrow> duration \<Rightarrow> Evidence \<Rightarrow> go_time list \<Rightarrow> go_time" where
  "first_change s now fresh cur [] = 0"
| "first_change s now fresh cur (c # cs) =
     (if c > now \<and> Classify s c fresh \<noteq> cur then c else first_change s now fresh cur cs)"

definition NextChange :: "Summary \<Rightarrow> go_time \<Rightarrow> duration \<Rightarrow> go_time" where
  "NextChange s now fresh =
     (if \<not> Seen s then 0
      else first_change s now fresh (Classify s now fresh) (breakpoints s fresh))"

section \<open>Lemmas\<close>

lemma within_iff: "i64 fresh \<Longrightarrow> within now t fresh \<longleftrightarrow> t \<noteq> 0 \<and> (now \<le> t + fresh \<or> fresh = MaxInt64)"
  by (auto simp: within_def IsZero_def Sub_le)

text \<open>Evidence depends on time only through whether each breakpoint has passed.\<close>

lemma Classify_cong:
  assumes "i64 fresh" and "\<And>c. c \<in> set (breakpoints s fresh) \<Longrightarrow> c \<le> t \<longleftrightarrow> c \<le> t'"
  shows "Classify s t fresh = Classify s t' fresh"
proof -
  have "valued s \<Longrightarrow> At s + fresh + 1 \<in> set (breakpoints s fresh)"
    "LoadedAt s \<noteq> 0 \<Longrightarrow> LoadedAt s + fresh + 1 \<in> set (breakpoints s fresh)"
    by (auto simp: breakpoints_def IsZero_def Let_def)
  then have "valued s \<Longrightarrow> within t (At s) fresh = within t' (At s) fresh"
    "within t (LoadedAt s) fresh = within t' (LoadedAt s) fresh"
    using assms(2) by (fastforce simp: within_iff [OF assms(1)])+
  then show ?thesis by (auto simp: Classify_def)
qed

lemma sorted_breakpoints: "sorted (breakpoints s fresh)"
  by (auto simp: breakpoints_def Let_def)

lemma first_change_sound:
  "first_change s now fresh cur cs \<noteq> 0 \<Longrightarrow>
   first_change s now fresh cur cs \<in> set cs \<and> now < first_change s now fresh cur cs \<and>
   Classify s (first_change s now fresh cur cs) fresh \<noteq> cur"
  by (induction cs) (auto split: if_splits)

lemma first_change_none:
  "first_change s now fresh cur cs = r \<Longrightarrow> sorted cs \<Longrightarrow> 0 \<le> now \<Longrightarrow>
   c \<in> set cs \<Longrightarrow> now < c \<Longrightarrow> r = 0 \<or> c < r \<Longrightarrow> Classify s c fresh = cur"
proof (induction cs)
  case (Cons d cs)
  then show ?case by (cases "d > now \<and> Classify s d fresh \<noteq> cur") auto
qed simp

text \<open>The last breakpoint up to an instant decides the evidence there.\<close>

lemma Classify_last:
  assumes "i64 fresh" and "now < t"
  shows "Classify s t fresh = Classify s now fresh \<or>
    (\<exists>c\<in>set (breakpoints s fresh). now < c \<and> c \<le> t \<and> Classify s t fresh = Classify s c fresh)"
proof -
  let ?B = "{c \<in> set (breakpoints s fresh). now < c \<and> c \<le> t}"
  show ?thesis
  proof (cases "?B = {}")
    case True
    then have "Classify s t fresh = Classify s now fresh"
      using assms by (intro Classify_cong) (auto simp: not_le [symmetric])
    then show ?thesis ..
  next
    case False
    have f: "finite ?B" by simp
    have m: "Max ?B \<in> ?B" using False f by (rule Max_in [rotated])
    have "Classify s t fresh = Classify s (Max ?B) fresh"
    proof (rule Classify_cong [OF assms(1)])
      fix c assume c: "c \<in> set (breakpoints s fresh)"
      show "c \<le> t \<longleftrightarrow> c \<le> Max ?B"
      proof
        assume "c \<le> t"
        show "c \<le> Max ?B"
        proof (cases "now < c")
          case True
          then show ?thesis using c \<open>c \<le> t\<close> by (intro Max_ge [OF f]) simp
        qed (use m in auto)
      qed (use m in auto)
    qed
    then show ?thesis using m by blast
  qed
qed

text \<open>Up to the returned instant, or for ever when there is none, the evidence does not change.\<close>

lemma NextChange_stable:
  assumes "i64 fresh" and "0 \<le> now" and "now \<le> t" and "NextChange s now fresh = 0 \<or> t < NextChange s now fresh"
  shows "Classify s t fresh = Classify s now fresh"
proof (cases "Seen s \<and> now < t")
  case True
  then have n: "first_change s now fresh (Classify s now fresh) (breakpoints s fresh) = NextChange s now fresh"
    by (simp add: NextChange_def)
  show ?thesis
    using Classify_last [OF assms(1), of now t s] True
      first_change_none [OF n sorted_breakpoints assms(2)] assms(4) by fastforce
qed (use assms in \<open>auto simp: Classify_def\<close>)

section \<open>Properties\<close>

text \<open>Claim C29: \<open>NextChange\<close> is the first instant at which the evidence changes by ageing. If it
  returns the zero time the evidence keeps its present value for ever; otherwise the evidence at
  the returned instant differs from the present one and is unchanged at every instant before it, so
  a timer armed there sees the change and never wakes early.\<close>

theorem next_change_exact:
  assumes "i64 fresh" and "0 \<le> now"
  shows "(NextChange s now fresh = 0 \<longrightarrow> (\<forall>t. now < t \<longrightarrow> Classify s t fresh = Classify s now fresh)) \<and>
    (NextChange s now fresh \<noteq> 0 \<longrightarrow>
       now < NextChange s now fresh \<and>
       Classify s (NextChange s now fresh) fresh \<noteq> Classify s now fresh \<and>
       (\<forall>t. now < t \<and> t < NextChange s now fresh \<longrightarrow> Classify s t fresh = Classify s now fresh))"
proof -
  have "now < NextChange s now fresh \<and> Classify s (NextChange s now fresh) fresh \<noteq> Classify s now fresh"
    if "NextChange s now fresh \<noteq> 0"
    using first_change_sound [of s now fresh "Classify s now fresh" "breakpoints s fresh"] that
    by (auto simp: NextChange_def split: if_splits)
  moreover have "Classify s t fresh = Classify s now fresh"
    if "now < t" "NextChange s now fresh = 0 \<or> t < NextChange s now fresh" for t
    by (rule NextChange_stable [OF assms less_imp_le [OF that(1)] that(2)])
  ultimately show ?thesis by blast
qed

definition sample_summary :: Summary where
  "sample_summary = \<lparr>Seen = True, Mean = 20, NSamples = 1, At = 100, LoadedAt = 0\<rparr>"

theorem next_change_exact_witness:
  "NextChange sample_summary 110 30 = 131 \<and>
   Classify sample_summary 130 30 = Classify sample_summary 110 30 \<and>
   Classify sample_summary 131 30 \<noteq> Classify sample_summary 110 30"
proof -
  have n: "NextChange sample_summary 110 30 = 131"
    by (simp add: NextChange_def sample_summary_def breakpoints_def valued_def IsZero_def
        Classify_def within_def Sub_def)
  have "NextChange sample_summary 110 30 \<noteq> 0" "(110::int) < 130 \<and> 130 < NextChange sample_summary 110 30"
    by (simp_all add: n)
  then show ?thesis using next_change_exact [of 30 110 sample_summary] n by (auto simp: i64_def)
qed

text \<open>An unmeasured path never looks measured. Evidence is fresh only with a positive
  mean of at least one unloaded sample taken within the freshness window, and any evidence that
  carries a value carries that positive mean.\<close>

theorem classify_never_zero:
  assumes "i64 fresh"
  shows "(State (Classify s now fresh) = EvFresh \<longrightarrow>
      RTT (Classify s now fresh) = Mean s \<and> 0 < Mean s \<and> 0 < NSamples s \<and>
      (now \<le> At s + fresh \<or> fresh = MaxInt64)) \<and>
    (RTT (Classify s now fresh) \<noteq> 0 \<longrightarrow>
      RTT (Classify s now fresh) = Mean s \<and> 0 < Mean s \<and> 0 < NSamples s \<and>
      State (Classify s now fresh) \<in> {EvFresh, EvHeld})"
  by (auto simp: Classify_def valued_def within_iff [OF assms] split: if_splits)

theorem classify_never_zero_witness:
  "State (Classify sample_summary 110 30) = EvFresh \<and> RTT (Classify sample_summary 110 30) = 20"
  using classify_never_zero [of 30 sample_summary 110]
  by (simp add: i64_def Classify_def sample_summary_def valued_def within_def Sub_def IsZero_def)

end
