(* ===== verification/Sched_Rank.thy ===== *)
theory Sched_Rank
  imports Sched_Evidence "HOL-Library.Product_Lexorder" "HOL-Library.Multiset" "HOL-Library.Sublist"
begin

unbundle bit_operations_syntax

text \<open>
  Orders of \<open>internal/sched\<close>: the factory ranking of \<open>rank.go\<close> and the lane order \<open>SRTTOrder\<close> of
  \<open>formula.go\<close>, both by the same in-place insertion sort of positions, and the fate-group functions
  of \<open>group.go\<close>. The comparators are shown to be lexicographic orders of a key, and the sorts to be
  \<open>sort_key\<close> of that key.
\<close>

section \<open>Definitions\<close>

definition maxFactories :: nat where [simp]: "maxFactories = 16"

text \<open>The inner loop of both sorts: \<open>p\<close> moves down from position \<open>j\<close> past every larger entry.\<close>

fun shift_down :: "('a \<Rightarrow> 'a \<Rightarrow> bool) \<Rightarrow> 'a \<Rightarrow> 'a list \<Rightarrow> nat \<Rightarrow> 'a list" where
  "shift_down lt p out 0 = out[0 := p]"
| "shift_down lt p out (Suc j) =
     (if lt p (out ! j) then shift_down lt p (out[Suc j := out ! j]) j else out[Suc j := p])"

primrec insertion :: "('a \<Rightarrow> 'a \<Rightarrow> bool) \<Rightarrow> nat \<Rightarrow> 'a list \<Rightarrow> nat \<Rightarrow> 'a list" where
  "insertion lt 0 out i = out"
| "insertion lt (Suc k) out i = insertion lt k (shift_down lt (out ! i) out i) (Suc i)"

record Candidate =
  Index :: int
  Ev :: Evidence
  Failed :: bool
  Class :: u8

definition measured :: "Candidate \<Rightarrow> bool" where
  "measured c \<longleftrightarrow> (State (Ev c) = EvFresh \<or> State (Ev c) = EvHeld) \<and> RTT (Ev c) > 0"

definition Less :: "Candidate \<Rightarrow> Candidate \<Rightarrow> bool" where
  "Less x y =
     (if Failed x \<noteq> Failed y then Failed y
      else if Class x \<noteq> Class y then Class x < Class y
      else if \<not> Failed x \<and> measured x \<noteq> measured y then measured x
      else if \<not> Failed x \<and> measured x \<and> RTT (Ev x) \<noteq> RTT (Ev y) then RTT (Ev x) < RTT (Ev y)
      else Index x < Index y)"

definition Rank :: "Candidate list \<Rightarrow> int list" where
  "Rank cs =
     map (\<lambda>p. Index (cs ! p))
       (insertion (\<lambda>p q. Less (cs ! p) (cs ! q)) (length cs - 1) [0..<length cs] 1)"

definition srttLess :: "duration list \<Rightarrow> nat \<Rightarrow> nat \<Rightarrow> bool" where
  "srttLess srtt a b =
     (let ka = srtt ! a > 0; kb = srtt ! b > 0
      in if ka \<noteq> kb then ka
         else if ka \<and> srtt ! a \<noteq> srtt ! b then srtt ! a < srtt ! b
         else a < b)"

definition SRTTOrder :: "duration list \<Rightarrow> nat list" where
  "SRTTOrder srtt = insertion (srttLess srtt) (length srtt - 1) [0..<length srtt] 1"

definition GroupFirst :: "int list \<Rightarrow> (int \<Rightarrow> u8) \<Rightarrow> u8 \<Rightarrow> int list" where
  "GroupFirst order grp failed =
     (if failed = 0 then order
      else [f \<leftarrow> order. grp f \<noteq> failed] @ [f \<leftarrow> order. grp f = failed])"

text \<open>\<open>OnePerGroup\<close> on one array that holds both \<open>order\<close> and \<open>out\<close> (\<open>out\<close> may be \<open>order[:0]\<close>): \<open>i\<close> is
  the read position, \<open>w\<close> the length of \<open>out\<close>, \<open>taken\<close> the four words of taken groups.\<close>

definition taken_bit :: "u64 list \<Rightarrow> u8 \<Rightarrow> bool" where
  "taken_bit taken g \<longleftrightarrow> (taken ! unat (drop_bit 6 g)) AND push_bit (unat (g AND 63)) 1 \<noteq> 0"

definition take_bit_set :: "u64 list \<Rightarrow> u8 \<Rightarrow> u64 list" where
  "take_bit_set taken g =
     (let k = unat (drop_bit 6 g) in taken[k := taken ! k OR push_bit (unat (g AND 63)) 1])"

primrec OnePerGroup_loop ::
    "nat \<Rightarrow> (int \<Rightarrow> u8) \<Rightarrow> int \<Rightarrow> int list \<Rightarrow> nat \<Rightarrow> nat \<Rightarrow> u64 list \<Rightarrow> int list" where
  "OnePerGroup_loop 0 grp mx arr i w taken = take w arr"
| "OnePerGroup_loop (Suc k) grp mx arr i w taken =
     (if int w \<ge> mx then take w arr
      else
       let f = arr ! i; g = grp f
       in if g \<noteq> 0 \<and> taken_bit taken g then OnePerGroup_loop k grp mx arr (Suc i) w taken
          else OnePerGroup_loop k grp mx (arr[w := f]) (Suc i) (Suc w)
                 (if g \<noteq> 0 then take_bit_set taken g else taken))"

definition OnePerGroup :: "int list \<Rightarrow> (int \<Rightarrow> u8) \<Rightarrow> int \<Rightarrow> int list" where
  "OnePerGroup order grp mx =
     OnePerGroup_loop (length order) grp mx order 0 0 (replicate 4 0)"

section \<open>The insertion sort\<close>

text \<open>One insertion, on the reversed sorted prefix.\<close>

fun ins_rev :: "('a \<Rightarrow> 'a \<Rightarrow> bool) \<Rightarrow> 'a \<Rightarrow> 'a list \<Rightarrow> 'a list" where
  "ins_rev lt p [] = [p]"
| "ins_rev lt p (y # ys) = (if lt p y then y # ins_rev lt p ys else p # y # ys)"

lemma mset_ins_rev [simp]: "mset (ins_rev lt p ys) = add_mset p (mset ys)"
  by (induction ys) auto

lemma set_ins_rev [simp]: "set (ins_rev lt p ys) = insert p (set ys)"
  by (induction ys) auto

lemma length_ins_rev [simp]: "length (ins_rev lt p ys) = Suc (length ys)"
  by (induction ys) auto

lemma shift_down_ins:
  "i < length out \<Longrightarrow>
   shift_down lt p out i = rev (ins_rev lt p (rev (take i out))) @ drop (Suc i) out"
proof (induction i arbitrary: out)
  case 0
  then show ?case by (cases out) auto
next
  case (Suc j)
  have t: "take (Suc j) out = take j out @ [out ! j]"
    using Suc.prems by (simp add: take_Suc_conv_app_nth)
  have d: "drop (Suc j) (out[Suc j := x]) = x # drop (Suc (Suc j)) out" for x
    using Suc.prems by (simp add: drop_update_swap Cons_nth_drop_Suc [symmetric])
  show ?case
  proof (cases "lt p (out ! j)")
    case True
    have "shift_down lt p (out[Suc j := out ! j]) j =
        rev (ins_rev lt p (rev (take j out))) @ out ! j # drop (Suc (Suc j)) out"
      using Suc.IH [of "out[Suc j := out ! j]"] Suc.prems d by simp
    then show ?thesis using True by (simp add: t)
  next
    case False
    have "out[Suc j := p] = take (Suc j) out @ p # drop (Suc (Suc j)) out"
      using Suc.prems by (rule upd_conv_take_nth_drop)
    then show ?thesis using False by (simp add: t)
  qed
qed

text \<open>The contract of a comparator: a strict order by an injective key.\<close>

locale key_order =
  fixes lt :: "'a \<Rightarrow> 'a \<Rightarrow> bool" and key :: "'a \<Rightarrow> 'k::linorder" and A :: "'a set"
  assumes lt_key: "x \<in> A \<Longrightarrow> y \<in> A \<Longrightarrow> lt x y \<longleftrightarrow> key x < key y"
    and inj_key: "inj_on key A"
begin

lemma ins_rev_sorted:
  "sorted_wrt (\<lambda>x y. key y \<le> key x) ys \<Longrightarrow> insert p (set ys) \<subseteq> A \<Longrightarrow>
   sorted_wrt (\<lambda>x y. key y \<le> key x) (ins_rev lt p ys)"
proof (induction ys)
  case (Cons y ys)
  then show ?case using lt_key [of p y] by (auto intro: order_trans)
qed simp

lemma insertion_sorts:
  "sorted (map key (take i out)) \<Longrightarrow> set out \<subseteq> A \<Longrightarrow> i + k = length out \<Longrightarrow>
   sorted (map key (insertion lt k out i)) \<and> mset (insertion lt k out i) = mset out"
proof (induction k arbitrary: out i)
  case (Suc k)
  let ?o = "shift_down lt (out ! i) out i"
  have i: "i < length out" using Suc.prems by simp
  have o: "?o = rev (ins_rev lt (out ! i) (rev (take i out))) @ drop (Suc i) out"
    using i by (rule shift_down_ins)
  have sp: "out = take i out @ out ! i # drop (Suc i) out" using i by (rule id_take_nth_drop)
  have m: "mset ?o = mset out"
    using arg_cong [OF sp, of mset] by (simp add: o)
  have "sorted_wrt (\<lambda>x y. key y \<le> key x) (rev (take i out))"
    using Suc.prems(1) by (simp add: sorted_wrt_rev sorted_wrt_map)
  moreover have "insert (out ! i) (set (rev (take i out))) \<subseteq> A"
    using Suc.prems(2) i set_take_subset [of i out] by auto
  ultimately have "sorted_wrt (\<lambda>x y. key y \<le> key x) (ins_rev lt (out ! i) (rev (take i out)))"
    by (rule ins_rev_sorted)
  moreover have "take (Suc i) ?o = rev (ins_rev lt (out ! i) (rev (take i out)))"
    using i by (simp add: o)
  ultimately have "sorted (map key (take (Suc i) ?o))" by (simp add: sorted_wrt_rev sorted_wrt_map)
  moreover have "set ?o \<subseteq> A" using m Suc.prems(2) by (metis set_mset_mset)
  moreover have "Suc i + k = length ?o" using m Suc.prems(3) by (metis add_Suc_shift size_mset)
  ultimately show ?case using Suc.IH [of "Suc i" ?o] m by simp
qed simp

lemma insertion_sort_key:
  assumes "set xs \<subseteq> A" and "distinct xs"
  shows "insertion lt (length xs - 1) xs 1 = sort_key key xs"
proof (cases xs)
  case (Cons y ys)
  then have "sorted (map key (take 1 xs))" "1 + (length xs - 1) = length xs" by simp_all
  note s = insertion_sorts [OF this(1) assms(1) this(2)]
  let ?r = "insertion lt (length xs - 1) xs 1"
  have d: "distinct ?r" "set ?r = set xs"
    using s assms(2) by (metis distinct_count_atmost_1 mset_eq_imp_distinct_iff, metis set_mset_mset)
  have inj: "inj_on key (set xs)" using inj_key assms(1) by (rule inj_on_subset)
  have "map key ?r = map key (sort_key key xs)"
    using s d inj assms(2)
    by (intro sorted_distinct_set_unique) (auto simp: distinct_map)
  then show ?thesis
    using d inj by (intro inj_on_map_eq_map [THEN iffD1, of key]) auto
qed simp

end

lemma map_shift_down:
  "j < length out \<Longrightarrow> map f (shift_down (\<lambda>p q. lt (f p) (f q)) p out j) = shift_down lt (f p) (map f out) j"
  by (induction j arbitrary: out) (auto simp: map_update)

lemma length_shift_down [simp]: "length (shift_down lt p out j) = length out"
  by (induction j arbitrary: out) auto

lemma map_insertion:
  "i + k \<le> length out \<Longrightarrow>
   map f (insertion (\<lambda>p q. lt (f p) (f q)) k out i) = insertion lt k (map f out) i"
proof (induction k arbitrary: out i)
  case (Suc k)
  have "i < length out" using Suc.prems by simp
  then show ?case using Suc.IH [of "Suc i"] Suc.prems by (simp add: map_shift_down)
qed simp

section \<open>Ranking\<close>

definition rank_key :: "Candidate \<Rightarrow> bool \<times> u8 \<times> bool \<times> int \<times> int" where
  "rank_key c = (Failed c, Class c, \<not> Failed c \<and> \<not> measured c,
     (if \<not> Failed c \<and> measured c then RTT (Ev c) else 0), Index c)"

lemma Less_rank_key: "Less x y \<longleftrightarrow> rank_key x < rank_key y"
  by (auto simp: Less_def rank_key_def)

lemma rank_key_inj: "distinct (map Index cs) \<Longrightarrow> inj_on rank_key (set cs)"
  by (auto simp: rank_key_def distinct_map inj_on_def)

lemma insertion_rank:
  assumes "distinct (map Index cs)"
  shows "insertion Less (length cs - 1) cs 1 = sort_key rank_key cs"
proof -
  have k: "key_order Less rank_key (set cs)"
    by standard (use rank_key_inj [OF assms] Less_rank_key in auto)
  show ?thesis
    using key_order.insertion_sort_key [OF k, of cs] assms by (simp add: distinct_map)
qed

lemma Rank_sort_key: "distinct (map Index cs) \<Longrightarrow> Rank cs = map Index (sort_key rank_key cs)"
proof -
  assume d: "distinct (map Index cs)"
  let ?o = "insertion (\<lambda>p q. Less (cs ! p) (cs ! q)) (length cs - 1) [0..<length cs] 1"
  have "Rank cs = map Index (map ((!) cs) ?o)" by (simp add: Rank_def)
  also have "map ((!) cs) ?o = insertion Less (length cs - 1) cs 1"
  proof (cases "cs = []")
    case False
    then have "1 + (length cs - 1) \<le> length [0..<length cs]" by (simp add: Suc_leI)
    then show ?thesis by (simp only: map_insertion map_nth)
  qed simp
  finally show ?thesis by (simp only: insertion_rank [OF d])
qed

definition srtt_key :: "duration list \<Rightarrow> nat \<Rightarrow> bool \<times> int \<times> nat" where
  "srtt_key srtt a = (\<not> srtt ! a > 0, (if srtt ! a > 0 then srtt ! a else 0), a)"

interpretation lanes: key_order "srttLess srtt" "srtt_key srtt" UNIV for srtt
  by standard (auto simp: srttLess_def srtt_key_def Let_def inj_on_def)

section \<open>Fate groups\<close>

primrec one_per_group :: "(int \<Rightarrow> u8) \<Rightarrow> int \<Rightarrow> u8 set \<Rightarrow> int list \<Rightarrow> int list" where
  "one_per_group grp room seen [] = []"
| "one_per_group grp room seen (f # fs) =
     (if room \<le> 0 then []
      else if grp f \<noteq> 0 \<and> grp f \<in> seen then one_per_group grp room seen fs
      else f # one_per_group grp (room - 1) (insert (grp f) seen) fs)"

lemma group_split:
  "unat (drop_bit 6 (g::u8)) < 4" "unat (g AND 63) < 64"
  "drop_bit 6 g = drop_bit 6 h \<and> g AND 63 = h AND 63 \<longleftrightarrow> g = h"
proof -
  have "drop_bit 6 g < 2 ^ 2"
  proof -
    have "drop_bit 6 g = take_bit 2 (drop_bit 6 g)"
      by (rule bit_word_eqI) (auto simp: bit_simps dest: bit_imp_le_length)
    then show ?thesis using and_mask_less' [of 2 "drop_bit 6 g"] by (simp add: take_bit_eq_mask)
  qed
  then show "unat (drop_bit 6 g) < 4" by (simp add: word_less_nat_alt)
  have m: "(63::u8) = mask 6" by (simp add: mask_eq_exp_minus_1)
  have "g AND mask 6 < 2 ^ 6" by (rule and_mask_less') simp
  then show "unat (g AND 63) < 64" by (simp add: m word_less_nat_alt)
  show "drop_bit 6 g = drop_bit 6 h \<and> g AND 63 = h AND 63 \<longleftrightarrow> g = h"
  proof
    assume a: "drop_bit 6 g = drop_bit 6 h \<and> g AND 63 = h AND 63"
    show "g = h"
    proof (rule bit_word_eqI)
      fix n assume "n < LENGTH(8)"
      show "bit g n = bit h n"
      proof (cases "n < 6")
        case True
        have "bit (g AND mask 6) n = bit (h AND mask 6) n" using a by (simp add: m)
        then show ?thesis using True by (simp add: bit_simps)
      next
        case False
        have "bit (drop_bit 6 g) (n - 6) = bit (drop_bit 6 h) (n - 6)" using a by simp
        then show ?thesis using False by (simp add: bit_simps)
      qed
    qed
  qed simp
qed

lemma taken_bit_bit: "taken_bit t g \<longleftrightarrow> bit (t ! unat (drop_bit 6 g)) (unat (g AND 63))"
  unfolding taken_bit_def by (rule and_push_bit_1) (use group_split(2) [of g] in simp)

lemma taken_bit_set:
  assumes "length t = 4"
  shows "taken_bit (take_bit_set t g) h \<longleftrightarrow> h = g \<or> taken_bit t h"
proof -
  have "bit (push_bit (unat (g AND 63)) 1 :: u64) (unat (h AND 63)) \<longleftrightarrow> g AND 63 = h AND 63"
    using group_split(2) [of h] by (auto simp: bit_exp_iff dest: unsigned_word_eqI)
  then show ?thesis
    using assms group_split(1) [of g] group_split(3) [of g h]
    by (auto simp: taken_bit_bit take_bit_set_def Let_def nth_list_update bit_or_iff dest: unsigned_word_eqI)
qed

lemma OnePerGroup_loop_ref:
  "length arr = i + k \<Longrightarrow> w \<le> i \<Longrightarrow> length taken = 4 \<Longrightarrow> (\<And>g. g \<noteq> 0 \<Longrightarrow> taken_bit taken g \<longleftrightarrow> g \<in> seen) \<Longrightarrow>
   OnePerGroup_loop k grp mx arr i w taken =
     take w arr @ one_per_group grp (mx - int w) seen (drop i arr)"
proof (induction k arbitrary: arr i w taken seen)
  case (Suc k)
  have i: "i < length arr" using Suc.prems by simp
  then have d: "drop i arr = arr ! i # drop (Suc i) arr" by (simp add: Cons_nth_drop_Suc)
  let ?f = "arr ! i"
  show ?case
  proof (cases "mx \<le> int w")
    case False
    show ?thesis
    proof (cases "grp ?f \<noteq> 0 \<and> grp ?f \<in> seen")
      case True
      then show ?thesis using Suc.IH [of arr "Suc i" w taken seen] Suc.prems False by (simp add: d Let_def)
    next
      case new: False
      let ?t = "if grp ?f \<noteq> 0 then take_bit_set taken (grp ?f) else taken"
      have "OnePerGroup_loop k grp mx (arr[w := ?f]) (Suc i) (Suc w) ?t =
          take (Suc w) (arr[w := ?f]) @
          one_per_group grp (mx - int (Suc w)) (insert (grp ?f) seen) (drop (Suc i) (arr[w := ?f]))"
      proof (rule Suc.IH)
        show "length ?t = 4" using Suc.prems by (simp add: take_bit_set_def Let_def)
        show "taken_bit ?t g \<longleftrightarrow> g \<in> insert (grp ?f) seen" if "g \<noteq> 0" for g
          using that Suc.prems(3,4) by (auto simp: taken_bit_set)
      qed (use Suc.prems in auto)
      moreover have "take (Suc w) (arr[w := ?f]) = take w arr @ [?f]"
        using i Suc.prems(2) by (simp add: take_Suc_conv_app_nth)
      moreover have "drop (Suc i) (arr[w := ?f]) = drop (Suc i) arr"
        using Suc.prems(2) by (simp add: drop_update_cancel)
      ultimately show ?thesis using new False Suc.prems(4) by (auto simp: d Let_def algebra_simps)
    qed
  qed (simp add: d)
qed simp

lemma OnePerGroup_ref: "OnePerGroup order grp mx = one_per_group grp mx {} order"
  using OnePerGroup_loop_ref [of order 0 "length order" 0 "replicate 4 0" "{}" grp mx]
    group_split(1) by (simp add: OnePerGroup_def taken_bit_bit nth_replicate)

lemma one_per_group_subset: "set (one_per_group grp room seen order) \<subseteq> set order"
  by (induction order arbitrary: room seen) auto

lemma one_per_group_spec:
  "subseq (one_per_group grp room seen order) order \<and>
   int (length (one_per_group grp room seen order)) \<le> max room 0 \<and>
   distinct [g \<leftarrow> map grp (one_per_group grp room seen order). g \<noteq> 0] \<and>
   (\<forall>f\<in>set (one_per_group grp room seen order). grp f = 0 \<or> grp f \<notin> seen) \<and>
   (int (length (one_per_group grp room seen order)) < room \<longrightarrow>
      (\<forall>f\<in>set order. grp f \<in> seen - {0} \<or> f \<in> set (one_per_group grp room seen order) \<or>
         (grp f \<noteq> 0 \<and> grp f \<in> grp ` set (one_per_group grp room seen order))))"
proof (induction order arbitrary: room seen)
  case (Cons f fs)
  consider "room \<le> 0" | "0 < room" "grp f \<noteq> 0 \<and> grp f \<in> seen" | "0 < room" "\<not> (grp f \<noteq> 0 \<and> grp f \<in> seen)"
    by linarith
  then show ?case
  proof cases
    case 2
    then show ?thesis using Cons [of room seen] by auto
  next
    case 3
    have s: "one_per_group grp room seen (f # fs) = f # one_per_group grp (room - 1) (insert (grp f) seen) fs"
      using 3 by auto
    show ?thesis unfolding s using 3 Cons [of "room - 1" "insert (grp f) seen"] by fastforce
  qed auto
qed simp

section \<open>Properties\<close>

lemma sort_key_mset_cong:
  assumes "mset xs = mset ys" and "inj_on key (set xs)" and "distinct xs"
  shows "sort_key key xs = sort_key key ys"
proof -
  have e: "set xs = set ys" "distinct ys"
    using assms(1,3) by (metis set_mset_mset, metis mset_eq_imp_distinct_iff)
  have "map key (sort_key key xs) = map key (sort_key key ys)"
    using assms e by (intro sorted_distinct_set_unique) (auto simp: distinct_map)
  then show ?thesis using assms(2) e(1) by (intro inj_on_map_eq_map [THEN iffD1, of key]) auto
qed

lemma Less_sorted:
  assumes "distinct (map Index cs)"
  shows "sorted_wrt Less (sort_key rank_key cs)"
proof -
  have "sorted_wrt (<) (map rank_key (sort_key rank_key cs))"
    using rank_key_inj [OF assms] assms by (simp add: strict_sorted_iff distinct_map)
  moreover have "Less = (\<lambda>x y. rank_key x < rank_key y)" by (intro ext) (rule Less_rank_key)
  ultimately show ?thesis by (simp add: sorted_wrt_map)
qed

lemma Less_strict:
  "\<not> Less x x" "Less x y \<and> Less y z \<longrightarrow> Less x z" "Index x \<noteq> Index y \<longrightarrow> Less x y \<noteq> Less y x"
proof -
  have "rank_key x \<noteq> rank_key y" if "Index x \<noteq> Index y" using that by (simp add: rank_key_def)
  then show "\<not> Less x x" "Less x y \<and> Less y z \<longrightarrow> Less x z" "Index x \<noteq> Index y \<longrightarrow> Less x y \<noteq> Less y x"
    unfolding Less_rank_key by auto
qed

text \<open>Claim C30: the ranking is the sort by the documented key. \<open>Less\<close> is a strict order: irreflexive,
  transitive, and of two candidates with different indexes exactly one comes first. For candidates with
  distinct indexes \<open>Rank\<close> returns the indexes of the candidates sorted by failed mark, class, measured before
  unmeasured, round-trip time and index, that is in ascending order of \<open>Less\<close>, and the result does not
  depend on the order of the input.\<close>

theorem rank_is_sort:
  assumes "distinct (map Index cs)" and "mset cs' = mset cs"
  shows "Rank cs = map Index (sort_key rank_key cs) \<and> Rank cs' = Rank cs \<and>
    sorted_wrt Less (sort_key rank_key cs) \<and> \<not> Less x x \<and> (Less x y \<and> Less y z \<longrightarrow> Less x z) \<and>
    (Index x \<noteq> Index y \<longrightarrow> Less x y \<noteq> Less y x)"
proof -
  have "distinct (map Index cs')"
    using assms by (metis mset_eq_imp_distinct_iff mset_map)
  then have "Rank cs = map Index (sort_key rank_key cs)" "Rank cs' = Rank cs"
    using assms Rank_sort_key sort_key_mset_cong [OF assms(2) [symmetric] rank_key_inj [OF assms(1)]]
    by (simp_all add: distinct_map)
  then show ?thesis
    using Less_sorted [OF assms(1)] Less_strict(1) [of x] Less_strict(2) [of x y z] Less_strict(3) [of x y] by blast
qed

definition cand :: "int \<Rightarrow> duration \<Rightarrow> bool \<Rightarrow> Candidate" where
  "cand i rtt failed = \<lparr>Index = i, Ev = \<lparr>State = EvFresh, RTT = rtt\<rparr>, Failed = failed, Class = 0\<rparr>"

theorem rank_is_sort_witness:
  "Rank [cand 0 9 True, cand 1 30 False, cand 2 20 False] = [2, 1, 0] \<and>
   Rank [cand 2 20 False, cand 0 9 True, cand 1 30 False] = [2, 1, 0]"
  using rank_is_sort [of "[cand 0 9 True, cand 1 30 False, cand 2 20 False]"
      "[cand 2 20 False, cand 0 9 True, cand 1 30 False]"]
  by (simp add: cand_def rank_key_def measured_def)

text \<open>Lanes are ordered by round-trip time. \<open>SRTTOrder\<close> returns every lane index once,
  lanes with a known time first and by that time, unknown ones last, ties by index.\<close>

theorem srtt_order_is_sort:
  "SRTTOrder srtt = sort_key (srtt_key srtt) [0..<length srtt] \<and>
   mset (SRTTOrder srtt) = mset [0..<length srtt]"
  using lanes.insertion_sort_key [of "[0..<length srtt]" srtt] by (simp add: SRTTOrder_def)

text \<open>Claim C31: one member per fate group, also in place. Although \<open>OnePerGroup\<close> may write its
  result over its input, the result is a subsequence of the original order of at most \<open>max\<close>
  entries, no two of which share a non-zero group; when it is shorter than \<open>max\<close>, every candidate
  was taken or shares its non-zero group with one that was. \<open>GroupFirst\<close> permutes the order so that
  no candidate of the failed group comes before one of another group.\<close>

theorem fate_groups:
  "subseq (OnePerGroup order grp mx) order \<and>
   int (length (OnePerGroup order grp mx)) \<le> max mx 0 \<and>
   distinct [g \<leftarrow> map grp (OnePerGroup order grp mx). g \<noteq> 0] \<and>
   (int (length (OnePerGroup order grp mx)) < mx \<longrightarrow>
      (\<forall>f. f \<in> set order \<longrightarrow> f \<in> set (OnePerGroup order grp mx) \<or>
         (grp f \<noteq> 0 \<and> grp f \<in> grp ` set (OnePerGroup order grp mx)))) \<and>
   mset (GroupFirst order grp failed) = mset order \<and>
   (failed \<noteq> 0 \<longrightarrow> sorted_wrt (\<lambda>f h. \<not> (grp f = failed \<and> grp h \<noteq> failed)) (GroupFirst order grp failed))"
proof -
  have "sorted_wrt (\<lambda>f h. \<not> (grp f = failed \<and> grp h \<noteq> failed)) [f \<leftarrow> order. grp f \<noteq> failed]"
    "sorted_wrt (\<lambda>f h. \<not> (grp f = failed \<and> grp h \<noteq> failed)) [f \<leftarrow> order. grp f = failed]"
    by (induction order) auto
  moreover have "mset [f \<leftarrow> order. grp f \<noteq> failed] + mset [f \<leftarrow> order. grp f = failed] = mset order"
    by (induction order) auto
  ultimately show ?thesis
    using one_per_group_spec [of grp mx "{}" order]
    by (auto simp: OnePerGroup_ref GroupFirst_def sorted_wrt_append)
qed

definition sample_group :: "int \<Rightarrow> u8" where
  "sample_group f = (if f = 6 then 2 else 1)"

theorem fate_groups_witness:
  "OnePerGroup [4, 5, 6] sample_group 16 = [4, 6] \<and>
   (5 \<in> set [4, 6 :: int] \<or> sample_group 5 \<noteq> 0 \<and> sample_group 5 \<in> sample_group ` set [4, 6])"
proof -
  have r: "OnePerGroup [4, 5, 6] sample_group 16 = [4, 6]"
    by (simp add: OnePerGroup_ref sample_group_def)
  have "5 \<in> set [4, 5, 6 :: int]" "int (length [4, 6 :: int]) < 16" by simp_all
  note m = this
  show ?thesis
    by (rule conjI [OF r])
      (rule fate_groups [of "[4, 5, 6]" sample_group 16 0, unfolded r,
          THEN conjunct2, THEN conjunct2, THEN conjunct2, THEN conjunct1, rule_format, OF m(2) m(1)])
qed

end
