(* ===== verification/Sched_Race.thy ===== *)
theory Sched_Race
  imports Go_Num "HOL-Library.Multiset"
begin

text \<open>
  The staggered candidate race of \<open>internal/sched/race.go\<close> and \<open>earlier\<close> of \<open>selector.go\<close>. The
  properties say which candidate \<open>Next\<close> starts and when, that it never wakes too late, and that a
  candidate that stays ready is started within one cycle.
\<close>

section \<open>Definitions\<close>

text \<open>The earlier of two instants, the zero Time meaning never.\<close>

definition earlier :: "go_time \<Rightarrow> go_time \<Rightarrow> go_time" where
  "earlier a b = (if IsZero a \<or> (\<not> IsZero b \<and> b < a) then b else a)"

definition maxRaceOrder :: nat where [simp]: "maxRaceOrder = 16"

text \<open>\<open>order\<close> is the fixed array of the source, padded with zeros.\<close>

record Race =
  race_order :: "int list"
  race_n :: nat
  cursor :: nat
  stagger :: duration
  race_last :: go_time
  race_started :: bool

definition NewRace :: "int list \<Rightarrow> duration \<Rightarrow> Race" where
  "NewRace order stag =
     \<lparr>race_order = take maxRaceOrder order @ replicate (maxRaceOrder - length order) 0,
      race_n = min maxRaceOrder (length order), cursor = 0, stagger = stag,
      race_last = 0, race_started = False\<rparr>"

text \<open>The loop of \<open>Next\<close>: \<open>m\<close> candidates are left, the next one is the \<open>k\<close>-th after the cursor.\<close>

fun Next_loop ::
    "nat \<Rightarrow> nat \<Rightarrow> Race \<Rightarrow> go_time \<Rightarrow> (int \<Rightarrow> bool \<times> go_time) \<Rightarrow> go_time \<Rightarrow> int \<times> bool \<times> go_time \<times> Race" where
  "Next_loop 0 k r now ready wake = (- 1, False, wake, r)"
| "Next_loop (Suc m) k r now ready wake =
     (let pos = (cursor r + k) mod race_n r;
          cand = race_order r ! pos;
          (ok, at) = ready cand
      in if ok
         then (cand, True, now + stagger r,
               r\<lparr>cursor := (pos + 1) mod race_n r, race_last := now, race_started := True\<rparr>)
         else Next_loop m (Suc k) r now ready (if now < at then earlier wake at else wake))"

definition Next ::
    "Race \<Rightarrow> go_time \<Rightarrow> int \<Rightarrow> (int \<Rightarrow> bool \<times> go_time) \<Rightarrow> int \<times> bool \<times> go_time \<times> Race" where
  "Next r now outstanding ready =
     (if race_n r = 0 then (- 1, False, 0, r)
      else if outstanding > 0 \<and> race_started r \<and> now < race_last r + stagger r
      then (- 1, False, race_last r + stagger r, r)
      else Next_loop (race_n r) 0 r now ready 0)"

section \<open>Lemmas\<close>

definition race_ok :: "Race \<Rightarrow> bool" where
  "race_ok r \<longleftrightarrow> length (race_order r) = maxRaceOrder \<and> race_n r \<le> maxRaceOrder \<and>
     (race_n r = 0 \<or> cursor r < race_n r)"

text \<open>The candidates in the order in which \<open>Next\<close> considers them.\<close>

definition cands :: "Race \<Rightarrow> int list" where
  "cands r = map (\<lambda>k. race_order r ! ((cursor r + k) mod race_n r)) [0..<race_n r]"

definition soonest :: "go_time \<Rightarrow> (int \<Rightarrow> bool \<times> go_time) \<Rightarrow> int list \<Rightarrow> go_time" where
  "soonest now ready cs = foldl earlier 0 [snd (ready c). c \<leftarrow> cs, now < snd (ready c)]"

lemma earlier_min: "0 < a \<Longrightarrow> 0 < b \<Longrightarrow> earlier a b = min a b"
  by (auto simp: earlier_def IsZero_def)

lemma earlier_0 [simp]: "earlier 0 b = b" "earlier a 0 = a"
  by (auto simp: earlier_def IsZero_def)

lemma earlier_pos: "0 < a \<Longrightarrow> 0 \<le> b \<Longrightarrow> 0 < earlier a b"
  by (auto simp: earlier_def IsZero_def)

lemma foldl_earlier_min:
  "0 < a \<Longrightarrow> \<forall>x\<in>set xs. 0 < x \<Longrightarrow> foldl earlier a xs = Min (insert a (set xs))"
proof (induction xs arbitrary: a)
  case (Cons x xs)
  then have "foldl earlier a (x # xs) = Min (insert (min a x) (set xs))"
    by (simp add: earlier_min)
  also have "\<dots> = Min (insert a (insert x (set xs)))"
    by (cases xs) (simp_all add: min.assoc)
  finally show ?case by simp
qed simp

lemma foldl_earlier_0:
  "\<forall>x\<in>set xs. 0 < x \<Longrightarrow> foldl earlier 0 xs = (if xs = [] then 0 else Min (set xs))"
  by (cases xs) (simp_all add: foldl_earlier_min)

lemma Next_loop_spec:
  assumes "k + m \<le> race_n r"
  shows "Next_loop m k r now ready wake =
    (case find (\<lambda>j. fst (ready (race_order r ! ((cursor r + j) mod race_n r)))) [k..<k + m] of
       Some j \<Rightarrow> (race_order r ! ((cursor r + j) mod race_n r), True, now + stagger r,
          r\<lparr>cursor := ((cursor r + j) mod race_n r + 1) mod race_n r, race_last := now, race_started := True\<rparr>)
     | None \<Rightarrow> (- 1, False,
          foldl earlier wake [snd (ready c). c \<leftarrow> map (\<lambda>j. race_order r ! ((cursor r + j) mod race_n r)) [k..<k + m],
             now < snd (ready c)], r))"
  using assms
proof (induction m arbitrary: k wake)
  case (Suc m)
  have u: "[k..<k + Suc m] = k # [Suc k..<Suc k + m]" by (simp add: upt_conv_Cons del: upt_Suc)
  obtain ok at where r: "ready (race_order r ! ((cursor r + k) mod race_n r)) = (ok, at)" by fastforce
  have le: "Suc k + m \<le> race_n r" using Suc.prems by simp
  show ?case
    unfolding u using r by (simp add: Let_def Suc.IH [OF le] split: option.split del: upt_Suc add_Suc)
qed simp

text \<open>The result of a call that is not held back by the stagger.\<close>

lemma Next_spec:
  assumes "race_n r > 0" and "\<not> (outstanding > 0 \<and> race_started r \<and> now < race_last r + stagger r)"
  shows "Next r now outstanding ready =
    (case find (\<lambda>j. fst (ready (cands r ! j))) [0..<race_n r] of
       Some j \<Rightarrow> (cands r ! j, True, now + stagger r,
          r\<lparr>cursor := (cursor r + j + 1) mod race_n r, race_last := now, race_started := True\<rparr>)
     | None \<Rightarrow> (- 1, False, soonest now ready (cands r), r))"
proof -
  have f: "find (\<lambda>j. fst (ready (race_order r ! ((cursor r + j) mod race_n r)))) [0..<race_n r] =
      find (\<lambda>j. fst (ready (cands r ! j))) [0..<race_n r]"
    by (rule find_cong) (auto simp: cands_def)
  have n: "Next r now outstanding ready = Next_loop (race_n r) 0 r now ready 0"
    using assms by (auto simp: Next_def)
  show ?thesis
  proof (cases "find (\<lambda>j. fst (ready (cands r ! j))) [0..<race_n r]")
    case None
    then show ?thesis unfolding n by (subst Next_loop_spec) (simp_all add: f soonest_def cands_def)
  next
    case (Some j)
    then have "j < race_n r" by (auto simp: find_Some_iff)
    then show ?thesis
      unfolding n using Some by (subst Next_loop_spec) (simp_all add: f cands_def mod_simps)
  qed
qed

lemma Next_cases:
  assumes "Next r now outstanding ready = (idx, st, wake, r')"
  obtains (wait) "\<not> st" "r' = r" "idx = - 1"
  | (go) j where "st" "j < race_n r" "idx = cands r ! j" "fst (ready idx)" "\<forall>i<j. \<not> fst (ready (cands r ! i))"
      "wake = now + stagger r"
      "r' = r\<lparr>cursor := (cursor r + j + 1) mod race_n r, race_last := now, race_started := True\<rparr>"
proof (cases "race_n r = 0 \<or> (outstanding > 0 \<and> race_started r \<and> now < race_last r + stagger r)")
  case True
  then show ?thesis using assms wait by (auto simp: Next_def split: if_splits)
next
  case False
  then have "Next r now outstanding ready =
    (case find (\<lambda>j. fst (ready (cands r ! j))) [0..<race_n r] of
       Some j \<Rightarrow> (cands r ! j, True, now + stagger r,
          r\<lparr>cursor := (cursor r + j + 1) mod race_n r, race_last := now, race_started := True\<rparr>)
     | None \<Rightarrow> (- 1, False, soonest now ready (cands r), r))"
    by (intro Next_spec) auto
  then show ?thesis
    using assms wait go by (auto split: option.splits simp: find_Some_iff)
qed

lemma race_ok_New [simp]: "race_ok (NewRace order stag)"
  by (auto simp: race_ok_def NewRace_def)

lemma race_ok_Next: "race_ok r \<Longrightarrow> Next r now outstanding ready = (idx, st, wake, r') \<Longrightarrow> race_ok r'"
  by (erule Next_cases) (auto simp: race_ok_def)

text \<open>The candidates considered are the race's candidates, rotated.\<close>

lemma cands_rotate: "race_ok r \<Longrightarrow> cands r = rotate (cursor r) (take (race_n r) (race_order r))"
  by (rule nth_equalityI) (auto simp: cands_def race_ok_def nth_rotate)

lemma mset_rotate [simp]: "mset (rotate k xs) = mset xs"
proof (induction k)
  case (Suc k)
  have "mset (rotate1 ys) = mset ys" for ys :: "'a list" by (cases ys) auto
  then show ?case using Suc by simp
qed simp

text \<open>The candidates that a series of calls starts.\<close>

type_synonym race_call = "go_time \<times> int \<times> (int \<Rightarrow> bool \<times> go_time)"

primrec race_picks :: "Race \<Rightarrow> race_call list \<Rightarrow> int list" where
  "race_picks r [] = []"
| "race_picks r (x # xs) =
     (case x of (now, outstanding, ready) \<Rightarrow>
        case Next r now outstanding ready of (idx, st, wake, r') \<Rightarrow>
          if st then idx # race_picks r' xs else race_picks r' xs)"

lemma race_fair:
  assumes "d < race_n r" and "d < length (race_picks r xs)"
    and "\<And>now outstanding ready. (now, outstanding, ready) \<in> set xs \<Longrightarrow> fst (ready (cands r ! d))"
  shows "cands r ! d \<in> set (race_picks r xs)"
  using assms
proof (induction xs arbitrary: r d)
  case (Cons x xs)
  obtain now outstanding ready where x: "x = (now, outstanding, ready)" by (cases x)
  obtain idx st wake r' where n: "Next r now outstanding ready = (idx, st, wake, r')"
    by (cases "Next r now outstanding ready")
  show ?case
  proof (rule Next_cases [OF n])
    assume "\<not> st" "r' = r"
    then show ?thesis using Cons.IH [of d r] Cons.prems x n by auto
  next
    fix j
    assume j: "st" "j < race_n r" "idx = cands r ! j" "\<forall>i<j. \<not> fst (ready (cands r ! i))"
      and r': "r' = r\<lparr>cursor := (cursor r + j + 1) mod race_n r, race_last := now, race_started := True\<rparr>"
    have "fst (ready (cands r ! d))" using Cons.prems(3) x by auto
    then have "\<not> d < j" using j(4) by blast
    then consider "j = d" | "j < d" by linarith
    then show ?thesis
    proof cases
      case 1
      then show ?thesis using x n j by simp
    next
      case 2
      have "(cursor r + j + 1 + (d - Suc j)) mod race_n r = (cursor r + d) mod race_n r" using 2 by simp
      then have "cands r' ! (d - Suc j) = cands r ! d"
        using Cons.prems(1) less_imp_diff_less [OF Cons.prems(1), of "Suc j"] by (simp add: cands_def r' mod_simps)
      moreover have "d - Suc j < race_n r'" using Cons.prems(1) by (simp add: r')
      moreover have "d - Suc j < length (race_picks r' xs)" using Cons.prems(2) 2 x n j(1) by simp
      moreover have "fst (ready (cands r ! d))" if "(now, outstanding, ready) \<in> set xs" for now outstanding ready
        using Cons.prems(3) that by (meson list.set_intros(2))
      ultimately have "cands r ! d \<in> set (race_picks r' xs)" using Cons.IH [of "d - Suc j" r'] by simp
      then show ?thesis using x n j(1) by simp
    qed
  qed
qed simp

section \<open>Properties\<close>

text \<open>What \<open>Next\<close> decides. While an attempt is outstanding and the stagger has not passed,
  nothing starts and the wake time is the end of the stagger. Otherwise the first ready candidate in
  rank order, cycling from the one after the last started, starts; when none is ready, the wake time is
  the earliest future readiness, and zero when there is none.\<close>

theorem race_next_exact:
  assumes "race_ok r" and "race_n r > 0" and "0 \<le> now"
    and "Next r now outstanding ready = (idx, st, wake, r')"
  shows "mset (cands r) = mset (take (race_n r) (race_order r)) \<and> race_ok r' \<and>
    (if outstanding > 0 \<and> race_started r \<and> now < race_last r + stagger r
     then \<not> st \<and> wake = race_last r + stagger r \<and> r' = r
     else if \<exists>c\<in>set (cands r). fst (ready c)
     then \<exists>j<race_n r. st \<and> idx = cands r ! j \<and> fst (ready idx) \<and>
       (\<forall>i<j. \<not> fst (ready (cands r ! i))) \<and> wake = now + stagger r \<and>
       cands r' = rotate (Suc j) (cands r) \<and> race_last r' = now
     else \<not> st \<and> r' = r \<and>
       (let future = {snd (ready c) |c. c \<in> set (cands r) \<and> now < snd (ready c)}
        in wake = (if future = {} then 0 else Min future)))"
proof -
  have m: "mset (cands r) = mset (take (race_n r) (race_order r))" using cands_rotate [OF assms(1)] by simp
  have ok: "race_ok r'" using race_ok_Next [OF assms(1,4)] .
  have len: "length (cands r) = race_n r" by (simp add: cands_def)
  have go: "cands r' = rotate (Suc j) (cands r)"
    if "r' = r\<lparr>cursor := (cursor r + j + 1) mod race_n r, race_last := now, race_started := True\<rparr>" for j
  proof -
    let ?o = "take (race_n r) (race_order r)"
    have "length ?o = race_n r" using assms(1) by (simp add: race_ok_def)
    then have "rotate ((cursor r + j + 1) mod race_n r) ?o = rotate (Suc j + cursor r) ?o"
      by (metis rotate_conv_mod add.commute add_Suc_right plus_1_eq_Suc add.left_commute)
    then show ?thesis
      unfolding cands_rotate [OF ok] cands_rotate [OF assms(1)] rotate_rotate by (simp add: that)
  qed
  show ?thesis
  proof (cases "outstanding > 0 \<and> race_started r \<and> now < race_last r + stagger r")
    case True
    then show ?thesis using m ok assms(2,4) by (auto simp: Next_def)
  next
    case False
    note sp = Next_spec [OF assms(2) False, of ready, unfolded assms(4)]
    show ?thesis
    proof (cases "find (\<lambda>j. fst (ready (cands r ! j))) [0..<race_n r]")
      case None
      then have none: "\<not> (\<exists>c\<in>set (cands r). fst (ready c))"
        by (auto simp: find_None_iff in_set_conv_nth len)
      let ?w = "[snd (ready c). c \<leftarrow> cands r, now < snd (ready c)]"
      let ?F = "{snd (ready c) |c. c \<in> set (cands r) \<and> now < snd (ready c)}"
      have F: "set ?w = ?F" by (auto split: if_splits)
      have "\<forall>x\<in>set ?w. 0 < x" using assms(3) by auto
      then have "soonest now ready (cands r) = (if ?F = {} then 0 else Min ?F)"
        unfolding soonest_def by (subst foldl_earlier_0) (simp_all only: F set_empty [symmetric])
      moreover have "\<not> st" "wake = soonest now ready (cands r)" "r' = r" using sp None by auto
      ultimately show ?thesis using m ok unfolding if_not_P [OF False] if_not_P [OF none] Let_def by blast
    next
      case (Some j)
      then have "j < race_n r" "fst (ready (cands r ! j))" "\<forall>i<j. \<not> fst (ready (cands r ! i))"
        by (auto simp: find_Some_iff)
      moreover have "\<exists>c\<in>set (cands r). fst (ready c)" using calculation len nth_mem by metis
      ultimately show ?thesis using sp Some m ok False go [of j] by auto
    qed
  qed
qed

text \<open>Claim C37: fairness. A candidate whose slot is ready at every call is started within as many starts
  as there are candidates, whatever the other slots do.\<close>

theorem race_starts_every_candidate:
  assumes "race_ok r" and "c \<in> set (take (race_n r) (race_order r))"
    and "race_n r \<le> length (race_picks r xs)"
    and "\<And>now outstanding ready. (now, outstanding, ready) \<in> set xs \<Longrightarrow> fst (ready c)"
  shows "c \<in> set (race_picks r xs)"
proof -
  have "set (cands r) = set (take (race_n r) (race_order r))" using cands_rotate [OF assms(1)] by simp
  then have "c \<in> set (cands r)" using assms(2) by simp
  then obtain d where "d < race_n r" "c = cands r ! d"
    unfolding in_set_conv_nth by (auto simp: cands_def)
  then show ?thesis using race_fair [of d r xs] assms(3,4) by auto
qed

definition always :: "int \<Rightarrow> bool \<times> go_time" where "always c = (True, 0)"

theorem race_next_exact_witness:
  "\<not> fst (snd (Next (NewRace [7, 4] 250) 100 0 (\<lambda>c. (False, 300 + c)))) \<and>
   fst (snd (snd (Next (NewRace [7, 4] 250) 100 0 (\<lambda>c. (False, 300 + c))))) = 304"
proof -
  let ?n = "Next (NewRace [7, 4] 250) 100 0 (\<lambda>c. (False, 300 + c))"
  have c: "cands (NewRace [7, 4] 250) = [7, 4]" by code_simp
  have f: "{snd (False, 300 + c) |c. c \<in> set [7, 4] \<and> 100 < snd (False, 300 + (c::int))} = {307, 304}" by auto
  show ?thesis
    using race_next_exact [of "NewRace [7, 4] 250" 100 0 "\<lambda>c. (False, 300 + c)"
        "fst ?n" "fst (snd ?n)" "fst (snd (snd ?n))" "snd (snd (snd ?n))"]
    unfolding c f by (simp add: NewRace_def race_ok_def Let_def)
qed

theorem race_starts_every_candidate_witness:
  "4 \<in> set (race_picks (NewRace [7, 4] 250) [(100, 0, always), (400, 1, always)])"
proof (rule race_starts_every_candidate)
  show "race_n (NewRace [7, 4] 250) \<le> length (race_picks (NewRace [7, 4] 250) [(100, 0, always), (400, 1, always)])"
    by code_simp
qed (auto simp: always_def NewRace_def race_ok_def)

end
