(* ===== verification/Sched_Selector.thy ===== *)
theory Sched_Selector
  imports Sched_Rank Sched_Race Sched_Formula
begin

unbundle bit_operations_syntax

text \<open>
  The quality selector of \<open>internal/sched/selector.go\<close>: when a dialer session moves to another
  factory. \<open>Evaluate\<close> is its loop over the factories with the dwell clocks in a 32-bit mask and two
  arrays of sixteen instants. The properties: a switch is only ever made to a qualifying challenger
  whose own dwell has run for the whole time against this incumbent, after the cooldown, and to the
  best such one; and no switch is missed by a caller that evaluates again at the returned instant.
\<close>

section \<open>Definitions\<close>

record SelectorParams =
  Band :: f64
  Floor :: duration
  Dwell :: duration
  Cooldown :: duration
  Fresh :: duration

record Selector =
  sel_p :: SelectorParams
  sel_inc :: int
  qual :: u32
  since :: "go_time list"
  seen :: "go_time list"
  lastQual :: go_time
  hasQual :: bool
  sel_class :: "u8 list"

record Verdict =
  Switch :: bool
  To :: int
  Wake :: go_time

definition NewSelector :: "SelectorParams \<Rightarrow> Selector" where
  "NewSelector p = \<lparr>sel_p = p, sel_inc = 0, qual = 0, since = replicate maxFactories 0,
     seen = replicate maxFactories 0, lastQual = 0, hasQual = False, sel_class = replicate maxFactories 0\<rparr>"

definition SetClasses :: "Selector \<Rightarrow> u8 list \<Rightarrow> Selector" where
  "SetClasses s c =
     s\<lparr>sel_class := take maxFactories c @ replicate (maxFactories - length c) 0\<rparr>"

definition challenger :: "Selector \<Rightarrow> go_time \<Rightarrow> nat \<Rightarrow> Summary list \<Rightarrow> bool list \<Rightarrow> Evidence \<times> bool" where
  "challenger s now i sumv failed =
     (if i < length failed \<and> failed ! i then (\<lparr>State = EvUnknown, RTT = 0\<rparr>, False)
      else
       let ev = Classify (sumv ! i) now (Fresh (sel_p s))
       in (ev, State ev = EvFresh \<and> RTT ev > 0 \<and> \<not> At (sumv ! i) < LoadedAt (sumv ! i)))"

definition gap :: "Selector \<Rightarrow> nat \<Rightarrow> go_time \<Rightarrow> bool" where
  "gap s i t \<longleftrightarrow> t < seen s ! i \<or> seen s ! i + w64 (Fresh (sel_p s) + 1) < t"

definition classOf :: "Selector \<Rightarrow> int \<Rightarrow> u8" where
  "classOf s i = (if i < 0 \<or> i \<ge> int maxFactories then 0 else sel_class s ! nat i)"

definition qualifies :: "Selector \<Rightarrow> Evidence \<Rightarrow> u8 \<Rightarrow> Evidence \<Rightarrow> u8 \<Rightarrow> bool" where
  "qualifies s act actClass ch chClass =
     (if chClass > actClass then False
      else if chClass < actClass then True
      else if State act = EvFresh \<or> State act = EvHeld
      then if RTT act \<le> 0 then False
           else f_le (Fin (f_int (RTT ch))) (f_mul (Fin (f_int (RTT act))) (f_sub (Fin 1) (Band (sel_p s)))) \<and>
             w64 (RTT act - RTT ch) \<ge> Floor (sel_p s)
      else True)"

definition ageWake :: "Selector \<Rightarrow> go_time \<Rightarrow> Summary list \<Rightarrow> go_time" where
  "ageWake s now sumv = foldl (\<lambda>w x. earlier w (NextChange x now (Fresh (sel_p s)))) 0 sumv"

text \<open>One iteration of the loop of \<open>Evaluate\<close>; the accumulator holds the selector, \<open>best\<close>, \<open>bestRTT\<close> and
  \<open>dwellEnd\<close>.\<close>

definition eval_step ::
    "go_time \<Rightarrow> int \<Rightarrow> Evidence \<Rightarrow> u8 \<Rightarrow> Summary list \<Rightarrow> bool list \<Rightarrow> nat \<Rightarrow>
     Selector \<times> int \<times> duration \<times> go_time \<Rightarrow> Selector \<times> int \<times> duration \<times> go_time" where
  "eval_step now active act actClass sumv failed i acc =
     (case acc of (s, best, bestRTT, dwellEnd) \<Rightarrow>
       if int i = active then acc
       else
        let bit = push_bit i 1;
            (ev, ok) = challenger s now i sumv failed
        in if \<not> ok \<or> \<not> qualifies s act actClass ev (sel_class s ! i)
           then (s\<lparr>qual := qual s AND NOT bit\<rparr>, best, bestRTT, dwellEnd)
           else
            let s = (if qual s AND bit = 0 \<or> gap s i (At (sumv ! i))
                     then s\<lparr>qual := qual s OR bit, since := (since s)[i := now]\<rparr> else s);
                s = s\<lparr>seen := (seen s)[i := At (sumv ! i)]\<rparr>;
                e = since s ! i + Dwell (sel_p s)
            in if now < e then (s, best, bestRTT, earlier dwellEnd e)
               else if best < 0 \<or> sel_class s ! i < sel_class s ! nat best \<or>
                  (sel_class s ! i = sel_class s ! nat best \<and> RTT ev < bestRTT)
               then (s, int i, RTT ev, dwellEnd)
               else (s, best, bestRTT, dwellEnd))"

definition Evaluate :: "Selector \<Rightarrow> go_time \<Rightarrow> int \<Rightarrow> Summary list \<Rightarrow> bool list \<Rightarrow> Verdict \<times> Selector" where
  "Evaluate s now active sumv failed =
     (let w = ageWake s now sumv
      in if active < 0 \<or> active \<ge> int (length sumv)
         then (\<lparr>Switch = False, To = 0, Wake = w\<rparr>, s\<lparr>qual := 0\<rparr>)
         else
          let s = (if active \<noteq> sel_inc s then s\<lparr>qual := 0, sel_inc := active\<rparr> else s);
              n = min (length sumv) maxFactories;
              s = s\<lparr>qual := qual s AND (push_bit n 1 - 1)\<rparr>;
              act = Classify (sumv ! nat active) now (Fresh (sel_p s));
              actClass = classOf s active;
              (s, best, bestRTT, dwellEnd) =
                fold (eval_step now active act actClass sumv failed) [0..<n] (s, - 1, 0, 0)
          in if best < 0 then (\<lparr>Switch = False, To = 0, Wake = earlier w dwellEnd\<rparr>, s)
             else if hasQual s \<and> now < lastQual s + Cooldown (sel_p s)
             then (\<lparr>Switch = False, To = 0, Wake = earlier w (lastQual s + Cooldown (sel_p s))\<rparr>, s)
             else (\<lparr>Switch = True, To = best, Wake = w\<rparr>, s))"

definition Switched :: "Selector \<Rightarrow> go_time \<Rightarrow> bool \<Rightarrow> Selector" where
  "Switched s now quality =
     (let s = s\<lparr>qual := 0\<rparr> in if quality then s\<lparr>lastQual := now, hasQual := True\<rparr> else s)"

section \<open>Lemmas\<close>

definition sel_ok :: "Selector \<Rightarrow> bool" where
  "sel_ok s \<longleftrightarrow> length (since s) = maxFactories \<and> length (seen s) = maxFactories \<and>
     length (sel_class s) = maxFactories"

text \<open>Whether factory \<open>i\<close> qualifies as a challenger of \<open>active\<close>; it depends on the parameters and the
  classes only.\<close>

definition chal :: "Selector \<Rightarrow> go_time \<Rightarrow> int \<Rightarrow> Summary list \<Rightarrow> bool list \<Rightarrow> nat \<Rightarrow> bool" where
  "chal s now active sumv failed i \<longleftrightarrow>
     int i \<noteq> active \<and> snd (challenger s now i sumv failed) \<and>
     qualifies s (Classify (sumv ! nat active) now (Fresh (sel_p s))) (classOf s active)
       (Classify (sumv ! i) now (Fresh (sel_p s))) (sel_class s ! i)"

text \<open>The parts of the state that the loop never writes.\<close>

definition same_frame :: "Selector \<Rightarrow> Selector \<Rightarrow> bool" where
  "same_frame s t \<longleftrightarrow> sel_p t = sel_p s \<and> sel_inc t = sel_inc s \<and> lastQual t = lastQual s \<and>
     hasQual t = hasQual s \<and> sel_class t = sel_class s"

lemma frame_cong:
  assumes "same_frame s t"
  shows "chal t = chal s" "challenger t = challenger s" "qualifies t = qualifies s" "classOf t = classOf s"
    "ageWake t = ageWake s"
  using assms by (auto simp: same_frame_def chal_def challenger_def qualifies_def classOf_def ageWake_def fun_eq_iff)

definition rank_le :: "Selector \<Rightarrow> go_time \<Rightarrow> Summary list \<Rightarrow> nat \<Rightarrow> nat \<Rightarrow> bool" where
  "rank_le s now sumv i j \<longleftrightarrow>
     (sel_class s ! i, RTT (Classify (sumv ! i) now (Fresh (sel_p s))), i) \<le>
     (sel_class s ! j, RTT (Classify (sumv ! j) now (Fresh (sel_p s))), j)"

text \<open>The start of factory \<open>i\<close>'s continuous qualification after this evaluation, when it qualifies, and
  whether its dwell has run its time.\<close>

definition clock :: "Selector \<Rightarrow> go_time \<Rightarrow> Summary list \<Rightarrow> nat \<Rightarrow> go_time" where
  "clock s now sumv i = (if \<not> bit (qual s) i \<or> gap s i (At (sumv ! i)) then now else since s ! i)"

definition dwelt :: "Selector \<Rightarrow> go_time \<Rightarrow> Summary list \<Rightarrow> nat \<Rightarrow> bool" where
  "dwelt s now sumv i \<longleftrightarrow> clock s now sumv i + Dwell (sel_p s) \<le> now"

text \<open>What the loop has computed after the first \<open>k\<close> factories, from the state \<open>s\<close>: the clocks, and the
  choice.\<close>

definition clocks_inv ::
    "Selector \<Rightarrow> go_time \<Rightarrow> int \<Rightarrow> Summary list \<Rightarrow> bool list \<Rightarrow> nat \<Rightarrow> Selector \<Rightarrow> bool" where
  "clocks_inv s now active sumv failed k t \<longleftrightarrow>
     same_frame s t \<and> sel_ok t \<and>
     (\<forall>j. bit (qual t) j \<longleftrightarrow>
        (if j < k \<and> int j \<noteq> active then chal s now active sumv failed j else bit (qual s) j)) \<and>
     (\<forall>j<16. since t ! j =
        (if j < k \<and> chal s now active sumv failed j then clock s now sumv j else since s ! j)) \<and>
     (\<forall>j<16. seen t ! j =
        (if j < k \<and> chal s now active sumv failed j then At (sumv ! j) else seen s ! j))"

definition best_inv ::
    "Selector \<Rightarrow> go_time \<Rightarrow> int \<Rightarrow> Summary list \<Rightarrow> bool list \<Rightarrow> nat \<Rightarrow> int \<Rightarrow> duration \<Rightarrow> bool" where
  "best_inv s now active sumv failed k best bestRTT \<longleftrightarrow>
     (let elig = (\<lambda>j. j < k \<and> chal s now active sumv failed j \<and> dwelt s now sumv j)
      in if best < 0 then \<forall>j. \<not> elig j
         else elig (nat best) \<and> bestRTT = RTT (Classify (sumv ! nat best) now (Fresh (sel_p s))) \<and>
           (\<forall>j. elig j \<longrightarrow> rank_le s now sumv (nat best) j))"

definition waits ::
    "Selector \<Rightarrow> go_time \<Rightarrow> int \<Rightarrow> Summary list \<Rightarrow> bool list \<Rightarrow> nat \<Rightarrow> go_time list" where
  "waits s now active sumv failed k =
     [clock s now sumv j + Dwell (sel_p s). j \<leftarrow> [0..<k], chal s now active sumv failed j \<and> \<not> dwelt s now sumv j]"

definition loop_inv ::
    "Selector \<Rightarrow> go_time \<Rightarrow> int \<Rightarrow> Summary list \<Rightarrow> bool list \<Rightarrow> nat \<Rightarrow>
     Selector \<times> int \<times> duration \<times> go_time \<Rightarrow> bool" where
  "loop_inv s now active sumv failed k acc \<longleftrightarrow>
     (case acc of (t, best, bestRTT, dwellEnd) \<Rightarrow>
       clocks_inv s now active sumv failed k t \<and> best_inv s now active sumv failed k best bestRTT \<and>
       dwellEnd = foldl earlier 0 (waits s now active sumv failed k))"

lemma bit_push1 [simp]: "bit (push_bit k 1 :: u32) j \<longleftrightarrow> j = k \<and> k < 32"
  by (auto simp: bit_simps)

lemma bit_clear1: "k < 32 \<Longrightarrow> bit ((q :: u32) AND NOT (push_bit k 1)) j \<longleftrightarrow> bit q j \<and> j \<noteq> k"
  by (auto simp: bit_simps dest: bit_imp_le_length)

lemma bit_set1: "k < 32 \<Longrightarrow> bit ((q :: u32) OR push_bit k 1) j \<longleftrightarrow> bit q j \<or> j = k"
  by (auto simp: bit_simps)

lemma and_push1: "k < 32 \<Longrightarrow> (q :: u32) AND push_bit k 1 = 0 \<longleftrightarrow> \<not> bit q k"
  using and_push_bit_1 [of k q] by auto

lemma same_frame_refl [simp]: "same_frame s s"
  by (simp add: same_frame_def)

lemma chal_snd: "snd (challenger s now i sumv failed) \<Longrightarrow>
    fst (challenger s now i sumv failed) = Classify (sumv ! i) now (Fresh (sel_p s))"
  by (auto simp: challenger_def Let_def split: if_splits)

text \<open>One iteration, in terms of \<open>chal\<close>.\<close>

definition clocked :: "Selector \<Rightarrow> go_time \<Rightarrow> Summary list \<Rightarrow> nat \<Rightarrow> Selector" where
  "clocked t now sumv k =
     (let r = \<not> bit (qual t) k \<or> gap t k (At (sumv ! k))
      in t\<lparr>qual := (if r then qual t OR push_bit k 1 else qual t),
           since := (if r then (since t)[k := now] else since t),
           seen := (seen t)[k := At (sumv ! k)]\<rparr>)"

lemma eval_step_eq:
  assumes "same_frame s t" and "k < 32"
  shows "eval_step now active (Classify (sumv ! nat active) now (Fresh (sel_p s))) (classOf s active) sumv failed k
      (t, best, bestRTT, dwellEnd) =
    (if int k = active then (t, best, bestRTT, dwellEnd)
     else if \<not> chal s now active sumv failed k
     then (t\<lparr>qual := qual t AND NOT (push_bit k 1)\<rparr>, best, bestRTT, dwellEnd)
     else
      let u = clocked t now sumv k; rtt = RTT (Classify (sumv ! k) now (Fresh (sel_p s)))
      in if now < since u ! k + Dwell (sel_p s) then (u, best, bestRTT, earlier dwellEnd (since u ! k + Dwell (sel_p s)))
         else if best < 0 \<or> sel_class s ! k < sel_class s ! nat best \<or>
            (sel_class s ! k = sel_class s ! nat best \<and> rtt < bestRTT)
         then (u, int k, rtt, dwellEnd) else (u, best, bestRTT, dwellEnd))"
proof (cases "chal s now active sumv failed k")
  case True
  have p: "sel_p t = sel_p s" "sel_class t = sel_class s" using assms(1) by (auto simp: same_frame_def)
  have c: "challenger s now k sumv failed = (Classify (sumv ! k) now (Fresh (sel_p s)), True)"
    using True chal_snd [of s now k sumv failed] by (cases "challenger s now k sumv failed") (auto simp: chal_def)
  have q: "int k \<noteq> active" "qualifies s (Classify (sumv ! nat active) now (Fresh (sel_p s))) (classOf s active)
      (Classify (sumv ! k) now (Fresh (sel_p s))) (sel_class s ! k)"
    using True by (auto simp: chal_def)
  let ?u = "clocked t now sumv k"
  have u: "?u = (if qual t AND push_bit k 1 = 0 \<or> gap t k (At (sumv ! k))
       then t\<lparr>qual := qual t OR push_bit k 1, since := (since t)[k := now]\<rparr> else t)\<lparr>seen := (seen t)[k := At (sumv ! k)]\<rparr>"
    unfolding and_push1 [OF assms(2)] by (auto simp: clocked_def Let_def)
  have u2: "sel_p ?u = sel_p s" "sel_class ?u = sel_class s" using p by (auto simp: clocked_def Let_def)
  show ?thesis
    using q True u2 by (simp add: eval_step_def frame_cong [OF assms(1)] p c u Let_def)
next
  case False
  obtain ev ok where c: "challenger s now k sumv failed = (ev, ok)" by fastforce
  show ?thesis
  proof (cases "int k = active")
    case False
    have cl: "sel_class t = sel_class s" using assms(1) by (simp add: same_frame_def)
    have "\<not> (ok \<and> qualifies s (Classify (sumv ! nat active) now (Fresh (sel_p s))) (classOf s active) ev (sel_class s ! k))"
      using \<open>\<not> chal s now active sumv failed k\<close> False chal_snd [of s now k sumv failed] c
      by (auto simp: chal_def)
    then show ?thesis
      using \<open>\<not> chal s now active sumv failed k\<close> False
      by (simp add: eval_step_def frame_cong [OF assms(1)] c cl)
  qed (simp add: eval_step_def)
qed

lemma clocks_inv_skip:
  assumes "clocks_inv s now active sumv failed k t" "\<not> chal s now active sumv failed k" "k < 32"
  shows "int k = active \<Longrightarrow> clocks_inv s now active sumv failed (Suc k) t"
    and "int k \<noteq> active \<Longrightarrow> clocks_inv s now active sumv failed (Suc k) (t\<lparr>qual := qual t AND NOT (push_bit k 1)\<rparr>)"
  using assms unfolding clocks_inv_def
  by (simp_all add: less_Suc_eq sel_ok_def same_frame_def bit_clear1 del: push_bit_of_1) auto

lemma clocks_inv_clocked:
  assumes "clocks_inv s now active sumv failed k t" "chal s now active sumv failed k" "k < 16"
  shows "clocks_inv s now active sumv failed (Suc k) (clocked t now sumv k)"
    and "since (clocked t now sumv k) ! k = clock s now sumv k"
proof -
  have f: "same_frame s t" "sel_ok t" "bit (qual t) k = bit (qual s) k" "since t ! k = since s ! k"
    "seen t ! k = seen s ! k" "int k \<noteq> active"
    using assms by (auto simp: clocks_inv_def chal_def)
  then have g: "gap t k x = gap s k x" for x by (simp add: gap_def same_frame_def)
  show s: "since (clocked t now sumv k) ! k = clock s now sumv k"
    using f assms(3) by (simp add: clocked_def clock_def g sel_ok_def Let_def)
  have "bit (qual (clocked t now sumv k)) j \<longleftrightarrow> j = k \<or> bit (qual t) j" for j
    using assms(3) by (auto simp: clocked_def Let_def bit_set1 simp del: push_bit_of_1)
  moreover have "since (clocked t now sumv k) ! j = (if j = k then clock s now sumv k else since t ! j)"
    "seen (clocked t now sumv k) ! j = (if j = k then At (sumv ! k) else seen t ! j)" for j
    using s f assms(3) by (auto simp: clocked_def sel_ok_def Let_def)
  moreover have "same_frame s (clocked t now sumv k)" "sel_ok (clocked t now sumv k)"
    using f by (auto simp: clocked_def same_frame_def sel_ok_def Let_def)
  ultimately show "clocks_inv s now active sumv failed (Suc k) (clocked t now sumv k)"
    using assms(1,2) s f(6) unfolding clocks_inv_def by (auto simp: less_Suc_eq)
qed

lemma rank_le_trans: "rank_le s now sumv i j \<Longrightarrow> rank_le s now sumv j k \<Longrightarrow> rank_le s now sumv i k"
  unfolding rank_le_def by (rule order_trans)

lemma best_inv_skip:
  assumes "best_inv s now active sumv failed k best bestRTT"
    and "\<not> (chal s now active sumv failed k \<and> dwelt s now sumv k)"
  shows "best_inv s now active sumv failed (Suc k) best bestRTT"
  using assms unfolding best_inv_def Let_def less_Suc_eq by (auto split: if_splits)

lemma best_inv_take:
  assumes "best_inv s now active sumv failed k best bestRTT"
    and "chal s now active sumv failed k" "dwelt s now sumv k"
    and r: "r = RTT (Classify (sumv ! k) now (Fresh (sel_p s)))"
    and b: "b \<longleftrightarrow> best < 0 \<or> sel_class s ! k < sel_class s ! nat best \<or>
            (sel_class s ! k = sel_class s ! nat best \<and> r < bestRTT)"
  shows "best_inv s now active sumv failed (Suc k) (if b then int k else best) (if b then r else bestRTT)"
proof (cases "best < 0")
  case True
  then show ?thesis
    using assms unfolding best_inv_def Let_def less_Suc_eq by (auto simp: rank_le_def)
next
  case False
  then have h: "nat best < k" "chal s now active sumv failed (nat best)" "dwelt s now sumv (nat best)"
    "bestRTT = RTT (Classify (sumv ! nat best) now (Fresh (sel_p s)))"
    "\<And>j. j < k \<Longrightarrow> chal s now active sumv failed j \<Longrightarrow> dwelt s now sumv j \<Longrightarrow> rank_le s now sumv (nat best) j"
    using assms(1) by (auto simp: best_inv_def Let_def)
  have b': "b \<longleftrightarrow> rank_le s now sumv k (nat best)"
    using False h(1) unfolding b rank_le_def h(4) r by (auto simp: less_eq_prod_def)
  have nb: "rank_le s now sumv (nat best) k" if "\<not> b"
    using that unfolding b' rank_le_def by (metis linear)
  show ?thesis
    using h False nb rank_le_trans [of s now sumv k "nat best"] b' assms(2,3) r
    unfolding best_inv_def Let_def less_Suc_eq by (auto simp: rank_le_def [of s now sumv k k])
qed

lemma waits_Suc: "waits s now active sumv failed (Suc k) = waits s now active sumv failed k @
    (if chal s now active sumv failed k \<and> \<not> dwelt s now sumv k then [clock s now sumv k + Dwell (sel_p s)] else [])"
  by (simp add: waits_def)

lemma eval_step_inv:
  assumes "loop_inv s now active sumv failed k acc" and "k < 16"
  shows "loop_inv s now active sumv failed (Suc k)
    (eval_step now active (Classify (sumv ! nat active) now (Fresh (sel_p s))) (classOf s active) sumv failed k acc)"
proof -
  obtain t best bestRTT dwellEnd where a: "acc = (t, best, bestRTT, dwellEnd)" by (cases acc)
  have i: "clocks_inv s now active sumv failed k t" "best_inv s now active sumv failed k best bestRTT"
    "dwellEnd = foldl earlier 0 (waits s now active sumv failed k)"
    using assms(1) by (auto simp: a loop_inv_def)
  have f: "same_frame s t" using i(1) by (simp add: clocks_inv_def)
  have k: "k < 32" using assms(2) by simp
  show ?thesis
  proof (cases "chal s now active sumv failed k")
    case False
    then show ?thesis
      using clocks_inv_skip [OF i(1) False k] best_inv_skip [OF i(2)] i(3)
      unfolding a eval_step_eq [OF f k] loop_inv_def waits_Suc by (simp del: push_bit_of_1)
  next
    case True
    then have na: "int k \<noteq> active" by (simp add: chal_def)
    show ?thesis
    proof (cases "dwelt s now sumv k")
      case False
      then show ?thesis
        using clocks_inv_clocked [OF i(1) True assms(2)] best_inv_skip [OF i(2)] i(3) True na
        unfolding a eval_step_eq [OF f k] loop_inv_def waits_Suc by (simp add: Let_def dwelt_def)
    next
      case d: True
      then show ?thesis
        using clocks_inv_clocked [OF i(1) True assms(2)] best_inv_take [OF i(2) True d refl refl] i(3) True na
        unfolding a eval_step_eq [OF f k] loop_inv_def waits_Suc by (auto simp: Let_def dwelt_def split: if_splits)
    qed
  qed
qed

lemma eval_loop_inv:
  assumes "sel_ok s" and "n \<le> 16"
  shows "loop_inv s now active sumv failed n
    (fold (eval_step now active (Classify (sumv ! nat active) now (Fresh (sel_p s))) (classOf s active) sumv failed)
      [0..<n] (s, - 1, 0, 0))"
  using assms(2)
proof (induction n)
  case 0
  show ?case using assms(1) by (auto simp: loop_inv_def clocks_inv_def best_inv_def waits_def Let_def)
next
  case (Suc n)
  then show ?case using eval_step_inv [of s now active sumv failed n] by simp
qed

text \<open>The state in which the loop starts.\<close>

definition prepared :: "Selector \<Rightarrow> int \<Rightarrow> nat \<Rightarrow> Selector" where
  "prepared s active n =
     (let s = (if active \<noteq> sel_inc s then s\<lparr>qual := 0, sel_inc := active\<rparr> else s)
      in s\<lparr>qual := qual s AND (push_bit n 1 - 1)\<rparr>)"

lemma prepared_simps [simp]:
  "sel_p (prepared s active n) = sel_p s" "sel_inc (prepared s active n) = active"
  "since (prepared s active n) = since s" "seen (prepared s active n) = seen s"
  "lastQual (prepared s active n) = lastQual s" "hasQual (prepared s active n) = hasQual s"
  "sel_class (prepared s active n) = sel_class s"
  by (auto simp: prepared_def Let_def)

lemma bit_prepared:
  "n \<le> 16 \<Longrightarrow> bit (qual (prepared s active n)) j \<longleftrightarrow> active = sel_inc s \<and> j < n \<and> bit (qual s) j"
proof -
  assume "n \<le> 16"
  then have "(push_bit n 1 - 1 :: u32) = mask n" by (simp add: mask_eq_exp_minus_1)
  then show ?thesis
    using \<open>n \<le> 16\<close> by (auto simp: prepared_def Let_def bit_and_iff bit_mask_iff)
qed

lemma prepared_cong [simp]:
  "chal (prepared s active n) = chal s" "classOf (prepared s active n) = classOf s"
  "ageWake (prepared s active n) = ageWake s" "gap (prepared s active n) = gap s"
  "sel_ok (prepared s active n) = sel_ok s" "rank_le (prepared s active n) = rank_le s"
  by (auto simp: chal_def challenger_def qualifies_def classOf_def ageWake_def gap_def sel_ok_def rank_le_def fun_eq_iff)

lemma Evaluate_spec:
  assumes "sel_ok s" "0 \<le> active" "active < int (length sumv)"
  defines "n \<equiv> min (length sumv) 16"
  obtains t best bestRTT dwellEnd where
    "loop_inv (prepared s active n) now active sumv failed n (t, best, bestRTT, dwellEnd)"
    "Evaluate s now active sumv failed =
      (if best < 0 then (\<lparr>Switch = False, To = 0, Wake = earlier (ageWake s now sumv) dwellEnd\<rparr>, t)
       else if hasQual s \<and> now < lastQual s + Cooldown (sel_p s)
       then (\<lparr>Switch = False, To = 0, Wake = earlier (ageWake s now sumv) (lastQual s + Cooldown (sel_p s))\<rparr>, t)
       else (\<lparr>Switch = True, To = best, Wake = ageWake s now sumv\<rparr>, t))"
proof -
  let ?s = "prepared s active n"
  let ?f = "fold (eval_step now active (Classify (sumv ! nat active) now (Fresh (sel_p ?s))) (classOf ?s active) sumv failed)
      [0..<n] (?s, - 1, 0, 0)"
  obtain t best bestRTT dwellEnd where f: "?f = (t, best, bestRTT, dwellEnd)" by (cases ?f)
  have l: "loop_inv ?s now active sumv failed n (t, best, bestRTT, dwellEnd)"
    using eval_loop_inv [of ?s n now active sumv failed] assms(1) f by (simp add: n_def)
  then have fr: "same_frame ?s t" by (simp add: loop_inv_def clocks_inv_def)
  have "Evaluate s now active sumv failed =
     (case ?f of (s', best, bestRTT, dwellEnd) \<Rightarrow>
        if best < 0 then (\<lparr>Switch = False, To = 0, Wake = earlier (ageWake s now sumv) dwellEnd\<rparr>, s')
        else if hasQual s' \<and> now < lastQual s' + Cooldown (sel_p s')
        then (\<lparr>Switch = False, To = 0, Wake = earlier (ageWake s now sumv) (lastQual s' + Cooldown (sel_p s'))\<rparr>, s')
        else (\<lparr>Switch = True, To = best, Wake = ageWake s now sumv\<rparr>, s'))"
    using assms(2,3) unfolding Evaluate_def Let_def prepared_def n_def by simp
  then show ?thesis using that [OF l] fr f by (simp add: same_frame_def)
qed

lemma Evaluate_invalid:
  "active < 0 \<or> active \<ge> int (length sumv) \<Longrightarrow>
   Evaluate s now active sumv failed = (\<lparr>Switch = False, To = 0, Wake = ageWake s now sumv\<rparr>, s\<lparr>qual := 0\<rparr>)"
  by (auto simp: Evaluate_def Let_def)

text \<open>What a qualifying challenger is.\<close>

lemma chal_meaning:
  assumes "chal s now active sumv failed i"
  defines "ev \<equiv> \<lambda>j. Classify (sumv ! j) now (Fresh (sel_p s))"
  shows "int i \<noteq> active \<and> \<not> (i < length failed \<and> failed ! i) \<and>
    State (ev i) = EvFresh \<and> 0 < RTT (ev i) \<and> LoadedAt (sumv ! i) \<le> At (sumv ! i) \<and>
    sel_class s ! i \<le> classOf s active \<and>
    (sel_class s ! i = classOf s active \<and> State (ev (nat active)) \<in> {EvFresh, EvHeld} \<longrightarrow>
       0 < RTT (ev (nat active)) \<and>
       f_le (Fin (f_int (RTT (ev i)))) (f_mul (Fin (f_int (RTT (ev (nat active))))) (f_sub (Fin 1) (Band (sel_p s)))) \<and>
       Floor (sel_p s) \<le> w64 (RTT (ev (nat active)) - RTT (ev i)))"
  using assms(1) by (auto simp: chal_def challenger_def qualifies_def ev_def Let_def not_less split: if_splits)

text \<open>An instant before a wake time, the zero Time meaning never.\<close>

definition before :: "go_time \<Rightarrow> go_time \<Rightarrow> bool" where
  "before t w \<longleftrightarrow> w = 0 \<or> t < w"

lemma before_earlier: "before t (earlier a b) \<longleftrightarrow> before t a \<and> before t b"
  by (auto simp: before_def earlier_def IsZero_def)

lemma before_foldl: "before t (foldl earlier a xs) \<longleftrightarrow> before t a \<and> (\<forall>x\<in>set xs. before t x)"
  by (induction xs arbitrary: a) (auto simp: before_earlier)

lemma before_ageWake:
  "before t (ageWake s now sumv) \<longleftrightarrow> (\<forall>x\<in>set sumv. before t (NextChange x now (Fresh (sel_p s))))"
proof -
  have "before t (foldl (\<lambda>w x. earlier w (NextChange x now (Fresh (sel_p s)))) a sumv) \<longleftrightarrow>
      before t a \<and> (\<forall>x\<in>set sumv. before t (NextChange x now (Fresh (sel_p s))))" for a
    by (induction sumv arbitrary: a) (auto simp: before_earlier)
  then show ?thesis by (simp add: ageWake_def before_def)
qed

text \<open>Until the next ageing change the same factories qualify.\<close>

lemma chal_stable:
  assumes "i64 (Fresh (sel_p s))" "0 \<le> now" "now \<le> now'" "before now' (ageWake s now sumv)"
    and "0 \<le> active" "active < int (length sumv)" "i < length sumv"
  shows "chal s now' active sumv failed i = chal s now active sumv failed i"
proof -
  have "Classify x now' (Fresh (sel_p s)) = Classify x now (Fresh (sel_p s))" if "x \<in> set sumv" for x
    using assms(4) that unfolding before_ageWake by (intro NextChange_stable assms) (auto simp: before_def)
  then have "Classify (sumv ! i) now' (Fresh (sel_p s)) = Classify (sumv ! i) now (Fresh (sel_p s))"
    "Classify (sumv ! nat active) now' (Fresh (sel_p s)) = Classify (sumv ! nat active) now (Fresh (sel_p s))"
    using assms by (auto intro!: nth_mem simp: nat_less_iff)
  then show ?thesis by (simp add: chal_def challenger_def)
qed

section \<open>Histories\<close>

text \<open>A selector's life: evaluations, with the set of factories that qualified, and switches of the active
  factory, newest first. Classes may be set at any time.\<close>

datatype sel_event = Evaluated go_time int "nat set" | Changed

definition challengers :: "Selector \<Rightarrow> go_time \<Rightarrow> int \<Rightarrow> Summary list \<Rightarrow> bool list \<Rightarrow> nat set" where
  "challengers s now active sumv failed =
     (if active < 0 \<or> active \<ge> int (length sumv) then {}
      else {i. i < min (length sumv) 16 \<and> chal s now active sumv failed i})"

inductive sel_run :: "Selector \<Rightarrow> sel_event list \<Rightarrow> bool" where
  new: "sel_run (NewSelector p) []"
| classes: "sel_run s h \<Longrightarrow> sel_run (SetClasses s c) h"
| evaluate: "sel_run s h \<Longrightarrow> Evaluate s now active sumv failed = (v, t) \<Longrightarrow>
    sel_run t (Evaluated now active (challengers s now active sumv failed) # h)"
| switched: "sel_run s h \<Longrightarrow> sel_run (Switched s now q) (Changed # h)"

text \<open>Factory \<open>i\<close> qualified against \<open>inc\<close> at every evaluation from one at \<open>t\<close> on, with no switch since.\<close>

definition held_since :: "sel_event list \<Rightarrow> int \<Rightarrow> nat \<Rightarrow> go_time \<Rightarrow> bool" where
  "held_since h inc i t \<longleftrightarrow>
     (\<exists>h1 q h2. h = h1 @ Evaluated t inc q # h2 \<and> i \<in> q \<and>
        (\<forall>e\<in>set h1. \<exists>t' q'. e = Evaluated t' inc q' \<and> i \<in> q'))"

lemma held_since_now: "i \<in> q \<Longrightarrow> held_since (Evaluated t inc q # h) inc i t"
  unfolding held_since_def by (rule exI [of _ "[]"]) auto

lemma held_since_more: "held_since h inc i t \<Longrightarrow> i \<in> q \<Longrightarrow> held_since (Evaluated t' inc q # h) inc i t"
  unfolding held_since_def by (metis append_Cons set_ConsD)

definition run_inv :: "Selector \<Rightarrow> sel_event list \<Rightarrow> bool" where
  "run_inv s h \<longleftrightarrow> sel_ok s \<and>
     (\<forall>i<16. int i \<noteq> sel_inc s \<longrightarrow> bit (qual s) i \<longrightarrow> held_since h (sel_inc s) i (since s ! i))"

lemma run_inv_evaluate:
  assumes "run_inv s h" and "Evaluate s now active sumv failed = (v, t)"
  shows "run_inv t (Evaluated now active (challengers s now active sumv failed) # h)"
proof (cases "0 \<le> active \<and> active < int (length sumv)")
  case False
  then have "t = s\<lparr>qual := 0\<rparr>" using Evaluate_invalid [of active sumv s now failed] assms(2) by auto
  then show ?thesis using assms(1) by (simp add: run_inv_def sel_ok_def)
next
  case True
  then have a: "0 \<le> active" "active < int (length sumv)" by auto
  let ?n = "min (length sumv) 16"
  let ?s = "prepared s active ?n"
  have ok: "sel_ok s" using assms(1) by (simp add: run_inv_def)
  obtain best bestRTT dwellEnd where l: "loop_inv ?s now active sumv failed ?n (t, best, bestRTT, dwellEnd)"
    using Evaluate_spec [OF ok a, of now failed] assms(2) by (metis (no_types, lifting) prod.inject)
  have cl: "clocks_inv ?s now active sumv failed ?n t" using l by (simp add: loop_inv_def)
  have inc: "sel_inc t = active" "sel_ok t" using cl by (auto simp: clocks_inv_def same_frame_def)
  have "held_since (Evaluated now active (challengers s now active sumv failed) # h) active i (since t ! i)"
    if i: "i < 16" "int i \<noteq> active" "bit (qual t) i" for i
  proof -
    have n: "i < ?n" using cl i by (auto simp: clocks_inv_def bit_prepared split: if_splits)
    have c: "chal s now active sumv failed i" using cl i n by (auto simp: clocks_inv_def)
    have q: "i \<in> challengers s now active sumv failed" using c n a by (auto simp: challengers_def)
    have s: "since t ! i = clock ?s now sumv i" using cl i(1) n c by (auto simp: clocks_inv_def)
    show ?thesis
    proof (cases "\<not> bit (qual ?s) i \<or> gap s i (At (sumv ! i))")
      case True
      then show ?thesis using held_since_now [OF q] s by (simp add: clock_def)
    next
      case False
      then have "active = sel_inc s" "bit (qual s) i" by (auto simp: bit_prepared)
      then have "held_since h active i (since s ! i)" using assms(1) i by (auto simp: run_inv_def)
      then show ?thesis using held_since_more [OF _ q] s False by (auto simp: clock_def)
    qed
  qed
  then show ?thesis using inc by (simp add: run_inv_def)
qed

lemma sel_run_inv: "sel_run s h \<Longrightarrow> run_inv s h"
proof (induction rule: sel_run.induct)
  case (new p)
  show ?case by (simp add: run_inv_def NewSelector_def sel_ok_def)
next
  case (classes s h c)
  then show ?case by (simp add: run_inv_def SetClasses_def sel_ok_def)
next
  case (switched s h now q)
  then show ?case by (simp add: run_inv_def Switched_def sel_ok_def Let_def)
qed (rule run_inv_evaluate)

section \<open>Properties\<close>

text \<open>Claim C15: a switch is only made to a qualifying challenger. Its target is another factory of the
  Peer that is not failed, measured fresh and not under our own load, of a class no higher than the
  incumbent's, and within one class it beats a measured incumbent by the band and the floor; its dwell
  and the cooldown have run; and it is the best-ranked of all the factories of which that holds.\<close>

theorem selector_switch_sound:
  assumes "sel_ok s" and "Evaluate s now active sumv failed = (v, t)" and "Switch v"
  defines "ev \<equiv> \<lambda>j. Classify (sumv ! j) now (Fresh (sel_p s))"
  shows "0 \<le> active \<and> active < int (length sumv) \<and>
    (\<exists>i < min (length sumv) 16. To v = int i \<and> int i \<noteq> active \<and> \<not> (i < length failed \<and> failed ! i) \<and>
      State (ev i) = EvFresh \<and> 0 < RTT (ev i) \<and> LoadedAt (sumv ! i) \<le> At (sumv ! i) \<and>
      sel_class s ! i \<le> classOf s active \<and>
      (sel_class s ! i = classOf s active \<and> State (ev (nat active)) \<in> {EvFresh, EvHeld} \<longrightarrow>
         0 < RTT (ev (nat active)) \<and>
         f_le (Fin (f_int (RTT (ev i)))) (f_mul (Fin (f_int (RTT (ev (nat active))))) (f_sub (Fin 1) (Band (sel_p s)))) \<and>
         Floor (sel_p s) \<le> w64 (RTT (ev (nat active)) - RTT (ev i))) \<and>
      since t ! i + Dwell (sel_p s) \<le> now \<and>
      (hasQual s \<longrightarrow> lastQual s + Cooldown (sel_p s) \<le> now) \<and>
      (\<forall>j < min (length sumv) 16. chal s now active sumv failed j \<and> since t ! j + Dwell (sel_p s) \<le> now \<longrightarrow>
         (sel_class s ! i, RTT (ev i), i) \<le> (sel_class s ! j, RTT (ev j), j)))"
proof -
  have "\<not> (active < 0 \<or> active \<ge> int (length sumv))"
    using Evaluate_invalid [of active sumv s now failed] assms(2,3) by auto
  then have a: "0 \<le> active" "active < int (length sumv)" by auto
  let ?n = "min (length sumv) 16"
  let ?s = "prepared s active ?n"
  obtain t' best bestRTT dwellEnd where l: "loop_inv ?s now active sumv failed ?n (t', best, bestRTT, dwellEnd)"
    and e: "Evaluate s now active sumv failed =
      (if best < 0 then (\<lparr>Switch = False, To = 0, Wake = earlier (ageWake s now sumv) dwellEnd\<rparr>, t')
       else if hasQual s \<and> now < lastQual s + Cooldown (sel_p s)
       then (\<lparr>Switch = False, To = 0, Wake = earlier (ageWake s now sumv) (lastQual s + Cooldown (sel_p s))\<rparr>, t')
       else (\<lparr>Switch = True, To = best, Wake = ageWake s now sumv\<rparr>, t'))"
    using Evaluate_spec [OF assms(1) a, of now failed] by blast
  have b: "\<not> best < 0" "To v = best" "t' = t" "hasQual s \<Longrightarrow> lastQual s + Cooldown (sel_p s) \<le> now"
    using e assms(2,3) by (auto split: if_splits)
  let ?i = "nat best"
  have i: "?i < ?n" "chal s now active sumv failed ?i" "dwelt ?s now sumv ?i"
    "\<And>j. j < ?n \<Longrightarrow> chal s now active sumv failed j \<Longrightarrow> dwelt ?s now sumv j \<Longrightarrow> rank_le s now sumv ?i j"
    using l b(1) by (auto simp: loop_inv_def best_inv_def Let_def)
  have c: "since t ! j = clock ?s now sumv j" if "j < ?n" "chal s now active sumv failed j" for j
    using l that b(3) by (auto simp: loop_inv_def clocks_inv_def)
  then have d: "since t ! j + Dwell (sel_p s) \<le> now \<longleftrightarrow> dwelt ?s now sumv j"
    if "j < ?n" "chal s now active sumv failed j" for j using that by (simp add: dwelt_def)
  show ?thesis
    using a b(1,2,4) i d chal_meaning [OF i(2)] unfolding ev_def rank_le_def
    by (intro conjI exI [of _ ?i]) (simp_all, blast)
qed

text \<open>Claim C38: no switch is missed. When \<open>Evaluate\<close> does not switch, its wake time is in the future or
  never, and with unchanged summaries an evaluation at any instant before it does not switch
  either; so a caller that evaluates at every new summary and at every wake time switches as early as
  one that evaluates all the time.\<close>

theorem selector_no_missed_wake:
  assumes "sel_ok s" and "0 \<le> Fresh (sel_p s)" "Fresh (sel_p s) < MaxInt64" and "0 < now"
    and "Evaluate s now active sumv failed = (v, t)" and "\<not> Switch v"
    and "now \<le> now'" "Wake v = 0 \<or> now' < Wake v"
  shows "\<not> Switch (fst (Evaluate t now' active sumv failed))"
proof (cases "0 \<le> active \<and> active < int (length sumv)")
  case False
  then show ?thesis using Evaluate_invalid [of active sumv t now' failed] by auto
next
  case True
  then have a: "0 \<le> active" "active < int (length sumv)" by auto
  let ?n = "min (length sumv) 16"
  let ?s = "prepared s active ?n" and ?t = "prepared t active ?n"
  have fr: "i64 (Fresh (sel_p s))" using assms(2,3) by (auto simp: i64_def)
  obtain t0 best bestRTT dwellEnd where l: "loop_inv ?s now active sumv failed ?n (t0, best, bestRTT, dwellEnd)"
    and e: "Evaluate s now active sumv failed =
      (if best < 0 then (\<lparr>Switch = False, To = 0, Wake = earlier (ageWake s now sumv) dwellEnd\<rparr>, t0)
       else if hasQual s \<and> now < lastQual s + Cooldown (sel_p s)
       then (\<lparr>Switch = False, To = 0, Wake = earlier (ageWake s now sumv) (lastQual s + Cooldown (sel_p s))\<rparr>, t0)
       else (\<lparr>Switch = True, To = best, Wake = ageWake s now sumv\<rparr>, t0))"
    using Evaluate_spec [OF assms(1) a, of now failed] by blast
  have t0: "t0 = t" using e assms(5) by (auto split: if_splits)
  have cl: "clocks_inv ?s now active sumv failed ?n t" using l t0 by (simp add: loop_inv_def)
  have sf: "same_frame ?s t" "sel_ok t" using cl by (auto simp: clocks_inv_def)
  then have tp: "sel_p t = sel_p s" "sel_inc t = active" "hasQual t = hasQual s" "lastQual t = lastQual s"
    by (auto simp: same_frame_def)
  have w: "before now' (Wake v)" using assms(8) by (simp add: before_def)
  have w2: "before now' (ageWake s now sumv)"
    using w e assms(5,6) by (auto simp: before_earlier split: if_splits)
  have ch: "chal t now' active sumv failed i = chal s now active sumv failed i" if "i < ?n" for i
    using chal_stable [OF fr _ assms(7) w2 a, of i failed] assms(4) that frame_cong(1) [OF sf(1)] by simp
  show ?thesis
  proof (cases "best < 0")
    case True
    have w3: "\<forall>x\<in>set (waits ?s now active sumv failed ?n). before now' x"
      using w e assms(5,6) True l by (auto simp: loop_inv_def before_earlier before_foldl split: if_splits)
    have nd: "\<not> dwelt ?t now' sumv j" if j: "j < ?n" "chal t now' active sumv failed j" for j
    proof -
      have c: "chal s now active sumv failed j" using ch j by simp
      have nj: "int j \<noteq> active" using c by (simp add: chal_def)
      have s: "bit (qual t) j" "since t ! j = clock ?s now sumv j" "seen t ! j = At (sumv ! j)"
        using cl j(1) c nj by (auto simp: clocks_inv_def)
      have "\<not> gap t j (At (sumv ! j))"
        using s(3) assms(2,3) by (simp add: gap_def tp i64_def)
      then have k: "clock ?t now' sumv j = clock ?s now sumv j"
        using s j(1) tp by (simp add: clock_def bit_prepared)
      have n: "\<not> dwelt ?s now sumv j" using l True c j(1) by (auto simp: loop_inv_def best_inv_def Let_def)
      then have "clock ?s now sumv j + Dwell (sel_p s) \<in> set (waits ?s now active sumv failed ?n)"
        using c j(1) by (auto simp: waits_def)
      then have "before now' (clock ?s now sumv j + Dwell (sel_p s))" using w3 by blast
      then show ?thesis using n assms(4) by (auto simp: dwelt_def k tp before_def)
    qed
    obtain u best' r' d' where l': "loop_inv ?t now' active sumv failed ?n (u, best', r', d')"
      and e': "\<not> best' < 0 \<or> \<not> Switch (fst (Evaluate t now' active sumv failed))"
      using Evaluate_spec [OF sf(2) a, of now' failed] by (metis (no_types, lifting) fst_conv select_convs(1))
    have "best' < 0" using l' nd by (auto simp: loop_inv_def best_inv_def Let_def split: if_splits)
    then show ?thesis using e' by simp
  next
    case False
    then have h: "hasQual s" "now < lastQual s + Cooldown (sel_p s)" "before now' (lastQual s + Cooldown (sel_p s))"
      using e assms(5,6) w by (auto simp: before_earlier split: if_splits)
    then have "now' < lastQual t + Cooldown (sel_p t)" "hasQual t" using assms(4) tp by (auto simp: before_def)
    then show ?thesis
      by - (rule Evaluate_spec [OF sf(2) a, of now' failed], auto)
  qed
qed

text \<open>Claim C39: the dwell is continuous. Whatever the history of evaluations, class changes and switches, a
  factory that is switched to has qualified against the present incumbent at every evaluation for
  the whole dwell time: from one evaluation at least the dwell before now up to this one, with no
  change of the incumbent in between.\<close>

theorem selector_dwell_continuous:
  assumes "sel_run s h" and "Evaluate s now active sumv failed = (v, t)" and "Switch v"
  shows "\<exists>t0. held_since (Evaluated now active (challengers s now active sumv failed) # h) active (nat (To v)) t0 \<and>
    t0 + Dwell (sel_p s) \<le> now"
proof -
  have ok: "sel_ok s" using sel_run_inv [OF assms(1)] by (simp add: run_inv_def)
  have "\<not> (active < 0 \<or> active \<ge> int (length sumv))"
    using Evaluate_invalid [of active sumv s now failed] assms(2,3) by auto
  then have a: "0 \<le> active" "active < int (length sumv)" by auto
  let ?n = "min (length sumv) 16"
  let ?s = "prepared s active ?n"
  obtain best bestRTT dwellEnd where l: "loop_inv ?s now active sumv failed ?n (t, best, bestRTT, dwellEnd)"
    and b: "\<not> best < 0" "To v = best"
    using assms(2,3) by - (rule Evaluate_spec [OF ok a, of now failed], auto split: if_splits)
  have i: "nat best < ?n" "chal s now active sumv failed (nat best)" "dwelt ?s now sumv (nat best)"
    using l b(1) by (auto simp: loop_inv_def best_inv_def Let_def)
  have t: "bit (qual t) (nat best)" "since t ! nat best = clock ?s now sumv (nat best)" "sel_inc t = active"
    "int (nat best) \<noteq> active"
    using l i by (auto simp: loop_inv_def clocks_inv_def chal_def same_frame_def)
  have "run_inv t (Evaluated now active (challengers s now active sumv failed) # h)"
    using sel_run_inv [OF assms(1)] assms(2) by (rule run_inv_evaluate)
  then have "held_since (Evaluated now active (challengers s now active sumv failed) # h) active (nat (To v)) (since t ! nat best)"
    using t i(1) b(2) by (auto simp: run_inv_def)
  moreover have "since t ! nat best + Dwell (sel_p s) \<le> now" using i(3) t(2) by (simp add: dwelt_def)
  ultimately show ?thesis by blast
qed

text \<open>An unmeasured incumbent 0 and a measured factory 1, evaluated at 1 s, 2 s and 4 s with a dwell of 3 s.\<close>

definition sample_params :: SelectorParams where
  "sample_params = \<lparr>Band = Fin (1 / 4), Floor = 5 * Millisecond, Dwell = 3 * Second, Cooldown = 15 * Second,
     Fresh = 10 * Second\<rparr>"

definition sample_sums :: "Summary list" where
  "sample_sums = [\<lparr>Seen = False, Mean = 0, NSamples = 0, At = 0, LoadedAt = 0\<rparr>,
     \<lparr>Seen = True, Mean = 20, NSamples = 1, At = 1000000000, LoadedAt = 0\<rparr>]"

definition sample_sel :: Selector where
  "sample_sel = snd (Evaluate (NewSelector sample_params) 1000000000 0 sample_sums [])"

lemma sample_sel_ok: "sel_ok sample_sel" "sel_p sample_sel = sample_params"
  by code_simp+

lemma sample_switch: "Switch (fst (Evaluate sample_sel 4000000000 0 sample_sums []))"
  "To (fst (Evaluate sample_sel 4000000000 0 sample_sums [])) = 1"
  "\<not> Switch (fst (Evaluate sample_sel 2000000000 0 sample_sums []))"
  "Wake (fst (Evaluate sample_sel 2000000000 0 sample_sums [])) = 4000000000"
  by code_simp+

lemma sample_run: "sel_run sample_sel
    [Evaluated 1000000000 0 (challengers (NewSelector sample_params) 1000000000 0 sample_sums [])]"
  unfolding sample_sel_def
  by (cases "Evaluate (NewSelector sample_params) 1000000000 0 sample_sums []")
    (auto intro: sel_run.evaluate [OF sel_run.new])

theorem selector_switch_sound_witness:
  "since (snd (Evaluate sample_sel 4000000000 0 sample_sums [])) ! 1 + Dwell sample_params \<le> 4000000000"
proof -
  obtain v t where e: "Evaluate sample_sel 4000000000 0 sample_sums [] = (v, t)" by fastforce
  then have "Switch v" "To v = 1" using sample_switch by auto
  then show ?thesis using selector_switch_sound [OF sample_sel_ok(1) e] e sample_sel_ok(2) by auto
qed

theorem selector_no_missed_wake_witness:
  "\<not> Switch (fst (Evaluate (snd (Evaluate sample_sel 2000000000 0 sample_sums [])) 3999999999 0 sample_sums []))"
proof -
  obtain v t where e: "Evaluate sample_sel 2000000000 0 sample_sums [] = (v, t)" by fastforce
  then have "\<not> Switch v" "Wake v = 4000000000" using sample_switch by auto
  then show ?thesis
    using selector_no_missed_wake [OF sample_sel_ok(1) _ _ _ e, of 3999999999] e
    by (simp add: sample_sel_ok(2) sample_params_def)
qed

theorem selector_dwell_continuous_witness:
  "\<exists>t0. held_since [Evaluated 4000000000 0 (challengers sample_sel 4000000000 0 sample_sums []),
      Evaluated 1000000000 0 (challengers (NewSelector sample_params) 1000000000 0 sample_sums [])] 0 1 t0 \<and>
    t0 + Dwell sample_params \<le> 4000000000"
proof -
  obtain v t where e: "Evaluate sample_sel 4000000000 0 sample_sums [] = (v, t)" by fastforce
  then have "Switch v" "To v = 1" using sample_switch by auto
  then show ?thesis using selector_dwell_continuous [OF sample_run e] sample_sel_ok(2) by simp
qed

end
