(* ===== verification/Sched_Aggregator.thy ===== *)
theory Sched_Aggregator
  imports Sched_Evidence Go_Float
begin

text \<open>
  The evidence aggregator of \<open>internal/sched/evidence.go\<close>: a ring of the last unloaded probe samples
  of one factory with level-shift detection in floating point. The properties: the ring refines a
  sliding window (a list), loaded samples never enter it, a level shift keeps exactly the newest run,
  and the published mean lies between the smallest and the largest sample.
\<close>

section \<open>Definitions\<close>

definition MaxAggWindow :: int where [simp]: "MaxAggWindow = 64"

record AggParams =
  Window :: int
  MinEarlier :: int
  ShiftRun :: int
  SigmaK :: f64
  SigmaFloor :: duration

definition DefaultAggParams :: AggParams where
  "DefaultAggParams = \<lparr>Window = 32, MinEarlier = 3, ShiftRun = 2, SigmaK = Fin 3, SigmaFloor = 2 * Millisecond\<rparr>"

definition normalized :: "AggParams \<Rightarrow> AggParams" where
  "normalized p =
     (let d = DefaultAggParams;
          p = (if Window p \<le> 0 then p\<lparr>Window := Window d\<rparr>
               else if Window p > MaxAggWindow then p\<lparr>Window := MaxAggWindow\<rparr> else p);
          p = (if MinEarlier p \<le> 0 then p\<lparr>MinEarlier := MinEarlier d\<rparr> else p);
          p = (if ShiftRun p \<le> 0 then p\<lparr>ShiftRun := ShiftRun d\<rparr> else p);
          p = (if \<not> f_lt (Fin 0) (SigmaK p) \<or> SigmaK p = PInf \<or> SigmaK p = NInf
               then p\<lparr>SigmaK := SigmaK d\<rparr> else p);
          p = (if SigmaFloor p \<le> 0 then p\<lparr>SigmaFloor := SigmaFloor d\<rparr> else p)
      in p)"

record Aggregator =
  agg_p :: AggParams
  ring :: "duration list"
  agg_head :: nat
  agg_n :: nat
  agg_seen :: bool
  agg_last :: go_time
  agg_at :: go_time
  agg_loadedAt :: go_time
  unloaded :: u64
  loaded :: u64
  shifts :: u64

definition NewAggregator :: "AggParams \<Rightarrow> Aggregator" where
  "NewAggregator p = \<lparr>agg_p = normalized p, ring = replicate (nat MaxAggWindow) 0, agg_head = 0, agg_n = 0,
     agg_seen = False, agg_last = 0, agg_at = 0, agg_loadedAt = 0, unloaded = 0, loaded = 0, shifts = 0\<rparr>"

definition Reset :: "Aggregator \<Rightarrow> Aggregator" where
  "Reset a = a\<lparr>agg_head := 0, agg_n := 0, agg_seen := False, agg_last := 0, agg_at := 0, agg_loadedAt := 0\<rparr>"

definition agg_sample :: "Aggregator \<Rightarrow> nat \<Rightarrow> f64" where
  "agg_sample a i = Fin (f_int (ring a ! ((agg_head a + i) mod nat (Window (agg_p a)))))"

text \<open>The loops of \<open>levelShift\<close> over samples \<open>0..e-1\<close> and \<open>e..n-1\<close>, for any way to read a sample.\<close>

definition sum_of :: "(nat \<Rightarrow> f64) \<Rightarrow> nat \<Rightarrow> f64" where
  "sum_of smp e = fold (\<lambda>i acc. f_add acc (smp i)) [0..<e] (Fin 0)"

definition squares_of :: "(nat \<Rightarrow> f64) \<Rightarrow> f64 \<Rightarrow> nat \<Rightarrow> f64" where
  "squares_of smp mean e =
     fold (\<lambda>i acc. let d = f_sub (smp i) mean in f_add acc (f_mul d d)) [0..<e] (Fin 0)"

definition run_deviates :: "(nat \<Rightarrow> f64) \<Rightarrow> f64 \<Rightarrow> f64 \<Rightarrow> nat \<Rightarrow> nat \<Rightarrow> bool" where
  "run_deviates smp mean thr e n =
     (let (up, down) = fold (\<lambda>i (up, down). let d = f_sub (smp i) mean
                                in (up \<and> f_lt thr d, down \<and> f_lt d (f_neg thr))) [e..<n] (True, True)
      in up \<or> down)"

definition shift_found :: "AggParams \<Rightarrow> (nat \<Rightarrow> f64) \<Rightarrow> nat \<Rightarrow> nat \<Rightarrow> bool" where
  "shift_found p smp e n =
     (let mean = f_div (sum_of smp e) (Fin (f_int (int e)));
          ss = squares_of smp mean e;
          sigma = (if e > 1 then f_sqrt (f_div ss (Fin (f_int (int e - 1)))) else Fin 0);
          f = Fin (f_int (SigmaFloor p));
          sigma = (if f_lt sigma f then f else sigma);
          thr = f_mul (SigmaK p) sigma
      in run_deviates smp mean thr e n)"

definition levelShift :: "Aggregator \<Rightarrow> Aggregator" where
  "levelShift a =
     (let run = ShiftRun (agg_p a);
          e = int (agg_n a) - run
      in if e \<le> 0 \<or> e < MinEarlier (agg_p a) then a
         else if shift_found (agg_p a) (agg_sample a) (nat e) (agg_n a)
         then a\<lparr>agg_head := (agg_head a + nat e) mod nat (Window (agg_p a)), agg_n := nat run, shifts := shifts a + 1\<rparr>
         else a)"

definition Add :: "Aggregator \<Rightarrow> go_time \<Rightarrow> duration \<Rightarrow> bool \<Rightarrow> bool \<times> Aggregator" where
  "Add a t rtt ld =
     (let a = (if Window (agg_p a) \<le> 0 then a\<lparr>agg_p := normalized (agg_p a)\<rparr> else a)
      in if IsZero t \<or> rtt \<le> 0 \<or> t < agg_last a then (False, a)
         else
          let a = a\<lparr>agg_last := t, agg_seen := True\<rparr>
          in if ld then (True, a\<lparr>agg_loadedAt := t, loaded := loaded a + 1\<rparr>)
             else
              let a = a\<lparr>agg_at := t, unloaded := unloaded a + 1\<rparr>;
                  w = nat (Window (agg_p a));
                  a = (if agg_n a < w
                       then a\<lparr>ring := (ring a)[(agg_head a + agg_n a) mod w := rtt], agg_n := agg_n a + 1\<rparr>
                       else a\<lparr>ring := (ring a)[agg_head a := rtt], agg_head := (agg_head a + 1) mod w\<rparr>)
              in (True, levelShift a))"

definition Aggregator_Summary :: "Aggregator \<Rightarrow> Summary" where
  "Aggregator_Summary a =
     \<lparr>Seen = agg_seen a,
      Mean = (if agg_n a > 0
              then f_trunc (f_round (f_div (sum_of (agg_sample a) (agg_n a)) (Fin (f_int (int (agg_n a))))))
              else 0),
      NSamples = int (agg_n a), At = agg_at a, LoadedAt = agg_loadedAt a\<rparr>"

definition Counts :: "Aggregator \<Rightarrow> u64 \<times> u64 \<times> u64" where
  "Counts a = (unloaded a, loaded a, shifts a)"

section \<open>The sliding window\<close>

text \<open>The samples of the window, oldest first.\<close>

definition window :: "Aggregator \<Rightarrow> duration list" where
  "window a = map (\<lambda>i. ring a ! ((agg_head a + i) mod nat (Window (agg_p a)))) [0..<agg_n a]"

definition params_ok :: "AggParams \<Rightarrow> bool" where
  "params_ok p \<longleftrightarrow> 0 < Window p \<and> Window p \<le> MaxAggWindow \<and> 0 < MinEarlier p \<and> 0 < ShiftRun p \<and>
     f_lt (Fin 0) (SigmaK p) \<and> SigmaK p \<noteq> PInf \<and> 0 < SigmaFloor p"

definition agg_ok :: "Aggregator \<Rightarrow> bool" where
  "agg_ok a \<longleftrightarrow> params_ok (agg_p a) \<and> length (ring a) = 64 \<and> agg_head a < nat (Window (agg_p a)) \<and>
     agg_n a \<le> nat (Window (agg_p a)) \<and> (\<forall>x\<in>set (window a). 0 < x) \<and>
     (agg_n a > 0 \<longrightarrow> agg_at a \<noteq> 0) \<and> 0 \<le> agg_last a"

text \<open>The rule on the list: the newest sample is appended, at most \<open>Window\<close> are kept, and when the newest
  \<open>ShiftRun\<close> deviate from the earlier ones only they are kept.\<close>

definition list_shift :: "AggParams \<Rightarrow> duration list \<Rightarrow> bool" where
  "list_shift p xs \<longleftrightarrow>
     (let e = int (length xs) - ShiftRun p
      in 0 < e \<and> MinEarlier p \<le> e \<and> shift_found p (\<lambda>i. Fin (f_int (xs ! i))) (nat e) (length xs))"

definition slide :: "AggParams \<Rightarrow> duration list \<Rightarrow> duration \<Rightarrow> duration list" where
  "slide p xs x =
     (let ys = drop (length xs + 1 - nat (Window p)) (xs @ [x])
      in if list_shift p ys then drop (length ys - nat (ShiftRun p)) ys else ys)"

lemma length_window [simp]: "length (window a) = agg_n a"
  by (simp add: window_def)

lemma window_nth: "i < agg_n a \<Longrightarrow> window a ! i = ring a ! ((agg_head a + i) mod nat (Window (agg_p a)))"
  by (simp add: window_def)

lemma fold_cong_nth:
  "(\<And>i. i \<in> set xs \<Longrightarrow> f i = g i) \<Longrightarrow> fold f xs = fold g xs"
  by (induction xs) auto

lemma shift_found_cong:
  assumes "\<And>i. i < n \<Longrightarrow> smp i = smp' i" and "e \<le> n"
  shows "shift_found p smp e n = shift_found p smp' e n"
proof -
  have "sum_of smp e = sum_of smp' e" "squares_of smp m e = squares_of smp' m e" for m
    unfolding sum_of_def squares_of_def
    by (rule fun_cong [OF fold_cong_nth], use assms in auto)+
  moreover have "run_deviates smp m thr e n = run_deviates smp' m thr e n" for m thr
  proof -
    have "fold (\<lambda>i (up, down). let d = f_sub (smp i) m in (up \<and> f_lt thr d, down \<and> f_lt d (f_neg thr))) [e..<n] =
      fold (\<lambda>i (up, down). let d = f_sub (smp' i) m in (up \<and> f_lt thr d, down \<and> f_lt d (f_neg thr))) [e..<n]"
      using assms(1) by (intro fold_cong_nth) auto
    then show ?thesis by (simp only: run_deviates_def)
  qed
  ultimately show ?thesis by (simp add: shift_found_def Let_def)
qed

lemma levelShift_window:
  assumes "agg_n a \<le> nat (Window (agg_p a))" "0 < ShiftRun (agg_p a)"
  shows "window (levelShift a) =
    (if list_shift (agg_p a) (window a) then drop (agg_n a - nat (ShiftRun (agg_p a))) (window a) else window a)"
proof -
  let ?e = "int (agg_n a) - ShiftRun (agg_p a)"
  have c: "shift_found (agg_p a) (agg_sample a) (nat ?e) (agg_n a) =
      shift_found (agg_p a) (\<lambda>i. Fin (f_int (window a ! i))) (nat ?e) (agg_n a)"
    using assms(2) by (intro shift_found_cong) (auto simp: agg_sample_def window_nth)
  show ?thesis
  proof (cases "list_shift (agg_p a) (window a)")
    case True
    then have l: "levelShift a = a\<lparr>agg_head := (agg_head a + nat ?e) mod nat (Window (agg_p a)),
        agg_n := nat (ShiftRun (agg_p a)), shifts := shifts a + 1\<rparr>" and e: "0 < ?e"
      by (auto simp: levelShift_def list_shift_def c Let_def)
    have n: "agg_n a - nat (ShiftRun (agg_p a)) = nat ?e" using e assms(2) by simp
    have "window (levelShift a) = drop (nat ?e) (window a)"
      by (rule nth_equalityI) (use e assms(2) in \<open>auto simp: l window_def mod_simps ac_simps\<close>)
    then show ?thesis using True n by simp
  next
    case False
    then show ?thesis by (auto simp: levelShift_def list_shift_def c Let_def)
  qed
qed

lemma ring_index_inj:
  assumes "i < (w::nat)" "j < w" "(h + i) mod w = (h + j) mod w"
  shows "i = j"
proof -
  have "b = c" if "b \<le> c" "c < w" "(h + c) mod w = (h + b) mod w" for b c
    using that mod_eq_dvd_iff_nat [of "h + b" "h + c" w] nat_dvd_not_less [of "c - b" w] by (cases "b = c") auto
  then show ?thesis using assms by (metis nle_le)
qed

text \<open>The write of \<open>Add\<close> into the ring.\<close>

definition ring_push :: "Aggregator \<Rightarrow> duration \<Rightarrow> Aggregator" where
  "ring_push a x =
     (let w = nat (Window (agg_p a))
      in if agg_n a < w
         then a\<lparr>ring := (ring a)[(agg_head a + agg_n a) mod w := x], agg_n := agg_n a + 1\<rparr>
         else a\<lparr>ring := (ring a)[agg_head a := x], agg_head := (agg_head a + 1) mod w\<rparr>)"

lemma ring_push_window:
  assumes "length (ring a) = 64" "0 < Window (agg_p a)" "Window (agg_p a) \<le> 64"
    "agg_head a < nat (Window (agg_p a))" "agg_n a \<le> nat (Window (agg_p a))"
  shows "window (ring_push a x) = drop (agg_n a + 1 - nat (Window (agg_p a))) (window a @ [x])"
proof -
  define w where "w = nat (Window (agg_p a))"
  define h where "h = agg_head a"
  have w: "0 < w" "w \<le> 64" "h < w" "agg_n a \<le> w" using assms by (auto simp: w_def h_def)
  have lt: "k mod w < length (ring a)" for k using w assms(1) mod_less_divisor [OF w(1), of k] by linarith
  show ?thesis
  proof (cases "agg_n a < w")
    case True
    have "window (ring_push a x) ! i = (window a @ [x]) ! i" if "i < agg_n a + 1" for i
    proof (cases "i = agg_n a")
      case False
      then have "(h + agg_n a) mod w \<noteq> (h + i) mod w" using ring_index_inj [of i w "agg_n a" h] that True by auto
      then show ?thesis
        using True that False by (simp add: ring_push_def window_def w_def [symmetric] h_def [symmetric] nth_append)
    qed (use True lt in \<open>simp add: ring_push_def window_def w_def [symmetric] h_def [symmetric] nth_append Let_def\<close>)
    then show ?thesis
      using True w(4) by (intro nth_equalityI) (auto simp: w_def ring_push_def Let_def)
  next
    case False
    then have n: "agg_n a = w" using w by simp
    have "window (ring_push a x) ! i = (window a @ [x]) ! Suc i" if "i < w" for i
    proof (cases "Suc i = w")
      case True
      have "(h + 1 + i) mod w = h" using True w(3) by (metis add.assoc mod_add_self2 mod_less plus_1_eq_Suc)
      then have "((h + 1) mod w + i) mod w = h" by (simp add: mod_simps)
      then show ?thesis
        using n True that w lt [of h] by (simp add: ring_push_def window_def w_def [symmetric] h_def [symmetric] nth_append Let_def)
    next
      case False
      then have "(h + 0) mod w \<noteq> (h + Suc i) mod w" using ring_index_inj [of 0 w "Suc i" h] that w by auto
      then have "h \<noteq> ((h + 1) mod w + i) mod w" using w(3) by (simp add: mod_simps)
      then show ?thesis
        using n False that w by (simp add: ring_push_def window_def w_def [symmetric] h_def [symmetric] nth_append Let_def mod_simps)
    qed
    moreover have "length (window (ring_push a x)) = w" using n by (simp add: w_def ring_push_def Let_def)
    moreover have "drop (agg_n a + 1 - nat (Window (agg_p a))) (window a @ [x]) = drop 1 (window a @ [x])"
      using n by (simp add: w_def)
    ultimately show ?thesis
      using n w(1) by (intro nth_equalityI) (simp_all only: nth_drop length_drop length_append length_window, auto)
  qed
qed

lemma Add_unfold:
  assumes "0 < Window (agg_p a)"
  shows "Add a t rtt ld =
    (if t = 0 \<or> rtt \<le> 0 \<or> t < agg_last a then (False, a)
     else if ld then (True, a\<lparr>agg_last := t, agg_seen := True, agg_loadedAt := t, loaded := loaded a + 1\<rparr>)
     else (True, levelShift (ring_push (a\<lparr>agg_last := t, agg_seen := True, agg_at := t, unloaded := unloaded a + 1\<rparr>) rtt)))"
  using assms by (auto simp: Add_def ring_push_def IsZero_def Let_def)

lemma levelShift_frame:
  "agg_p (levelShift a) = agg_p a" "ring (levelShift a) = ring a" "agg_at (levelShift a) = agg_at a"
  "agg_last (levelShift a) = agg_last a" "agg_loadedAt (levelShift a) = agg_loadedAt a"
  "agg_seen (levelShift a) = agg_seen a"
  by (auto simp: levelShift_def Let_def)

lemma levelShift_ok:
  assumes "agg_ok a"
  shows "agg_ok (levelShift a)"
proof -
  have p: "0 < ShiftRun (agg_p a)" "0 < Window (agg_p a)" "agg_n a \<le> nat (Window (agg_p a))"
    using assms by (auto simp: agg_ok_def params_ok_def)
  have w: "set (window (levelShift a)) \<subseteq> set (window a)"
    using levelShift_window [OF p(3,1)] by (auto dest: in_set_dropD)
  have "agg_n (levelShift a) \<le> agg_n a" "agg_head (levelShift a) < nat (Window (agg_p a))"
    using assms p by (auto simp: levelShift_def agg_ok_def Let_def)
  then show ?thesis using assms w unfolding agg_ok_def levelShift_frame by auto
qed

lemma ring_push_ok:
  assumes "agg_ok a" "0 < x" "agg_at a \<noteq> 0"
  shows "agg_ok (ring_push a x)"
proof -
  have p: "length (ring a) = 64" "0 < Window (agg_p a)" "Window (agg_p a) \<le> 64"
    "agg_head a < nat (Window (agg_p a))" "agg_n a \<le> nat (Window (agg_p a))"
    using assms by (auto simp: agg_ok_def params_ok_def)
  have w: "set (window (ring_push a x)) \<subseteq> insert x (set (window a))"
    unfolding ring_push_window [OF p] by (rule order_trans [OF set_drop_subset]) auto
  have "agg_p (ring_push a x) = agg_p a" "length (ring (ring_push a x)) = 64"
    "agg_n (ring_push a x) \<le> nat (Window (agg_p a))" "agg_head (ring_push a x) < nat (Window (agg_p a))"
    "agg_at (ring_push a x) = agg_at a" "agg_last (ring_push a x) = agg_last a"
    using p by (auto simp: ring_push_def Let_def)
  then show ?thesis using assms w unfolding agg_ok_def by auto
qed

lemma params_ok_normalized: "params_ok (normalized p)"
proof -
  have "f_lt (Fin 0) (Fin 3)" by (simp add: f_lt_def)
  moreover have "SigmaK (normalized p) =
      (if \<not> f_lt (Fin 0) (SigmaK p) \<or> SigmaK p = PInf \<or> SigmaK p = NInf then Fin 3 else SigmaK p)"
    by (auto simp: normalized_def DefaultAggParams_def Let_def)
  ultimately show ?thesis by (auto simp: params_ok_def normalized_def DefaultAggParams_def Let_def)
qed

lemma agg_ok_New: "agg_ok (NewAggregator p)"
  using params_ok_normalized [of p] by (auto simp: agg_ok_def NewAggregator_def window_def params_ok_def)

lemma agg_ok_Reset: "agg_ok a \<Longrightarrow> agg_ok (Reset a)"
  by (auto simp: agg_ok_def Reset_def window_def params_ok_def)

section \<open>The mean\<close>

lemma sum_of_exact:
  assumes "\<forall>x\<in>set xs. 0 < x \<and> x \<le> 2 ^ 47" and "e \<le> length xs" and "length xs \<le> 64"
  shows "sum_of (\<lambda>i. Fin (f_int (xs ! i))) e = Fin (of_int (sum_list (take e xs)))
    \<and> 0 \<le> sum_list (take e xs) \<and> sum_list (take e xs) \<le> int e * 2 ^ 47"
  using assms(2)
proof (induction e)
  case (Suc e)
  then have x: "0 < xs ! e" "xs ! e \<le> 2 ^ 47" using assms(1) by auto
  have f: "f_int (xs ! e) = of_int (xs ! e)" using x by (simp add: f_int_def rnd_of_int)
  let ?t = "sum_list (take e xs) + xs ! e"
  have t: "0 \<le> ?t" "?t \<le> int (Suc e) * 2 ^ 47" using Suc x by auto
  have "int (Suc e) * 2 ^ 47 \<le> 64 * 2 ^ 47" using Suc.prems assms(3) by (intro mult_right_mono) auto
  then have "?t \<le> 2 ^ 53" using t(2) by simp
  then have "\<bar>?t\<bar> \<le> 2 ^ 53" using t(1) by simp
  then have "f_add (Fin (of_int (sum_list (take e xs)))) (Fin (f_int (xs ! e))) = Fin (of_int ?t)"
    unfolding f by (simp add: f_of_int flip: of_int_add)
  moreover have "take (Suc e) xs = take e xs @ [xs ! e]" using Suc.prems by (simp add: take_Suc_conv_app_nth)
  ultimately show ?case using Suc t by (simp add: sum_of_def)
qed (simp add: sum_of_def)

lemma mean_between:
  assumes "\<forall>x\<in>set xs. 0 < x \<and> x \<le> 2 ^ 47" and "xs \<noteq> []" and "length xs \<le> 64"
    and "\<forall>x\<in>set xs. lo \<le> x \<and> x \<le> hi" and "0 \<le> lo" and "hi \<le> 2 ^ 47"
  defines "m \<equiv> f_trunc (f_round (f_div (sum_of (\<lambda>i. Fin (f_int (xs ! i))) (length xs)) (Fin (f_int (int (length xs))))))"
  shows "lo \<le> m \<and> m \<le> hi"
proof -
  let ?n = "of_nat (length xs) :: rat" and ?s = "of_int (sum_list xs) :: rat"
  let ?q = "?s / ?n"
  have n: "0 < ?n" using assms(2) by simp
  have "int (length xs) * lo \<le> sum_list xs \<and> sum_list xs \<le> int (length xs) * hi"
    using assms(4) by (induction xs) (auto simp: algebra_simps)
  then have "of_int (int (length xs) * lo) \<le> ?s" "?s \<le> of_int (int (length xs) * hi)"
    by (simp_all only: of_int_le_iff)
  then have q: "of_int lo \<le> ?q" "?q \<le> of_int hi" using n by (simp_all add: field_simps)
  have lh: "lo \<le> hi" "\<bar>lo\<bar> \<le> 2 ^ 53" "\<bar>hi\<bar> \<le> 2 ^ 53" using assms(2,4,5,6) by (cases xs; auto)+
  have r: "of_int lo \<le> rnd ?q" "rnd ?q \<le> of_int hi"
    using rnd_mono [OF q(1)] rnd_mono [OF q(2)] lh by (simp_all add: rnd_of_int)
  have "(of_int hi :: rat) \<le> 2 powi 47" using assms(6) by (simp add: of_int_le_numeral_iff)
  also have "(2::rat) powi 47 \<le> 2 powi 1000" by (rule powi_mono) simp
  finally have "\<bar>?q\<bar> \<le> 2 powi 1000" using q assms(5) by (simp add: abs_le_iff)
  then have d: "f_div (sum_of (\<lambda>i. Fin (f_int (xs ! i))) (length xs)) (Fin (f_int (int (length xs)))) = Fin (rnd ?q)"
    using sum_of_exact [OF assms(1) order_refl assms(3)] n assms(3)
    by (simp add: f_int_def rnd_of_int [of "int (length xs)", simplified] f_of_Fin)
  let ?k = "\<lfloor>rnd ?q + 1 / 2\<rfloor>"
  have k: "lo \<le> ?k" "?k \<le> hi" using r by linarith+
  have "0 \<le> rnd ?q" using r(1) assms(5) by linarith
  moreover have "\<bar>?k\<bar> \<le> 2 ^ 53" using order_trans [OF assms(5) k(1)] order_trans [OF k(2) assms(6)] by simp
  ultimately have "f_round (Fin (rnd ?q)) = Fin (of_int ?k)" and "i64 ?k" using f_of_int [of ?k] by (simp_all add: i64_def abs_le_iff)
  then have "m = ?k" unfolding m_def d by (simp only: f_trunc_int)
  then show ?thesis using k by simp
qed

section \<open>Properties\<close>

text \<open>Claim C40: the ring is a sliding window. Parameters are normalised into range; a sample is refused
  exactly when it has no time, a non-positive value or is older than the newest accepted one, and then
  nothing changes; a loaded sample leaves the window alone; an unloaded one slides it, and a level
  shift keeps exactly the newest run of it. Every operation keeps the ring well-formed.\<close>

theorem aggregator_refines_window:
  assumes "agg_ok a" and "Add a t rtt ld = (ok, a')"
  shows "agg_ok a' \<and> agg_ok (Reset a) \<and> window (Reset a) = [] \<and> agg_ok (NewAggregator p) \<and>
    (ok \<longleftrightarrow> t \<noteq> 0 \<and> 0 < rtt \<and> agg_last a \<le> t) \<and> (\<not> ok \<longrightarrow> a' = a) \<and>
    (ok \<longrightarrow> agg_last a' = t \<and> agg_seen a' \<and>
      (if ld then window a' = window a \<and> agg_at a' = agg_at a \<and> agg_loadedAt a' = t
       else window a' = slide (agg_p a) (window a) rtt \<and> agg_at a' = t \<and> agg_loadedAt a' = agg_loadedAt a))"
proof -
  have p: "length (ring a) = 64" "0 < Window (agg_p a)" "Window (agg_p a) \<le> 64"
    "agg_head a < nat (Window (agg_p a))" "agg_n a \<le> nat (Window (agg_p a))" "0 < ShiftRun (agg_p a)"
    using assms by (auto simp: agg_ok_def params_ok_def)
  let ?b = "a\<lparr>agg_last := t, agg_seen := True, agg_at := t, unloaded := unloaded a + 1\<rparr>"
  have b: "window ?b = window a" by (simp add: window_def)
  note u = Add_unfold [OF p(2), of t rtt ld, unfolded assms(2)]
  have "agg_ok a' \<and> window a' = slide (agg_p a) (window a) rtt \<and> agg_at a' = t \<and> agg_loadedAt a' = agg_loadedAt a \<and>
      agg_last a' = t \<and> agg_seen a'"
    if c: "t \<noteq> 0" "0 < rtt" "agg_last a \<le> t" "\<not> ld"
  proof -
    have a': "a' = levelShift (ring_push ?b rtt)" using u c by simp
    have "agg_ok ?b" using assms(1) c by (auto simp: agg_ok_def b [simplified])
    then have o: "agg_ok (ring_push ?b rtt)" using c by (intro ring_push_ok) auto
    have w: "window (ring_push ?b rtt) = drop (agg_n a + 1 - nat (Window (agg_p a))) (window a @ [rtt])"
      using ring_push_window [of ?b rtt] p b by simp
    have q: "agg_p (ring_push ?b rtt) = agg_p a" by (simp add: ring_push_def Let_def)
    have "agg_n (ring_push ?b rtt) \<le> nat (Window (agg_p a))" using o by (simp add: agg_ok_def q)
    then have "window a' = (if list_shift (agg_p a) (window (ring_push ?b rtt))
        then drop (length (window (ring_push ?b rtt)) - nat (ShiftRun (agg_p a))) (window (ring_push ?b rtt))
        else window (ring_push ?b rtt))"
      using levelShift_window [of "ring_push ?b rtt"] p(6) unfolding a' q length_window by blast
    then have "window a' = slide (agg_p a) (window a) rtt"
      unfolding slide_def Let_def length_window [of a] w .
    then show ?thesis
      using levelShift_ok [OF o] unfolding a' levelShift_frame by (simp add: ring_push_def Let_def)
  qed
  moreover have "agg_ok a' \<and> window a' = window a"
    if c: "t \<noteq> 0" "0 < rtt" "agg_last a \<le> t" "ld"
    using u c assms(1) by (auto simp: agg_ok_def window_def)
  ultimately show ?thesis
    using u assms(1) agg_ok_New [of p] agg_ok_Reset [OF assms(1)]
    by (cases ld) (auto simp: not_le window_def Reset_def split: if_splits)
qed

theorem aggregator_refines_window_witness:
  "window (snd (Add (NewAggregator DefaultAggParams) 5 20 False)) = slide (normalized DefaultAggParams) [] 20 \<and>
   \<not> fst (Add (NewAggregator DefaultAggParams) 0 20 False)"
proof -
  let ?a = "NewAggregator DefaultAggParams"
  have w: "window ?a = []" "agg_p ?a = normalized DefaultAggParams" "agg_last ?a = 0"
    by (simp_all add: window_def NewAggregator_def)
  obtain ok1 a1 where 1: "Add ?a 5 20 False = (ok1, a1)" by fastforce
  obtain ok2 a2 where 2: "Add ?a 0 20 False = (ok2, a2)" by fastforce
  show ?thesis
    using aggregator_refines_window [OF agg_ok_New 1] aggregator_refines_window [OF agg_ok_New 2] 1 2 w by auto
qed

text \<open>The published mean. When the window holds samples of at most \<open>2^47\<close> ns (39 hours) the mean lies
  between the smallest and the largest of them; so evidence has a positive value exactly when there
  is an unloaded sample.\<close>

theorem aggregator_mean_between:
  assumes "agg_ok a" and "agg_n a > 0" and "\<forall>x\<in>set (window a). x \<le> 2 ^ 47"
  shows "Min (set (window a)) \<le> Mean (Aggregator_Summary a) \<and>
    Mean (Aggregator_Summary a) \<le> Max (set (window a)) \<and> valued (Aggregator_Summary a)"
proof -
  let ?w = "window a"
  have ne: "?w \<noteq> []" using assms(2) by (metis length_window less_nat_zero_code list.size(3))
  have pos: "\<forall>x\<in>set ?w. 0 < x \<and> x \<le> 2 ^ 47" using assms by (auto simp: agg_ok_def)
  have m: "Min (set ?w) \<in> set ?w" "Max (set ?w) \<in> set ?w" using ne by auto
  have "sum_of (agg_sample a) (agg_n a) = sum_of (\<lambda>i. Fin (f_int (?w ! i))) (agg_n a)"
    unfolding sum_of_def by (rule fun_cong [OF fold_cong_nth]) (auto simp: agg_sample_def window_nth)
  then have "Min (set ?w) \<le> Mean (Aggregator_Summary a) \<and> Mean (Aggregator_Summary a) \<le> Max (set ?w)"
    using mean_between [OF pos ne, of "Min (set ?w)" "Max (set ?w)"] m pos assms
    by (auto simp: Aggregator_Summary_def agg_ok_def params_ok_def)
  moreover have "0 < Min (set ?w)" using m(1) pos by blast
  ultimately show ?thesis
    using assms by (auto simp: valued_def Aggregator_Summary_def agg_ok_def IsZero_def)
qed

theorem aggregator_mean_between_witness:
  "valued (Aggregator_Summary (snd (Add (NewAggregator DefaultAggParams) 5 20 False)))"
proof -
  let ?a = "snd (Add (NewAggregator DefaultAggParams) 5 20 False)"
  have "window ?a = [20]" "agg_n ?a = 1" by code_simp+
  moreover have "agg_ok ?a"
    unfolding agg_ok_def using params_ok_normalized by code_simp
  ultimately show ?thesis using aggregator_mean_between [of ?a] by simp
qed

end
