(* ===== verification/Sess_Spans.thy ===== *)
theory Sess_Spans
  imports Prelude
begin

text \<open>
  Byte ranges of the stream's send side: \<open>span\<close> and \<open>spanList\<close> of \<open>internal/session/stream.go\<close>, which
  record what a lane has in flight and what has to be sent again. The lemmas show that a span list is
  an exact representation of a finite set of stream offsets. A \<open>uint64\<close> is a natural number below
  \<open>2 ^ 64\<close>, and every addition and subtraction of the code is written out modulo \<open>2 ^ 64\<close>.
\<close>

section \<open>Binary search\<close>

text \<open>The search loop that \<open>spanList.add\<close> and \<open>segList.after\<close> share: the first index in
  \<open>[lo, hi)\<close> where \<open>below\<close> no longer holds.\<close>

function bsearch :: "(nat \<Rightarrow> bool) \<Rightarrow> nat \<Rightarrow> nat \<Rightarrow> nat" where
  "bsearch below lo hi =
     (if lo < hi
      then let m = (lo + hi) div 2
           in if below m then bsearch below (m + 1) hi else bsearch below lo m
      else lo)"
  by pat_completeness auto
termination
  by (relation "measure (\<lambda>(below, lo, hi). hi - lo)") auto

declare bsearch.simps [simp del]

lemma bsearch_spec:
  assumes mono: "\<And>i j. i \<le> j \<Longrightarrow> j < N \<Longrightarrow> below j \<Longrightarrow> below i"
  shows "lo \<le> hi \<Longrightarrow> hi \<le> N \<Longrightarrow> (\<And>i. i < lo \<Longrightarrow> below i) \<Longrightarrow> (hi < N \<Longrightarrow> \<not> below hi) \<Longrightarrow>
    bsearch below lo hi \<le> N \<and> (\<forall>i < bsearch below lo hi. below i) \<and>
    (bsearch below lo hi < N \<longrightarrow> \<not> below (bsearch below lo hi))"
  using mono
proof (induction below lo hi rule: bsearch.induct)
  case (1 below lo hi)
  define m where "m = (lo + hi) div 2"
  show ?case
  proof (cases "lo < hi")
    case False
    then have "bsearch below lo hi = lo" by (simp add: bsearch.simps [of below lo hi])
    then show ?thesis using False 1(3-6) by simp
  next
    case True
    then have m: "lo \<le> m" "m < hi" by (auto simp: m_def)
    show ?thesis
    proof (cases "below m")
      case b: True
      have low: "below i" if "i < m + 1" for i
        using 1(7) [of i m] that b m 1(4) by auto
      have "bsearch below (m + 1) hi \<le> N \<and> (\<forall>i < bsearch below (m + 1) hi. below i) \<and>
          (bsearch below (m + 1) hi < N \<longrightarrow> \<not> below (bsearch below (m + 1) hi))"
        by (rule 1(1) [OF True m_def b]) (use m in simp, rule 1(4), erule low, erule 1(6), erule (2) 1(7))
      then show ?thesis using True b by (simp add: bsearch.simps [of below lo hi] m_def Let_def)
    next
      case b: False
      have "bsearch below lo m \<le> N \<and> (\<forall>i < bsearch below lo m. below i) \<and>
          (bsearch below lo m < N \<longrightarrow> \<not> below (bsearch below lo m))"
        by (rule 1(2) [OF True m_def b]) (rule m(1), use m 1(4) in simp, erule 1(5), rule b, erule (2) 1(7))
      then show ?thesis using True b by (simp add: bsearch.simps [of below lo hi] m_def Let_def)
    qed
  qed
qed

section \<open>Spans\<close>

record span =
  sp_off :: nat
  sp_n :: nat

text \<open>\<open>uint64\<close> addition and subtraction.\<close>

definition add64 :: "nat \<Rightarrow> nat \<Rightarrow> nat" where
  "add64 a b = (a + b) mod 2 ^ 64"

definition sub64 :: "nat \<Rightarrow> nat \<Rightarrow> nat" where
  "sub64 a b = (2 ^ 64 + a - b) mod 2 ^ 64"

definition sp_end :: "span \<Rightarrow> nat" where
  "sp_end sp = add64 (sp_off sp) (sp_n sp)"

definition spans_empty :: "span list \<Rightarrow> bool" where
  "spans_empty l = (length l = 0)"

definition spans_reset :: "span list \<Rightarrow> span list" where
  "spans_reset l = take 0 l"

definition spans_bytes :: "span list \<Rightarrow> nat" where
  "spans_bytes l = fold (\<lambda>sp n. add64 n (sp_n sp)) l 0"

text \<open>The loop \<open>for j < k && s[j].off <= end { j++ }\<close> of \<open>add\<close>.\<close>

function add_skip :: "span list \<Rightarrow> nat \<Rightarrow> nat \<Rightarrow> nat" where
  "add_skip s e j = (if j < length s \<and> sp_off (s ! j) \<le> e then add_skip s e (j + 1) else j)"
  by pat_completeness auto
termination
  by (relation "measure (\<lambda>(s, e, j). length s - j)") auto

declare add_skip.simps [simp del]

definition spans_add :: "nat \<Rightarrow> nat \<Rightarrow> span list \<Rightarrow> span list" where
  "spans_add off n s =
     (if n = 0 then s
      else
       let e = add64 off n; k = length s
       in if k = 0 \<or> sp_end (s ! (k - 1)) < off then s @ [\<lparr>sp_off = off, sp_n = n\<rparr>]
          else if sp_off (s ! (k - 1)) \<le> off
          then (if e > sp_end (s ! (k - 1))
                then s[k - 1 := (s ! (k - 1))\<lparr>sp_n := sub64 e (sp_off (s ! (k - 1)))\<rparr>] else s)
          else
           let i = bsearch (\<lambda>m. sp_end (s ! m) < off) 0 k;
               j = add_skip s e i
           in if i = j then take i s @ [\<lparr>sp_off = off, sp_n = n\<rparr>] @ drop i s
              else
               let nOff = min off (sp_off (s ! i)); nEnd = max e (sp_end (s ! (j - 1)))
               in take i s @ [\<lparr>sp_off = nOff, sp_n = sub64 nEnd nOff\<rparr>] @ drop j s)"

definition spans_trimBelow :: "nat \<Rightarrow> span list \<Rightarrow> span list" where
  "spans_trimBelow x s =
     (case dropWhile (\<lambda>sp. sp_end sp \<le> x) s of
        [] \<Rightarrow> []
      | sp # l \<Rightarrow>
          (if sp_off sp < x then \<lparr>sp_off = x, sp_n = sub64 (sp_n sp) (sub64 x (sp_off sp))\<rparr> else sp) # l)"

text \<open>\<open>takeFront\<close> indexes the first span: on an empty list the code panics, here \<open>None\<close>. A count above
  the span's length wraps its length.\<close>

definition spans_takeFront :: "nat \<Rightarrow> span list \<Rightarrow> span list option" where
  "spans_takeFront n s =
     (case s of
        [] \<Rightarrow> None
      | sp # l \<Rightarrow>
          let m = sub64 (sp_n sp) n
          in Some (if m = 0 then l else \<lparr>sp_off = add64 (sp_off sp) n, sp_n = m\<rparr> # l))"

section \<open>The invariant and the set of offsets\<close>

definition spans_ok :: "span list \<Rightarrow> bool" where
  "spans_ok l = (sorted_wrt (\<lambda>a b. sp_end a < sp_off b) l \<and>
     (\<forall>sp \<in> set l. 0 < sp_n sp \<and> sp_off sp + sp_n sp < 2 ^ 64))"

definition sp_set :: "span \<Rightarrow> nat set" where
  "sp_set sp = {sp_off sp ..< sp_off sp + sp_n sp}"

definition span_set :: "span list \<Rightarrow> nat set" where
  "span_set l = (\<Union>sp \<in> set l. sp_set sp)"

lemma add64_eq [simp]: "a + b < 2 ^ 64 \<Longrightarrow> add64 a b = a + b"
  by (simp add: add64_def)

lemma sub64_eq: "b \<le> a \<Longrightarrow> a < 2 ^ 64 \<Longrightarrow> sub64 a b = a - b"
  unfolding sub64_def by (metis Nat.add_diff_assoc less_imp_diff_less mod_add_self1 mod_less)

lemma span_set_simps [simp]:
  "span_set [] = {}" "span_set (sp # l) = sp_set sp \<union> span_set l"
  "span_set (xs @ ys) = span_set xs \<union> span_set ys"
  by (auto simp: span_set_def)

lemma spans_ok_Nil [simp]: "spans_ok []"
  by (simp add: spans_ok_def)

lemma spans_ok_Cons:
  "spans_ok (sp # l) \<longleftrightarrow> 0 < sp_n sp \<and> sp_off sp + sp_n sp < 2 ^ 64 \<and>
     (\<forall>b \<in> set l. sp_end sp < sp_off b) \<and> spans_ok l"
  by (auto simp: spans_ok_def)

lemma spans_ok_append:
  "spans_ok (xs @ ys) \<longleftrightarrow>
     spans_ok xs \<and> spans_ok ys \<and> (\<forall>a \<in> set xs. \<forall>b \<in> set ys. sp_end a < sp_off b)"
  by (auto simp: spans_ok_def sorted_wrt_append)

lemma spans_ok_nth: "spans_ok l \<Longrightarrow> i < j \<Longrightarrow> j < length l \<Longrightarrow> sp_end (l ! i) < sp_off (l ! j)"
  by (auto simp: spans_ok_def intro: sorted_wrt_nth_less)

lemma spans_ok_end: "spans_ok l \<Longrightarrow> sp \<in> set l \<Longrightarrow> sp_end sp = sp_off sp + sp_n sp \<and> sp_end sp < 2 ^ 64"
  by (auto simp: spans_ok_def sp_end_def)

lemma sp_set_end: "spans_ok l \<Longrightarrow> sp \<in> set l \<Longrightarrow> sp_set sp = {sp_off sp ..< sp_end sp}"
  by (simp add: spans_ok_end sp_set_def)

lemma spans_ok_pos: "spans_ok l \<Longrightarrow> i < length l \<Longrightarrow> sp_off (l ! i) < sp_end (l ! i)"
  by (auto simp: spans_ok_def sp_end_def)

lemma spans_end_mono:
  "spans_ok l \<Longrightarrow> i \<le> j \<Longrightarrow> j < length l \<Longrightarrow> sp_end (l ! i) \<le> sp_end (l ! j)"
  using spans_ok_nth [of l i j] spans_ok_pos [of l j] by (cases "i = j") auto

lemma spans_off_mono:
  "spans_ok l \<Longrightarrow> i \<le> j \<Longrightarrow> j < length l \<Longrightarrow> sp_off (l ! i) \<le> sp_off (l ! j)"
  using spans_ok_nth [of l i j] spans_ok_pos [of l i] by (cases "i = j") auto

lemma bytes_fold: "fold (\<lambda>sp n. add64 n (sp_n sp)) l (a mod 2 ^ 64) = (a + sum_list (map sp_n l)) mod 2 ^ 64"
proof (induction l arbitrary: a)
  case (Cons sp l)
  have "add64 (a mod 2 ^ 64) (sp_n sp) = (a + sp_n sp) mod 2 ^ 64" by (simp only: add64_def mod_add_left_eq)
  then show ?case using Cons [of "a + sp_n sp"] by (simp only: fold_simps list.map sum_list.Cons add.assoc)
qed simp

lemma bytes_card: "spans_ok l \<Longrightarrow> spans_bytes l = card (span_set l)"
proof -
  assume ok: "spans_ok l"
  have "spans_ok l \<Longrightarrow> finite (span_set l) \<and> card (span_set l) = sum_list (map sp_n l)" for l
  proof (induction l)
    case (Cons sp l)
    have disj: "sp_set sp \<inter> span_set l = {}"
      using Cons.prems by (fastforce simp: spans_ok_Cons sp_end_def sp_set_def span_set_def)
    have "finite (sp_set sp)" "card (sp_set sp) = sp_n sp" by (simp_all add: sp_set_def)
    then show ?case using Cons disj by (simp add: spans_ok_Cons card_Un_disjoint)
  qed simp
  then have c: "card (span_set l) = sum_list (map sp_n l)" using ok by blast
  have "span_set l \<subseteq> {0 ..< 2 ^ 64 - 1}"
    using ok by (fastforce simp: span_set_def sp_set_def spans_ok_def)
  then have "card (span_set l) \<le> card {0 ..< 2 ^ 64 - 1 :: nat}" by (rule card_mono [rotated]) simp
  then have "card (span_set l) < 2 ^ 64" by simp
  then show ?thesis using bytes_fold [of l 0] by (simp add: spans_bytes_def c)
qed

section \<open>Adding a range\<close>

lemma add_skip_spec:
  "j \<le> add_skip s e j \<and> (\<forall>m. j \<le> m \<and> m < add_skip s e j \<longrightarrow> m < length s \<and> sp_off (s ! m) \<le> e) \<and>
   (add_skip s e j < length s \<longrightarrow> e < sp_off (s ! add_skip s e j))"
proof (induction s e j rule: add_skip.induct)
  case (1 s e j)
  show ?case
  proof (cases "j < length s \<and> sp_off (s ! j) \<le> e")
    case True
    then show ?thesis using 1 [OF True]
      by (subst (1 2 3 4) add_skip.simps) (auto simp: not_less_eq_eq elim!: le_SucE dest: le_neq_implies_less)
  next
    case False
    then show ?thesis by (subst (1 2 3 4) add_skip.simps) auto
  qed
qed

text \<open>The general insertion: everything before \<open>i\<close> ends below \<open>off\<close>, everything from \<open>j\<close> on
  starts above \<open>e\<close>, and what lies between touches the new range.\<close>

lemma add_replace:
  assumes ok: "spans_ok s" and ij: "i \<le> j" "j \<le> length s" and e: "off < e" "e < 2 ^ 64"
    and before: "\<And>m. m < i \<Longrightarrow> sp_end (s ! m) < off"
    and behind: "\<And>m. j \<le> m \<Longrightarrow> m < length s \<Longrightarrow> e < sp_off (s ! m)"
    and touch: "\<And>m. i \<le> m \<Longrightarrow> m < j \<Longrightarrow> off \<le> sp_end (s ! m) \<and> sp_off (s ! m) \<le> e"
    and a: "a = (if i = j then off else min off (sp_off (s ! i)))"
    and b: "b = (if i = j then e else max e (sp_end (s ! (j - 1))))"
  defines "t \<equiv> take i s @ [\<lparr>sp_off = a, sp_n = b - a\<rparr>] @ drop j s"
  shows "spans_ok t \<and> span_set t = span_set s \<union> {off ..< e}"
proof -
  have ab: "a < b" using e a b by (auto split: if_splits)
  have s: "s = take i s @ take (j - i) (drop i s) @ drop j s"
    using ij by (metis append_take_drop_id drop_drop le_add_diff_inverse2)
  have "sp_end (s ! (j - 1)) < 2 ^ 64" if "i \<noteq> j"
    using that ij spans_ok_end [OF ok, of "s ! (j - 1)"] by simp
  then have b64: "b < 2 ^ 64" using b e(2) by (simp split: if_splits)
  have end1: "sp_end \<lparr>sp_off = a, sp_n = b - a\<rparr> = b" using ab b64 by (simp add: sp_end_def)
  have set_at: "sp_set (s ! m) = {sp_off (s ! m) ..< sp_end (s ! m)}" if "m < j" for m
    using that ij by (intro sp_set_end [OF ok]) simp
  have front: "sp_end x < a" if "x \<in> set (take i s)" for x
  proof -
    from that obtain m where m: "m < i" "m < length s" "x = s ! m" by (auto simp: in_set_conv_nth)
    show ?thesis using m before [of m] spans_ok_nth [OF ok, of m i] ij a by (auto split: if_splits)
  qed
  have rear: "b < sp_off x" if "x \<in> set (drop j s)" for x
  proof -
    from that obtain m where m: "j \<le> m" "m < length s" "x = s ! m"
      by (auto simp: in_set_conv_nth) (metis add.commute le_add2 less_diff_conv)
    show ?thesis using m behind [of m] spans_ok_nth [OF ok, of "j - 1" m] ij b by (auto split: if_splits)
  qed
  have mid: "span_set (take (j - i) (drop i s)) \<union> {off ..< e} = {a ..< b}"
  proof (cases "i = j")
    case True then show ?thesis using a b by simp
  next
    case False
    then have lt: "i < j" using ij by simp
    have sub: "sp_set (s ! m) \<subseteq> {a ..< b}" if "i \<le> m" "m < j" for m
    proof -
      have "sp_off (s ! i) \<le> sp_off (s ! m)" "sp_end (s ! m) \<le> sp_end (s ! (j - 1))"
        using that ij by (auto intro!: spans_off_mono [OF ok] spans_end_mono [OF ok])
      then show ?thesis using lt a b that by (auto simp: set_at)
    qed
    have mem: "s ! m \<in> set (take (j - i) (drop i s))" if "i \<le> m" "m < j" for m
      using that ij by (force simp: in_set_conv_nth intro!: exI [of _ "m - i"])
    have inner: "span_set (take (j - i) (drop i s)) \<subseteq> {a ..< b}"
    proof
      fix x assume "x \<in> span_set (take (j - i) (drop i s))"
      then obtain k where "k < j - i" "x \<in> sp_set (s ! (i + k))"
        using ij by (auto simp: span_set_def in_set_conv_nth)
      then show "x \<in> {a ..< b}" using subsetD [OF sub [of "i + k"]] by simp
    qed
    have cover: "x \<in> span_set (take (j - i) (drop i s)) \<union> {off ..< e}" if x: "a \<le> x" "x < b" for x
    proof -
      consider "x < off" | "off \<le> x" "x < e" | "e \<le> x" by linarith
      then show ?thesis
      proof cases
        case 1
        then have "x \<in> sp_set (s ! i)" using x a lt touch [of i] by (auto simp: set_at min_def split: if_splits)
        then show ?thesis using mem [of i] lt by (auto simp: span_set_def)
      next
        case 2 then show ?thesis by simp
      next
        case 3
        moreover have "sp_off (s ! (j - 1)) \<le> e" using lt touch [of "j - 1"] by auto
        ultimately have "x \<in> sp_set (s ! (j - 1))" using x b lt
          by (auto simp: set_at max_def split: if_splits)
        then show ?thesis using mem [of "j - 1"] lt by (force simp: span_set_def)
      qed
    qed
    have "{a ..< b} \<subseteq> span_set (take (j - i) (drop i s)) \<union> {off ..< e}" using cover by (metis atLeastLessThan_iff subsetI)
    moreover have "{off ..< e} \<subseteq> {a ..< b}" using a b by auto
    ultimately show ?thesis using inner by blast
  qed
  have "spans_ok (take i s)" "spans_ok (drop j s)"
    using ok by (metis append_take_drop_id spans_ok_append)+
  then have "spans_ok t"
    using front rear ab end1 b64 by (fastforce simp: t_def spans_ok_append spans_ok_Cons)
  moreover have "span_set t = span_set s \<union> {off ..< e}"
  proof -
    have "span_set s = span_set (take i s) \<union> span_set (take (j - i) (drop i s)) \<union> span_set (drop j s)"
      by (subst s) (simp only: span_set_simps Un_assoc)
    moreover have "span_set t = span_set (take i s) \<union> {a ..< b} \<union> span_set (drop j s)"
      using ab by (simp add: t_def sp_set_def Un_assoc)
    ultimately show ?thesis using mid by blast
  qed
  ultimately show ?thesis by simp
qed

lemma add_correct:
  assumes ok: "spans_ok s" and w: "off + n < 2 ^ 64"
  shows "spans_ok (spans_add off n s) \<and> span_set (spans_add off n s) = span_set s \<union> {off ..< off + n}"
proof (cases "n = 0")
  case True then show ?thesis using ok by (simp add: spans_add_def)
next
  case n: False
  define k where "k = length s"
  consider (app) "k = 0 \<or> sp_end (s ! (k - 1)) < off"
    | (grow) "k > 0" "\<not> sp_end (s ! (k - 1)) < off" "sp_off (s ! (k - 1)) \<le> off"
    | (gen) "k > 0" "\<not> sp_end (s ! (k - 1)) < off" "off < sp_off (s ! (k - 1))" by linarith
  then show ?thesis
  proof cases
    case app
    have "sp_end (s ! m) < off" if "m < k" for m
    proof -
      have "sp_end (s ! m) \<le> sp_end (s ! (k - 1))"
        using that by (intro spans_end_mono [OF ok]) (auto simp: k_def)
      then show ?thesis using app that by auto
    qed
    then show ?thesis using add_replace [OF ok, of k k off "off + n"] app n w
      by (auto simp: spans_add_def k_def Let_def)
  next
    case grow
    have bef: "sp_end (s ! m) < off" if "m < k - 1" for m
      using grow that spans_ok_nth [OF ok, of m "k - 1"] by (auto simp: k_def)
    have pos: "sp_off (s ! (k - 1)) < sp_end (s ! (k - 1))" using spans_ok_pos [OF ok] grow by (simp add: k_def)
    show ?thesis
    proof (cases "off + n > sp_end (s ! (k - 1))")
      case True
      have "s[k - 1 := (s ! (k - 1))\<lparr>sp_n := off + n - sp_off (s ! (k - 1))\<rparr>] =
          take (k - 1) s @ [\<lparr>sp_off = sp_off (s ! (k - 1)), sp_n = off + n - sp_off (s ! (k - 1))\<rparr>] @ drop k s"
        using grow by (cases "s ! (k - 1)") (simp add: upd_conv_take_nth_drop k_def)
      then have res: "spans_add off n s =
          take (k - 1) s @ [\<lparr>sp_off = sp_off (s ! (k - 1)), sp_n = off + n - sp_off (s ! (k - 1))\<rparr>] @ drop k s"
        using grow n True w by (simp add: spans_add_def Let_def k_def [symmetric] sub64_eq)
      have "length s - Suc 0 \<noteq> length s" using grow by (cases s) (auto simp: k_def)
      then show ?thesis unfolding res
      proof (intro add_replace [OF ok])
        fix m assume "k - 1 \<le> m" "m < k"
        then have "m = k - 1" by simp
        then show "off \<le> sp_end (s ! m) \<and> sp_off (s ! m) \<le> off + n" using grow by simp
      qed (use bef grow n w True in \<open>simp_all add: k_def\<close>)
    next
      case False
      then have "{off ..< off + n} \<subseteq> sp_set (s ! (k - 1))"
        using grow sp_set_end [OF ok, of "s ! (k - 1)"] by (auto simp: k_def)
      moreover have "s ! (k - 1) \<in> set s" using grow by (simp add: k_def)
      ultimately have "span_set s \<union> {off ..< off + n} = span_set s" unfolding span_set_def by blast
      moreover have "spans_add off n s = s" using grow n False w by (simp add: spans_add_def Let_def k_def [symmetric])
      ultimately show ?thesis using ok by simp
    qed
  next
    case gen
    define i where "i = bsearch (\<lambda>m. sp_end (s ! m) < off) 0 k"
    define j where "j = add_skip s (off + n) i"
    have bs: "i \<le> k \<and> (\<forall>m < i. sp_end (s ! m) < off) \<and> (i < k \<longrightarrow> \<not> sp_end (s ! i) < off)"
      unfolding i_def
      by (rule bsearch_spec) (auto simp: k_def dest: spans_end_mono [OF ok])
    have jj: "i \<le> j" "\<And>m. i \<le> m \<Longrightarrow> m < j \<Longrightarrow> m < k \<and> sp_off (s ! m) \<le> off + n"
      "j < k \<Longrightarrow> off + n < sp_off (s ! j)"
      using add_skip_spec [of i s "off + n"] by (auto simp: j_def k_def)
    have jk: "j \<le> k"
    proof (rule ccontr)
      assume "\<not> j \<le> k"
      then show False using jj(2) [of k] bs by simp
    qed
    have "sp_end (s ! (j - 1)) < 2 ^ 64" if "i \<noteq> j"
      using that jj(1) jk spans_ok_end [OF ok, of "s ! (j - 1)"] by (simp add: k_def)
    then have sub: "sub64 (max (off + n) (sp_end (s ! (j - 1)))) (min off (sp_off (s ! i))) =
        max (off + n) (sp_end (s ! (j - 1))) - min off (sp_off (s ! i))" if "i \<noteq> j"
      using that w by (intro sub64_eq) auto
    have res: "spans_add off n s =
        take i s @ [\<lparr>sp_off = (if i = j then off else min off (sp_off (s ! i))),
          sp_n = (if i = j then off + n else max (off + n) (sp_end (s ! (j - 1)))) -
                 (if i = j then off else min off (sp_off (s ! i)))\<rparr>] @ drop j s"
      using gen n w sub
      by (simp add: spans_add_def Let_def k_def [symmetric] i_def [symmetric] j_def [symmetric])
    show ?thesis unfolding res
    proof (rule add_replace [OF ok])
      fix m assume m: "j \<le> m" "m < length s"
      then show "off + n < sp_off (s ! m)" using jj(3) spans_off_mono [OF ok, of j m] by (simp add: k_def)
    next
      fix m assume m: "i \<le> m" "m < j"
      then have "m < k" "sp_off (s ! m) \<le> off + n" using jj(2) by auto
      moreover have "off \<le> sp_end (s ! m)"
        using bs m \<open>m < k\<close> spans_end_mono [OF ok, of i m] by (auto simp: k_def)
      ultimately show "off \<le> sp_end (s ! m) \<and> sp_off (s ! m) \<le> off + n" by simp
    qed (use bs jj(1) jk n w in \<open>auto simp: k_def\<close>)
  qed
qed

text \<open>A range that ends beyond \<open>2 ^ 64\<close> is recorded with an end below its start.\<close>

lemma add_wraps: "\<exists>sp. spans_add (2 ^ 64 - 1) 2 [] = [sp] \<and> sp_end sp < sp_off sp"
  by (simp add: spans_add_def sp_end_def add64_def)

section \<open>Removing from the front\<close>

lemma trimBelow_correct:
  "spans_ok s \<Longrightarrow> spans_ok (spans_trimBelow x s) \<and> span_set (spans_trimBelow x s) = span_set s \<inter> {x ..}"
proof (induction s)
  case Nil then show ?case by (simp add: spans_trimBelow_def)
next
  case (Cons sp l)
  have e: "sp_end sp = sp_off sp + sp_n sp" "sp_off sp + sp_n sp < 2 ^ 64"
    using spans_ok_end [OF Cons.prems, of sp] by simp_all
  have rest: "span_set l \<inter> {x ..} = span_set l" if "x < sp_end sp"
    using Cons.prems that by (fastforce simp: spans_ok_Cons span_set_def sp_set_def)
  show ?case
  proof (cases "sp_end sp \<le> x")
    case True
    then have "sp_set sp \<inter> {x ..} = {}" by (auto simp: sp_set_def e)
    then show ?thesis using Cons True by (simp add: spans_trimBelow_def spans_ok_Cons Int_Un_distrib2)
  next
    case False
    define sp' where "sp' = (if sp_off sp < x then \<lparr>sp_off = x, sp_n = sp_off sp + sp_n sp - x\<rparr> else sp)"
    have "sub64 (sp_n sp) (sub64 x (sp_off sp)) = sp_off sp + sp_n sp - x" if "sp_off sp < x"
      using that False e by (simp add: sub64_eq)
    then have trim: "spans_trimBelow x (sp # l) = sp' # l" using False by (simp add: spans_trimBelow_def sp'_def)
    have "0 < sp_n sp'" "sp_off sp' + sp_n sp' = sp_off sp + sp_n sp" "sp_set sp' = sp_set sp \<inter> {x ..}"
      using False Cons.prems by (auto simp: sp'_def sp_set_def e spans_ok_Cons)
    moreover from this(2) have "sp_end sp' = sp_end sp" by (simp add: sp_end_def add64_def)
    ultimately show ?thesis using Cons.prems rest False by (simp add: trim spans_ok_Cons Int_Un_distrib2)
  qed
qed

lemma takeFront_correct:
  assumes ok: "spans_ok (sp # l)" and n: "n \<le> sp_n sp"
  shows "\<exists>t. spans_takeFront n (sp # l) = Some t \<and> spans_ok t \<and>
    span_set t = span_set (sp # l) - {sp_off sp ..< sp_off sp + n}"
proof -
  have e: "sp_end sp = sp_off sp + sp_n sp" "sp_off sp + sp_n sp < 2 ^ 64"
    using spans_ok_end [OF ok, of sp] by simp_all
  have rest: "span_set l - {sp_off sp ..< sp_off sp + n} = span_set l"
    using ok n by (fastforce simp: spans_ok_Cons span_set_def sp_set_def e)
  have "sp_set sp - {sp_off sp ..< sp_off sp + n} = {sp_off sp + n ..< sp_end sp}"
    by (auto simp: sp_set_def e)
  moreover have "spans_takeFront n (sp # l) =
      Some (if sp_n sp - n = 0 then l else \<lparr>sp_off = sp_off sp + n, sp_n = sp_n sp - n\<rparr> # l)"
    using n e by (simp add: spans_takeFront_def Let_def sub64_eq)
  ultimately show ?thesis using ok n rest e
    by (auto simp: spans_ok_Cons sp_set_def sp_end_def Un_Diff)
qed

section \<open>Properties\<close>

text \<open>Claim C12: a span list represents a set of stream offsets exactly, in 64-bit arithmetic. From a
  coalesced ascending list whose spans end below \<open>2 ^ 64\<close>, \<open>add\<close> of a range that ends below \<open>2 ^ 64\<close> gives such a
  list of the union with the new range (through the append, the grow and the
  binary-search branch alike), \<open>trimBelow\<close> keeps exactly the offsets from \<open>x\<close> on, \<open>takeFront\<close> of at most
  the first span removes exactly that many offsets at the front, and \<open>bytes\<close> is the number of offsets: under
  these conditions no addition or subtraction wraps. The bound on the range is needed (\<open>add_wraps\<close>).\<close>

theorem span_list_exact:
  assumes "spans_ok s" and "off + n < 2 ^ 64"
  shows "spans_ok (spans_add off n s) \<and> span_set (spans_add off n s) = span_set s \<union> {off ..< off + n} \<and>
    spans_ok (spans_trimBelow x s) \<and> span_set (spans_trimBelow x s) = span_set s \<inter> {x ..} \<and>
    spans_bytes s = card (span_set s) \<and>
    (\<forall>sp l m. s = sp # l \<and> m \<le> sp_n sp \<longrightarrow>
      (\<exists>t. spans_takeFront m s = Some t \<and> spans_ok t \<and>
        span_set t = span_set s - {sp_off sp ..< sp_off sp + m}))"
  using assms add_correct trimBelow_correct bytes_card takeFront_correct by auto

theorem span_list_exact_witness:
  "spans_add 8 4 [\<lparr>sp_off = 2, sp_n = 3\<rparr>, \<lparr>sp_off = 10, sp_n = 5\<rparr>, \<lparr>sp_off = 20, sp_n = 1\<rparr>]
     = [\<lparr>sp_off = 2, sp_n = 3\<rparr>, \<lparr>sp_off = 8, sp_n = 7\<rparr>, \<lparr>sp_off = 20, sp_n = 1\<rparr>] \<and>
   span_set (spans_add 8 4 [\<lparr>sp_off = 2, sp_n = 3\<rparr>, \<lparr>sp_off = 10, sp_n = 5\<rparr>, \<lparr>sp_off = 20, sp_n = 1\<rparr>])
     = span_set [\<lparr>sp_off = 2, sp_n = 3\<rparr>, \<lparr>sp_off = 10, sp_n = 5\<rparr>, \<lparr>sp_off = 20, sp_n = 1\<rparr>] \<union> {8 ..< 8 + 4}"
proof
  show "spans_add 8 4 [\<lparr>sp_off = 2, sp_n = 3\<rparr>, \<lparr>sp_off = 10, sp_n = 5\<rparr>, \<lparr>sp_off = 20, sp_n = 1\<rparr>]
     = [\<lparr>sp_off = 2, sp_n = 3\<rparr>, \<lparr>sp_off = 8, sp_n = 7\<rparr>, \<lparr>sp_off = 20, sp_n = 1\<rparr>]"
    by (simp add: spans_add_def Let_def sp_end_def add64_def sub64_def bsearch.simps add_skip.simps)
  show "span_set (spans_add 8 4 [\<lparr>sp_off = 2, sp_n = 3\<rparr>, \<lparr>sp_off = 10, sp_n = 5\<rparr>, \<lparr>sp_off = 20, sp_n = 1\<rparr>])
     = span_set [\<lparr>sp_off = 2, sp_n = 3\<rparr>, \<lparr>sp_off = 10, sp_n = 5\<rparr>, \<lparr>sp_off = 20, sp_n = 1\<rparr>] \<union> {8 ..< 8 + 4}"
    by (rule span_list_exact [THEN conjunct2, THEN conjunct1]) (simp_all add: spans_ok_def sp_end_def)
qed

end
