(* ===== verification/Sess_Rings.thy ===== *)
theory Sess_Rings
  imports Sess_Spans
begin

text \<open>
  The two ring buffers of \<open>internal/session/stream.go\<close>: \<open>segRing\<close>, the in-order receive queue (a power of two
  in size, doubled when full), and \<open>chunkRing\<close>, the send chunks (a fixed size). Both implement a first-in
  first-out queue; the interface is the locale \<open>fifo_queue\<close>, and the receive path works on the list that the
  ring holds.
\<close>

section \<open>Segments\<close>

text \<open>A segment: \<open>seg_b\<close> is the slice, \<open>seg_bcap\<close> its capacity \<open>cap(sg.b)\<close>, \<open>seg_cap\<close> the class capacity
  \<open>cap(sg.buf.B)\<close> of its buffer (what it charges), \<open>seg_run\<close> tells a copy run from a reference.\<close>

record seg =
  seg_off :: nat
  seg_b :: "byte list"
  seg_bcap :: nat
  seg_cap :: int
  seg_run :: bool

definition seg_zero :: seg where
  "seg_zero = \<lparr>seg_off = 0, seg_b = [], seg_bcap = 0, seg_cap = 0, seg_run = False\<rparr>"

section \<open>The rings\<close>

record segRing =
  sr_s :: "seg list"
  sr_head :: nat
  sr_n :: nat

definition sr_idx :: "segRing \<Rightarrow> nat \<Rightarrow> nat" where
  "sr_idx r i = and (sr_head r + i) (length (sr_s r) - 1)"

definition segRing_at :: "segRing \<Rightarrow> nat \<Rightarrow> seg" where
  "segRing_at r i = sr_s r ! sr_idx r i"

definition segRing_back :: "segRing \<Rightarrow> seg" where
  "segRing_back r = segRing_at r (sr_n r - 1)"

definition segRing_push :: "segRing \<Rightarrow> seg \<Rightarrow> segRing" where
  "segRing_push r sg =
     (let r = (if sr_n r = length (sr_s r)
               then r\<lparr>sr_s := map (segRing_at r) [0..<sr_n r] @
                              replicate (max 8 (2 * length (sr_s r)) - sr_n r) seg_zero,
                      sr_head := 0\<rparr>
               else r)
      in r\<lparr>sr_s := (sr_s r)[sr_idx r (sr_n r) := sg], sr_n := sr_n r + 1\<rparr>)"

definition segRing_popFront :: "segRing \<Rightarrow> seg \<times> segRing" where
  "segRing_popFront r =
     (sr_s r ! sr_head r,
      r\<lparr>sr_s := (sr_s r)[sr_head r := seg_zero],
        sr_head := and (sr_head r + 1) (length (sr_s r) - 1), sr_n := sr_n r - 1\<rparr>)"

text \<open>The ring of send chunks; \<open>None\<close> is a nil slot.\<close>

record 'a chunkRing =
  cr_b :: "'a option list"
  cr_head :: nat
  cr_n :: nat

definition chunkRing_at :: "'a chunkRing \<Rightarrow> nat \<Rightarrow> 'a option" where
  "chunkRing_at r i = cr_b r ! ((cr_head r + i) mod length (cr_b r))"

definition chunkRing_full :: "'a chunkRing \<Rightarrow> bool" where
  "chunkRing_full r = (cr_n r = length (cr_b r))"

definition chunkRing_push :: "'a chunkRing \<Rightarrow> 'a \<Rightarrow> 'a chunkRing" where
  "chunkRing_push r b =
     r\<lparr>cr_b := (cr_b r)[(cr_head r + cr_n r) mod length (cr_b r) := Some b], cr_n := cr_n r + 1\<rparr>"

definition chunkRing_popFront :: "'a chunkRing \<Rightarrow> 'a option \<times> 'a chunkRing" where
  "chunkRing_popFront r =
     (cr_b r ! cr_head r,
      r\<lparr>cr_b := (cr_b r)[cr_head r := None], cr_head := (cr_head r + 1) mod length (cr_b r), cr_n := cr_n r - 1\<rparr>)"

section \<open>The queue interface\<close>

text \<open>A sequence of guarded pushes and pops, with the items popped.\<close>

datatype 'a qop = Push 'a | Pop

fun qrun :: "('q \<Rightarrow> bool) \<Rightarrow> ('q \<Rightarrow> bool) \<Rightarrow> ('q \<Rightarrow> 'a \<Rightarrow> 'q) \<Rightarrow> ('q \<Rightarrow> 'b \<times> 'q) \<Rightarrow> 'a qop list \<Rightarrow> 'q \<Rightarrow>
    'q \<times> 'a list \<times> 'b list" where
  "qrun room some push pop [] q = (q, [], [])"
| "qrun room some push pop (Push x # ops) q =
     (if room q then let (q', ins, outs) = qrun room some push pop ops (push q x) in (q', x # ins, outs)
      else qrun room some push pop ops q)"
| "qrun room some push pop (Pop # ops) q =
     (if some q
      then let (y, q1) = pop q; (q', ins, outs) = qrun room some push pop ops q1 in (q', ins, y # outs)
      else qrun room some push pop ops q)"

locale fifo_queue =
  fixes ok :: "'q \<Rightarrow> bool" and items :: "'q \<Rightarrow> 'b list" and inj :: "'a \<Rightarrow> 'b"
    and room :: "'q \<Rightarrow> bool" and some :: "'q \<Rightarrow> bool"
    and push :: "'q \<Rightarrow> 'a \<Rightarrow> 'q" and pop :: "'q \<Rightarrow> 'b \<times> 'q"
  assumes some_iff: "ok q \<Longrightarrow> some q \<longleftrightarrow> items q \<noteq> []"
    and push_ok: "ok q \<Longrightarrow> room q \<Longrightarrow> ok (push q x)"
    and push_items: "ok q \<Longrightarrow> room q \<Longrightarrow> items (push q x) = items q @ [inj x]"
    and pop_ok: "ok q \<Longrightarrow> some q \<Longrightarrow> ok (snd (pop q))"
    and pop_items: "ok q \<Longrightarrow> some q \<Longrightarrow> items q = fst (pop q) # items (snd (pop q))"
begin

lemma run_fifo:
  "ok q \<Longrightarrow> qrun room some push pop ops q = (q', ins, outs) \<Longrightarrow>
    ok q' \<and> outs @ items q' = items q @ map inj ins"
proof (induction ops arbitrary: q q' ins outs)
  case Nil then show ?case by simp
next
  case (Cons op ops)
  show ?case
  proof (cases op)
    case (Push x)
    show ?thesis
    proof (cases "room q")
      case True
      obtain i where run: "qrun room some push pop ops (push q x) = (q', i, outs)" and i: "ins = x # i"
        using Cons.prems(2) Push True by (auto split: prod.splits)
      show ?thesis
        using Cons.IH [OF push_ok [OF Cons.prems(1) True] run] push_items [OF Cons.prems(1) True] i by simp
    next
      case False then show ?thesis using Cons Push by simp
    qed
  next
    case Pop
    show ?thesis
    proof (cases "some q")
      case True
      obtain o2 where run: "qrun room some push pop ops (snd (pop q)) = (q', ins, o2)" and o2: "outs = fst (pop q) # o2"
        using Cons.prems(2) Pop True by (auto split: prod.splits)
      show ?thesis
        using Cons.IH [OF pop_ok [OF Cons.prems(1) True] run] o2
        by (simp add: pop_items [OF Cons.prems(1) True])
    next
      case False then show ?thesis using Cons Pop by simp
    qed
  qed
qed

end

section \<open>Ring arithmetic\<close>

definition ring_items :: "'a list \<Rightarrow> nat \<Rightarrow> nat \<Rightarrow> 'a list" where
  "ring_items b h n = map (\<lambda>i. b ! ((h + i) mod length b)) [0..<n]"

lemma length_ring_items [simp]: "length (ring_items b h n) = n"
  by (simp add: ring_items_def)

lemma ring_slot_neq:
  assumes "i < j" "j < N" shows "(h + i) mod N \<noteq> (h + j) mod (N :: nat)"
proof
  assume "(h + i) mod N = (h + j) mod N"
  then have "N dvd (h + j) - (h + i)" by (metis mod_eq_dvd_iff_nat add_le_cancel_left assms(1) less_imp_le)
  then show False using assms by (auto dest: dvd_imp_le)
qed

lemma ring_items_push:
  assumes "n < length b"
  shows "ring_items (b[(h + n) mod length b := x]) h (n + 1) = ring_items b h n @ [x]"
proof -
  have "b[(h + n) mod length b := x] ! ((h + i) mod length b) = b ! ((h + i) mod length b)" if "i < n" for i
    using ring_slot_neq [OF that assms, of h] by simp
  moreover have "(h + n) mod length b < length b" using assms by (intro mod_less_divisor) linarith
  ultimately show ?thesis by (simp add: ring_items_def)
qed

lemma ring_items_pop:
  assumes "0 < n" "n \<le> length b" "h < length b"
  shows "ring_items b h n = b ! h # ring_items (b[h := x]) ((h + 1) mod length b) (n - 1)"
proof -
  have n: "[0..<n] = 0 # map Suc [0..<n - 1]" using assms(1) by (cases n) (simp_all add: map_Suc_upt upt_conv_Cons)
  have "b ! ((h + Suc i) mod length b) = b[h := x] ! (((h + 1) mod length b + i) mod length b)"
    if "i < n - 1" for i
  proof -
    have "(h + Suc i) mod length b \<noteq> h"
    proof -
      have "Suc i < length b" using that assms by linarith
      then show ?thesis using ring_slot_neq [of 0 "Suc i" "length b" h] assms by auto
    qed
    then show ?thesis by (simp add: mod_add_left_eq)
  qed
  then show ?thesis using assms by (simp add: ring_items_def n)
qed

lemma ring_mask: "and x (2 ^ k - 1) = x mod 2 ^ k" for x :: nat
  by (simp add: take_bit_eq_mod [symmetric] take_bit_eq_mask mask_eq_exp_minus_1)

section \<open>The rings are queues\<close>

definition segRing_ok :: "segRing \<Rightarrow> bool" where
  "segRing_ok r \<longleftrightarrow> (sr_s r = [] \<and> sr_n r = 0) \<or>
     (\<exists>k. length (sr_s r) = 2 ^ k) \<and> sr_head r < length (sr_s r) \<and> sr_n r \<le> length (sr_s r)"

definition segRing_list :: "segRing \<Rightarrow> seg list" where
  "segRing_list r = map (segRing_at r) [0..<sr_n r]"

definition segRing_setBack :: "segRing \<Rightarrow> seg \<Rightarrow> segRing" where
  "segRing_setBack r sg = r\<lparr>sr_s := (sr_s r)[sr_idx r (sr_n r - 1) := sg]\<rparr>"

definition chunkRing_ok :: "'a chunkRing \<Rightarrow> bool" where
  "chunkRing_ok r = (cr_head r < length (cr_b r) \<and> cr_n r \<le> length (cr_b r))"

definition chunkRing_list :: "'a chunkRing \<Rightarrow> 'a option list" where
  "chunkRing_list r = map (chunkRing_at r) [0..<cr_n r]"

lemma sr_idx_mod: "length (sr_s r) = 2 ^ k \<Longrightarrow> sr_idx r i = (sr_head r + i) mod length (sr_s r)"
  by (simp only: sr_idx_def ring_mask)

lemma segRing_list_items:
  "segRing_ok r \<Longrightarrow> segRing_list r = ring_items (sr_s r) (sr_head r) (sr_n r)"
  by (auto simp: segRing_ok_def segRing_list_def segRing_at_def ring_items_def sr_idx_mod)

lemma segRing_grow:
  assumes "segRing_ok r" "sr_n r = length (sr_s r)"
  defines "r' \<equiv> r\<lparr>sr_s := map (segRing_at r) [0..<sr_n r] @
    replicate (max 8 (2 * length (sr_s r)) - sr_n r) seg_zero, sr_head := 0\<rparr>"
  shows "(\<exists>k. length (sr_s r') = 2 ^ k) \<and> sr_n r' < length (sr_s r') \<and>
    ring_items (sr_s r') (sr_head r') (sr_n r') = segRing_list r"
proof -
  have len: "length (sr_s r') = max 8 (2 * length (sr_s r))" using assms(2) by (simp add: r'_def)
  have "\<exists>k. max 8 (2 * length (sr_s r)) = (2 :: nat) ^ k"
  proof (cases "length (sr_s r) < 4")
    case True then show ?thesis by (intro exI [of _ 3]) simp
  next
    case False
    then obtain k where "length (sr_s r) = 2 ^ k" using assms(1) by (auto simp: segRing_ok_def)
    then show ?thesis using False by (intro exI [of _ "Suc k"]) simp
  qed
  moreover have lt: "sr_n r' < length (sr_s r')" using len assms(2) by (cases "sr_s r") (auto simp: r'_def)
  moreover have "ring_items (sr_s r') (sr_head r') (sr_n r') = segRing_list r"
    using lt by (auto simp: ring_items_def segRing_list_def r'_def nth_append intro!: nth_equalityI)
  ultimately show ?thesis using len by simp
qed

lemma segRing_push_ok:
  assumes "segRing_ok r"
  shows "segRing_ok (segRing_push r sg) \<and> segRing_list (segRing_push r sg) = segRing_list r @ [sg]"
proof -
  define r1 where "r1 = (if sr_n r = length (sr_s r)
               then r\<lparr>sr_s := map (segRing_at r) [0..<sr_n r] @
                              replicate (max 8 (2 * length (sr_s r)) - sr_n r) seg_zero,
                      sr_head := 0\<rparr> else r)"
  have r1: "(\<exists>k. length (sr_s r1) = 2 ^ k) \<and> sr_head r1 < length (sr_s r1) \<and> sr_n r1 < length (sr_s r1) \<and>
      ring_items (sr_s r1) (sr_head r1) (sr_n r1) = segRing_list r"
  proof (cases "sr_n r = length (sr_s r)")
    case True then show ?thesis using segRing_grow [OF assms True] by (auto simp: r1_def)
  next
    case False then show ?thesis using assms segRing_list_items [OF assms] by (auto simp: r1_def segRing_ok_def)
  qed
  then obtain k where k: "length (sr_s r1) = 2 ^ k" by blast
  have push: "segRing_push r sg = r1\<lparr>sr_s := (sr_s r1)[sr_idx r1 (sr_n r1) := sg], sr_n := sr_n r1 + 1\<rparr>"
    by (simp add: segRing_push_def r1_def Let_def)
  have ok: "segRing_ok (segRing_push r sg)" using r1 by (auto simp: push segRing_ok_def)
  then show ?thesis
    using r1 ring_items_push [of "sr_n r1" "sr_s r1" "sr_head r1" sg]
    by (simp add: segRing_list_items push sr_idx_mod [OF k])
qed

lemma segRing_pop_ok:
  assumes "segRing_ok r" "0 < sr_n r"
  shows "segRing_ok (snd (segRing_popFront r)) \<and>
    segRing_list r = fst (segRing_popFront r) # segRing_list (snd (segRing_popFront r))"
proof -
  obtain k where k: "length (sr_s r) = 2 ^ k" and h: "sr_head r < length (sr_s r)" "sr_n r \<le> length (sr_s r)"
    using assms by (auto simp: segRing_ok_def)
  have m: "and (sr_head r + 1) (length (sr_s r) - 1) = (sr_head r + 1) mod length (sr_s r)"
    by (simp only: k ring_mask)
  have pop: "segRing_popFront r = (sr_s r ! sr_head r,
      r\<lparr>sr_s := (sr_s r)[sr_head r := seg_zero], sr_head := (sr_head r + 1) mod length (sr_s r), sr_n := sr_n r - 1\<rparr>)"
    by (simp only: segRing_popFront_def m)
  have "0 < length (sr_s r)" using h by linarith
  then have ok: "segRing_ok (snd (segRing_popFront r))" using k h by (auto simp: pop segRing_ok_def)
  then show ?thesis
    using ring_items_pop [OF assms(2) h(2,1), of seg_zero]
    by (simp add: segRing_list_items assms pop)
qed

lemma segRing_back_last:
  assumes "segRing_ok r" "0 < sr_n r"
  shows "segRing_back r = last (segRing_list r)"
  using assms by (simp add: segRing_back_def segRing_list_def last_map)

lemma segRing_setBack_ok:
  assumes "segRing_ok r" "0 < sr_n r"
  shows "segRing_ok (segRing_setBack r sg) \<and> segRing_list (segRing_setBack r sg) = butlast (segRing_list r) @ [sg]"
proof -
  obtain k where k: "length (sr_s r) = 2 ^ k" and h: "sr_n r \<le> length (sr_s r)"
    using assms by (auto simp: segRing_ok_def)
  obtain n where n: "sr_n r = n + 1" using assms(2) by (cases "sr_n r") auto
  have ok: "segRing_ok (segRing_setBack r sg)" using assms by (auto simp: segRing_setBack_def segRing_ok_def)
  have "butlast (segRing_list r) = ring_items (sr_s r) (sr_head r) n"
    by (simp add: segRing_list_items [OF assms(1)] ring_items_def n)
  then show ?thesis
    using ok ring_items_push [of n "sr_s r" "sr_head r" sg] h n
    by (simp add: segRing_list_items [OF ok]) (simp add: segRing_setBack_def sr_idx_mod [OF k])
qed

interpretation sq: fifo_queue segRing_ok segRing_list id "\<lambda>_. True" "\<lambda>r. 0 < sr_n r" segRing_push segRing_popFront
  by unfold_locales (use segRing_push_ok segRing_pop_ok in \<open>auto simp: segRing_list_def\<close>)

interpretation cq: fifo_queue chunkRing_ok chunkRing_list Some "\<lambda>r. \<not> chunkRing_full r" "\<lambda>r. 0 < cr_n r"
  chunkRing_push chunkRing_popFront
proof unfold_locales
  have items: "chunkRing_list r = ring_items (cr_b r) (cr_head r) (cr_n r)" for r :: "'a chunkRing"
    by (simp add: chunkRing_list_def ring_items_def chunkRing_at_def)
  fix q :: "'a chunkRing" and x :: 'a
  assume ok: "chunkRing_ok q"
  show "(0 < cr_n q) = (chunkRing_list q \<noteq> [])" by (simp add: chunkRing_list_def)
  show "chunkRing_ok (chunkRing_push q x)" if "\<not> chunkRing_full q"
    using ok that by (auto simp: chunkRing_ok_def chunkRing_full_def chunkRing_push_def)
  show "chunkRing_list (chunkRing_push q x) = chunkRing_list q @ [Some x]" if "\<not> chunkRing_full q"
    using ok that ring_items_push [of "cr_n q" "cr_b q" "cr_head q" "Some x"]
    by (simp add: items chunkRing_ok_def chunkRing_full_def chunkRing_push_def)
  assume n: "0 < cr_n q"
  show "chunkRing_ok (snd (chunkRing_popFront q))"
  proof -
    have "0 < length (cr_b q)" using ok unfolding chunkRing_ok_def by linarith
    then show ?thesis using ok by (auto simp: chunkRing_ok_def chunkRing_popFront_def)
  qed
  show "chunkRing_list q = fst (chunkRing_popFront q) # chunkRing_list (snd (chunkRing_popFront q))"
    using ok n ring_items_pop [of "cr_n q" "cr_b q" "cr_head q" None]
    by (simp add: items chunkRing_ok_def chunkRing_popFront_def)
qed

section \<open>Properties\<close>

text \<open>Claim C13: both rings are first-in first-out queues. After any sequence of pushes and pops, guarded as
  the callers guard them, the items popped followed by the items still held are the items held at first followed
  by the items pushed: nothing is lost, repeated or reordered, also when the receive ring doubles.\<close>

theorem rings_are_fifo:
  "(\<forall>r r' ops ins outs. segRing_ok r \<and>
      qrun (\<lambda>_. True) (\<lambda>r. 0 < sr_n r) segRing_push segRing_popFront ops r = (r', ins, outs) \<longrightarrow>
      segRing_ok r' \<and> outs @ segRing_list r' = segRing_list r @ ins) \<and>
   (\<forall>(c :: 'a chunkRing) c' ops ins outs. chunkRing_ok c \<and>
      qrun (\<lambda>c. \<not> chunkRing_full c) (\<lambda>c. 0 < cr_n c) chunkRing_push chunkRing_popFront ops c = (c', ins, outs) \<longrightarrow>
      chunkRing_ok c' \<and> outs @ chunkRing_list c' = chunkRing_list c @ map Some ins)"
  using sq.run_fifo cq.run_fifo by (metis list.map_id)

definition two_segs :: "seg list" where
  "two_segs = [\<lparr>seg_off = 0, seg_b = [1], seg_bcap = 8, seg_cap = 64, seg_run = True\<rparr>,
               \<lparr>seg_off = 1, seg_b = [2], seg_bcap = 8, seg_cap = 64, seg_run = True\<rparr>]"

theorem rings_are_fifo_witness:
  "let q = qrun (\<lambda>_. True) (\<lambda>r. 0 < sr_n r) segRing_push segRing_popFront
         [Push (two_segs ! 0), Push (two_segs ! 1), Pop] \<lparr>sr_s = [], sr_head = 0, sr_n = 0\<rparr>
   in snd (snd q) = [two_segs ! 0] \<and> length (sr_s (fst q)) = 8 \<and>
      snd (snd q) @ segRing_list (fst q) = segRing_list \<lparr>sr_s = [], sr_head = 0, sr_n = 0\<rparr> @ fst (snd q)"
proof -
  define q where "q = qrun (\<lambda>_. True) (\<lambda>r. 0 < sr_n r) segRing_push segRing_popFront
         [Push (two_segs ! 0), Push (two_segs ! 1), Pop] \<lparr>sr_s = [], sr_head = 0, sr_n = 0\<rparr>"
  have ok: "segRing_ok \<lparr>sr_s = [], sr_head = 0, sr_n = 0\<rparr>" by (simp add: segRing_ok_def)
  have run: "qrun (\<lambda>_. True) (\<lambda>r. 0 < sr_n r) segRing_push segRing_popFront
      [Push (two_segs ! 0), Push (two_segs ! 1), Pop] \<lparr>sr_s = [], sr_head = 0, sr_n = 0\<rparr> =
      (fst q, fst (snd q), snd (snd q))"
    by (simp only: q_def prod.collapse)
  have "snd (snd q) = [two_segs ! 0]" "length (sr_s (fst q)) = 8" unfolding q_def by code_simp+
  moreover have "snd (snd q) @ segRing_list (fst q) = segRing_list \<lparr>sr_s = [], sr_head = 0, sr_n = 0\<rparr> @ fst (snd q)"
    using rings_are_fifo [where ?'a = nat, THEN conjunct1, rule_format, OF conjI [OF ok run]] by blast
  ultimately show ?thesis unfolding q_def [symmetric] Let_def by blast
qed

end
