(* ===== verification/Sess_Segs.thy ===== *)
theory Sess_Segs
  imports Sess_Rings
begin

text \<open>
  Lists of received segments, from \<open>internal/session/stream.go\<close> and \<open>recv.go\<close>: room and growth of a segment, the
  comparison of a frame with held bytes in the in-order queue and in the out-of-order list, and the list
  operations. The lemmas turn the comparisons into statements about single stream offsets. Offsets are natural
  numbers; \<open>Sess_Recv\<close> checks the 64-bit end of a frame where it is computed and shows that every held
  offset stays below it.
\<close>

section \<open>One segment\<close>

definition runSize :: nat where [simp]: "runSize = 16 * 1024"
definition ClassSlack :: nat where [simp]: "ClassSlack = 64"
definition runCap :: int where [simp]: "runCap = int (runSize + ClassSlack)"
definition copyBudget :: nat where [simp]: "copyBudget = runSize - 1"

definition seg_end :: "seg \<Rightarrow> nat" where
  "seg_end sg = seg_off sg + length (seg_b sg)"

definition segCap :: "seg \<Rightarrow> int" where [simp]: "segCap sg = seg_cap sg"

definition segRoom :: "seg \<Rightarrow> nat" where
  "segRoom sg = (if seg_run sg then runSize - length (seg_b sg) else seg_bcap sg - length (seg_b sg))"

definition growSeg :: "seg \<Rightarrow> byte list \<Rightarrow> seg \<times> nat" where
  "growSeg t q = (let m = min (segRoom t) (length q) in (t\<lparr>seg_b := seg_b t @ take m q\<rparr>, m))"

section \<open>Comparison with held bytes\<close>

primrec segRing_equal :: "seg list \<Rightarrow> nat \<Rightarrow> byte list \<Rightarrow> bool" where
  "segRing_equal [] a q = True"
| "segRing_equal (sg # l) a q =
     (if q = [] then True
      else if seg_end sg \<le> a then segRing_equal l a q
      else
       let h = drop (a - seg_off sg) (seg_b sg); m = min (length h) (length q)
       in if take m h \<noteq> take m q then False else segRing_equal l (a + m) (drop m q))"

definition segList_after :: "nat \<Rightarrow> seg list \<Rightarrow> nat" where
  "segList_after x s = bsearch (\<lambda>m. seg_end (s ! m) \<le> x) 0 (length s)"

definition segList_equal :: "seg list \<Rightarrow> nat \<Rightarrow> byte list \<Rightarrow> bool" where
  "segList_equal l off p =
     (let e = off + length p
      in list_all
           (\<lambda>sg. let a = max off (seg_off sg); b = min e (seg_end sg)
                 in bslice (seg_b sg) (a - seg_off sg) (b - seg_off sg) = bslice p (a - off) (b - off))
           (takeWhile (\<lambda>sg. seg_off sg < e) (drop (segList_after off l) l)))"

definition segList_insert :: "nat \<Rightarrow> seg \<Rightarrow> seg list \<Rightarrow> seg list" where
  "segList_insert i sg l = take i l @ sg # drop i l"

definition segList_removeFront :: "nat \<Rightarrow> seg list \<Rightarrow> seg list" where
  "segList_removeFront k l = drop k l"

definition segList_cut :: "nat \<Rightarrow> nat \<Rightarrow> seg list \<Rightarrow> seg list" where
  "segList_cut i j l = (if i \<ge> j then l else take i l @ drop j l)"

definition segList_bytes :: "seg list \<Rightarrow> nat" where
  "segList_bytes l = sum_list (map (\<lambda>sg. length (seg_b sg)) l)"

section \<open>Ascending and contiguous segments\<close>

text \<open>Segments from \<open>lo\<close> on that are not empty and do not overlap.\<close>

primrec asc :: "nat \<Rightarrow> seg list \<Rightarrow> bool" where
  "asc lo [] = True"
| "asc lo (sg # l) = (lo \<le> seg_off sg \<and> seg_b sg \<noteq> [] \<and> asc (seg_end sg) l)"

text \<open>Segments that cover \<open>[a, b)\<close> without a gap.\<close>

primrec contig :: "nat \<Rightarrow> seg list \<Rightarrow> nat \<Rightarrow> bool" where
  "contig a [] b = (a = b)"
| "contig a (sg # l) b = (seg_off sg = a \<and> seg_b sg \<noteq> [] \<and> contig (seg_end sg) l b)"

text \<open>A segment agrees with a partial assignment of bytes to offsets.\<close>

definition fits :: "(nat \<Rightarrow> byte option) \<Rightarrow> seg \<Rightarrow> bool" where
  "fits M sg = (\<forall>k < length (seg_b sg). M (seg_off sg + k) = Some (seg_b sg ! k))"

definition covers :: "seg \<Rightarrow> nat set" where
  "covers sg = {seg_off sg ..< seg_end sg}"

definition held :: "seg list \<Rightarrow> nat set" where
  "held l = (\<Union>sg \<in> set l. covers sg)"

lemma held_simps [simp]:
  "held [] = {}" "held (sg # l) = covers sg \<union> held l" "held (xs @ ys) = held xs \<union> held ys"
  by (auto simp: held_def)

lemma fits_at: "fits M sg \<Longrightarrow> seg_off sg \<le> x \<Longrightarrow> x < seg_end sg \<Longrightarrow> M x = Some (seg_b sg ! (x - seg_off sg))"
  unfolding fits_def seg_end_def by (drule spec [of _ "x - seg_off sg"]) simp

lemma asc_mono: "asc lo l \<Longrightarrow> lo' \<le> lo \<Longrightarrow> asc lo' l"
  by (cases l) auto

lemma asc_bounds: "asc lo l \<Longrightarrow> sg \<in> set l \<Longrightarrow> lo \<le> seg_off sg \<and> seg_off sg < seg_end sg"
proof (induction l arbitrary: lo)
  case (Cons a l)
  show ?case
  proof (cases "sg = a")
    case True then show ?thesis using Cons.prems by (simp add: seg_end_def)
  next
    case False
    then have "seg_end a \<le> seg_off sg \<and> seg_off sg < seg_end sg"
      using Cons.IH [of "seg_end a"] Cons.prems by simp
    then show ?thesis using Cons.prems by (simp add: seg_end_def)
  qed
qed simp

lemma asc_append: "asc lo (xs @ ys) \<longleftrightarrow> asc lo xs \<and> asc (if xs = [] then lo else seg_end (last xs)) ys"
  by (induction xs arbitrary: lo) auto

lemma asc_sorted: "asc lo l \<Longrightarrow> i < j \<Longrightarrow> j < length l \<Longrightarrow> seg_end (l ! i) \<le> seg_off (l ! j)"
proof (induction l arbitrary: lo i j)
  case (Cons a l)
  then obtain k where k: "j = Suc k" by (cases j) auto
  show ?case
  proof (cases i)
    case 0
    then show ?thesis using Cons.prems k asc_bounds [of "seg_end a" l "l ! k"] by simp
  next
    case (Suc n)
    then show ?thesis using Cons.IH [of "seg_end a" n k] Cons.prems k by simp
  qed
qed simp

lemma asc_end_mono: "asc lo l \<Longrightarrow> i \<le> j \<Longrightarrow> j < length l \<Longrightarrow> seg_end (l ! i) \<le> seg_end (l ! j)"
  using asc_sorted [of lo l i j] asc_bounds [of lo l "l ! j"] by (cases "i = j") auto

lemma asc_off_mono: "asc lo l \<Longrightarrow> i \<le> j \<Longrightarrow> j < length l \<Longrightarrow> seg_off (l ! i) \<le> seg_off (l ! j)"
  using asc_sorted [of lo l i j] asc_bounds [of lo l "l ! i"] by (cases "i = j") auto

lemma contig_asc: "contig a l b \<Longrightarrow> asc a l \<and> a \<le> b"
  by (induction l arbitrary: a) (fastforce simp: seg_end_def)+

lemma contig_snoc: "contig a (xs @ [sg]) c \<longleftrightarrow> contig a xs (seg_off sg) \<and> seg_b sg \<noteq> [] \<and> c = seg_end sg"
  by (induction xs arbitrary: a) auto

lemma contig_held: "contig a l b \<Longrightarrow> held l = {a ..< b}"
proof (induction l arbitrary: a)
  case (Cons sg l)
  then have "seg_end sg \<le> b" using contig_asc [of "seg_end sg" l b] by simp
  then show ?case using Cons by (auto simp: covers_def seg_end_def)
qed simp

lemma contig_last: "contig a l b \<Longrightarrow> l \<noteq> [] \<Longrightarrow> seg_end (last l) = b"
  by (induction l arbitrary: a) auto

section \<open>Search and comparison\<close>

lemma after_spec:
  assumes "asc lo l"
  shows "segList_after x l \<le> length l \<and> (\<forall>i < segList_after x l. seg_end (l ! i) \<le> x) \<and>
    (segList_after x l < length l \<longrightarrow> x < seg_end (l ! segList_after x l))"
proof -
  have "segList_after x l \<le> length l \<and> (\<forall>i < segList_after x l. seg_end (l ! i) \<le> x) \<and>
      (segList_after x l < length l \<longrightarrow> \<not> seg_end (l ! segList_after x l) \<le> x)"
    unfolding segList_after_def by (rule bsearch_spec) (auto dest: asc_end_mono [OF assms])
  then show ?thesis by auto
qed

lemma in_set_drop_nth: "x \<in> set (drop n l) \<longleftrightarrow> (\<exists>i. n \<le> i \<and> i < length l \<and> l ! i = x)"
proof
  assume "x \<in> set (drop n l)"
  then obtain j where "j < length l - n" "drop n l ! j = x" by (auto simp: in_set_conv_nth)
  then show "\<exists>i. n \<le> i \<and> i < length l \<and> l ! i = x" by (intro exI [of _ "n + j"]) auto
next
  assume "\<exists>i. n \<le> i \<and> i < length l \<and> l ! i = x"
  then obtain i where "n \<le> i" "i < length l" "l ! i = x" by blast
  then show "x \<in> set (drop n l)" by (auto simp: in_set_conv_nth intro!: exI [of _ "i - n"])
qed

lemma in_after:
  assumes "asc lo l" "sg \<in> set l" "x < seg_end sg"
  shows "sg \<in> set (drop (segList_after x l) l)"
proof -
  obtain i where i: "i < length l" "l ! i = sg" using assms(2) by (auto simp: in_set_conv_nth)
  then have "segList_after x l \<le> i" using after_spec [OF assms(1), of x] assms(3) by (meson leD leI)
  then show ?thesis using i by (auto simp: in_set_drop_nth)
qed

lemma in_takeWhile_asc:
  "asc lo l \<Longrightarrow> sg \<in> set l \<Longrightarrow> seg_off sg < e \<Longrightarrow> sg \<in> set (takeWhile (\<lambda>sg. seg_off sg < e) l)"
proof (induction l arbitrary: lo)
  case (Cons a l)
  have "seg_off a \<le> seg_off sg"
    using Cons.prems asc_bounds [of "seg_end a" l sg] by (auto simp: seg_end_def)
  then show ?case using Cons by auto
qed simp

lemma asc_drop: "asc lo l \<Longrightarrow> asc lo (drop i l)"
proof (induction l arbitrary: lo i)
  case (Cons a l)
  have "lo \<le> seg_end a" using Cons.prems by (simp add: seg_end_def)
  then have "asc lo l" using Cons.prems asc_mono [of "seg_end a" l lo] by simp
  then show ?case using Cons by (cases i) auto
qed simp

lemma segList_equal_fits:
  assumes "asc lo l" "segList_equal l off p" "sg \<in> set l"
    and x: "off \<le> x" "x < off + length p" "seg_off sg \<le> x" "x < seg_end sg"
  shows "seg_b sg ! (x - seg_off sg) = p ! (x - off)"
proof -
  define a where "a = max off (seg_off sg)"
  define b where "b = min (off + length p) (seg_end sg)"
  have "sg \<in> set (takeWhile (\<lambda>sg. seg_off sg < off + length p) (drop (segList_after off l) l))"
    using assms in_takeWhile_asc [OF asc_drop [OF assms(1)]] in_after [OF assms(1,3)] by auto
  then have eq: "bslice (seg_b sg) (a - seg_off sg) (b - seg_off sg) = bslice p (a - off) (b - off)"
    using assms(2) by (auto simp: segList_equal_def list_all_iff Let_def a_def b_def)
  have "bslice (seg_b sg) (a - seg_off sg) (b - seg_off sg) ! (x - a) = seg_b sg ! (x - seg_off sg)"
    using x by (subst nth_bslice) (auto simp: a_def b_def seg_end_def)
  moreover have "bslice p (a - off) (b - off) ! (x - a) = p ! (x - off)"
    using x by (subst nth_bslice) (auto simp: a_def b_def)
  ultimately show ?thesis using eq by simp
qed

text \<open>A frame whose bytes agree with an assignment that the held bytes agree with passes the comparison.\<close>

lemma segList_equal_intro:
  assumes asc: "asc lo l" and fit: "\<And>sg. sg \<in> set l \<Longrightarrow> fits M sg"
    and p: "\<And>k. k < length p \<Longrightarrow> off + k \<in> held l \<Longrightarrow> M (off + k) = Some (p ! k)"
  shows "segList_equal l off p"
proof -
  have same: "bslice (seg_b sg) (max off (seg_off sg) - seg_off sg) (min (off + length p) (seg_end sg) - seg_off sg) =
      bslice p (max off (seg_off sg) - off) (min (off + length p) (seg_end sg) - off)"
    if sg: "sg \<in> set l" "off < seg_end sg" "seg_off sg < off + length p" for sg
  proof -
    define a where "a = max off (seg_off sg)"
    define b where "b = min (off + length p) (seg_end sg)"
    have ab: "a \<le> b" "seg_off sg \<le> a" "off \<le> a" "b - seg_off sg \<le> length (seg_b sg)" "b - off \<le> length p"
      using sg asc_bounds [OF asc sg(1)] by (auto simp: a_def b_def seg_end_def)
    have "seg_b sg ! (a - seg_off sg + k) = p ! (a - off + k)" if k: "k < b - a" for k
    proof -
      have "a + k \<in> held l"
        using sg(1) ab k by (auto simp: held_def covers_def b_def intro!: bexI [of _ sg])
      then have "M (a + k) = Some (p ! (a - off + k))" using p [of "a - off + k"] ab k by simp
      moreover have "M (a + k) = Some (seg_b sg ! (a - seg_off sg + k))"
        using fits_at [OF fit [OF sg(1)], of "a + k"] ab k by (simp add: b_def)
      ultimately show ?thesis by simp
    qed
    then show ?thesis using ab unfolding a_def [symmetric] b_def [symmetric]
      by (intro nth_equalityI) (auto simp: nth_bslice bslice_def)
  qed
  have far: "off < seg_end sg" if dr: "sg \<in> set (drop (segList_after off l) l)" for sg
  proof -
    obtain i where i: "segList_after off l \<le> i" "i < length l" "l ! i = sg"
      using dr by (auto simp: in_set_drop_nth)
    then show ?thesis using after_spec [OF asc, of off] asc_end_mono [OF asc i(1,2)] by auto
  qed
  show ?thesis
    unfolding segList_equal_def list_all_iff Let_def
  proof
    fix sg assume "sg \<in> set (takeWhile (\<lambda>sg. seg_off sg < off + length p) (drop (segList_after off l) l))"
    then have sg: "sg \<in> set (drop (segList_after off l) l)" "seg_off sg < off + length p"
      by (auto dest: set_takeWhileD)
    show "bslice (seg_b sg) (max off (seg_off sg) - seg_off sg) (min (off + length p) (seg_end sg) - seg_off sg) =
      bslice p (max off (seg_off sg) - off) (min (off + length p) (seg_end sg) - off)"
      by (rule same [OF in_set_dropD [OF sg(1)] far [OF sg(1)] sg(2)])
  qed
qed

text \<open>The in-order comparison over a range that the queue covers is equality of every byte.\<close>

lemma segRing_equal_iff:
  assumes "contig a l b" "\<And>sg. sg \<in> set l \<Longrightarrow> fits M sg" "a \<le> x" "x + length q \<le> b"
  shows "segRing_equal l x q \<longleftrightarrow> (\<forall>k < length q. M (x + k) = Some (q ! k))"
  using assms
proof (induction l arbitrary: a x q)
  case Nil then show ?case by simp
next
  case (Cons sg l)
  define h where "h = drop (x - seg_off sg) (seg_b sg)"
  define m where "m = min (length h) (length q)"
  have sg: "seg_off sg = a" "contig (seg_end sg) l b" "fits M sg" using Cons.prems(1,2) by auto
  show ?case
  proof (cases "q = [] \<or> seg_end sg \<le> x")
    case True
    then show ?thesis using Cons.IH [of "seg_end sg" x q] Cons.prems(2-4) sg by (cases "q = []") auto
  next
    case False
    have hm: "length h = seg_end sg - x" using Cons.prems(3) sg by (simp add: h_def seg_end_def)
    have hk: "M (x + k) = Some (h ! k)" if "k < length h" for k
      using fits_at [OF sg(3), of "x + k"] that hm Cons.prems(3) sg(1) by (simp add: h_def seg_end_def)
    have first: "take m h = take m q \<longleftrightarrow> (\<forall>k < m. M (x + k) = Some (q ! k))"
      using hk by (auto simp: list_eq_iff_nth_eq m_def)
    have rest: "segRing_equal l (x + m) (drop m q) \<longleftrightarrow> (\<forall>k < length q - m. M (x + m + k) = Some (q ! (m + k)))"
      if "take m h = take m q"
    proof (cases "m = length q")
      case True then show ?thesis by (cases l) auto
    next
      case mq: False
      then have xm: "x + m = seg_end sg" using hm False by (auto simp: m_def)
      have "segRing_equal l (x + m) (drop m q) \<longleftrightarrow>
          (\<forall>k < length (drop m q). M (x + m + k) = Some (drop m q ! k))"
      proof (rule Cons.IH)
        show "contig (seg_end sg) l b" by (rule sg(2))
        show "x + m + length (drop m q) \<le> b" using Cons.prems(4) by (simp add: m_def)
      qed (use False that xm Cons.prems(2) in auto)
      then show ?thesis by (simp add: m_def)
    qed
    have "(\<forall>k < length q. M (x + k) = Some (q ! k)) \<longleftrightarrow>
        (\<forall>k < m. M (x + k) = Some (q ! k)) \<and> (\<forall>k < length q - m. M (x + m + k) = Some (q ! (m + k)))"
      (is "?l \<longleftrightarrow> ?r")
    proof
      assume ?l then show ?r by (auto simp: m_def add.assoc)
    next
      assume r: ?r
      show ?l
      proof (intro allI impI)
        fix k assume k: "k < length q"
        show "M (x + k) = Some (q ! k)"
        proof (cases "k < m")
          case True then show ?thesis using r by simp
        next
          case km: False
          then show ?thesis using conjunct2 [OF r, rule_format, of "k - m"] k by simp
        qed
      qed
    qed
    then show ?thesis using False first rest by (simp add: h_def [symmetric] m_def [symmetric] Let_def)
  qed
qed

end
