(* ===== verification/Sess_Recv.thy ===== *)
theory Sess_Recv
  imports Sess_Segs Go_Num Wire_Frame
begin

text \<open>
  The receive path of a stream session: \<open>internal/session/recv.go\<close>, \<open>early_recv.go\<close>, the receive half of
  \<open>fin.go\<close> and the ACK bump and cadence of \<open>ack.go\<close>. The state is the receive side of \<open>stream\<close>
  (\<open>state.go\<close>); what the code does to other goroutines (wake the lanes that owe an ACK, ring the actor,
  signal a waiting \<open>Read\<close>) is the list of effects \<open>r_out\<close>, newest last. The in-order queue is the list its
  ring holds (\<open>Sess_Rings\<close>). Buffers are represented by the bytes of their segment and their capacities.
\<close>

section \<open>State\<close>

datatype verr = errDataBeforeOpen | errDataLength | errWindow | errDataBeyondFin | errConflict
  | errRaceMismatch | errFinConflict | errFinBelowData | errFinBeyondWindow

text \<open>What reaches other goroutines: the lanes that owe the session's ACK are woken, the actor is rung, the
  cap-1 wake channel of the reader is signalled.\<close>

datatype reff = WakeAckLanes | RingActor | SignalReader

definition factClose :: u32 where [simp]: "factClose = 1"
definition factPeerFinDelivered :: u32 where [simp]: "factPeerFinDelivered = 8"
definition factDiscardedAfterClose :: u32 where [simp]: "factDiscardedAfterClose = 512"
definition EarlyWindow :: nat where [simp]: "EarlyWindow = 65536"
definition earlyRecvLimit :: int where [simp]: "earlyRecvLimit = 2 * int EarlyWindow"

record rcv =
  rRead :: nat
  rTail :: nat
  rightEdge :: nat
  inq :: "seg list"
  ooq :: "seg list"
  oooCap :: int
  oooDropped :: nat
  peerFin :: nat
  peerFinSet :: bool
  peerFinDelivered :: bool
  discard :: bool
  discardedAfterClose :: bool
  rcopying :: bool
  rfreePending :: bool
  ackGen :: u64
  ackOwedSince :: go_time
  ackBumped :: nat
  ackFlags :: u8
  ackDelayAt :: go_time
  ackOnData :: bool
  rwaiting :: bool
  closed :: bool
  ended :: bool
  facts :: u32
  earlyBytes :: nat
  rxBytes :: nat
  delivered :: nat
  dupBytes :: nat
  r_out :: "reff list"

text \<open>What the path reads of the session around it: the mode, the pending state, the parameters and the clock.\<close>

record renv =
  e_race :: bool
  e_pending :: bool
  e_window :: int
  e_ackEvery :: nat
  e_ackDelay :: duration
  e_firstOffset :: nat
  e_now :: go_time

text \<open>The copy state of one call.\<close>

record rcall =
  left :: int
  copied :: nat

definition conflictErr :: "renv \<Rightarrow> verr" where
  "conflictErr e = (if e_race e then errRaceMismatch else errConflict)"

definition recvLimit :: "renv \<Rightarrow> int" where
  "recvLimit e = (if e_pending e then earlyRecvLimit else 2 * e_window e)"

definition emit :: "reff \<Rightarrow> rcv \<Rightarrow> rcv" where
  "emit x r = r\<lparr>r_out := r_out r @ [x]\<rparr>"

section \<open>Acknowledgements and FIN\<close>

definition bumpNow :: "renv \<Rightarrow> rcv \<Rightarrow> rcv" where
  "bumpNow e r =
     (let r = r\<lparr>ackGen := ackGen r + 1\<rparr>;
          r = (if IsZero (ackOwedSince r) then r\<lparr>ackOwedSince := e_now e\<rparr> else r)
      in emit WakeAckLanes (r\<lparr>ackBumped := rRead r, ackDelayAt := 0\<rparr>))"

definition ackCadence :: "renv \<Rightarrow> rcv \<Rightarrow> rcv" where
  "ackCadence e r =
     (if rRead r - ackBumped r \<ge> e_ackEvery e then bumpNow e r
      else if rRead r > ackBumped r \<and> IsZero (ackDelayAt r)
      then emit WakeAckLanes (r\<lparr>ackDelayAt := e_now e + e_ackDelay e\<rparr>)
      else r)"

definition peerFinCheck :: "renv \<Rightarrow> rcv \<Rightarrow> rcv" where
  "peerFinCheck e r =
     (if \<not> peerFinSet r \<or> peerFinDelivered r \<or> rRead r \<noteq> peerFin r then r
      else
       let r = r\<lparr>peerFinDelivered := True, ackFlags := or (ackFlags r) FlagAckFinDelivered\<rparr>;
           r = bumpNow e r;
           r = emit RingActor (r\<lparr>facts := or (facts r) factPeerFinDelivered\<rparr>)
       in if rwaiting r then emit SignalReader r else r)"

definition highest :: "rcv \<Rightarrow> nat" where
  "highest r = (if ooq r \<noteq> [] then seg_end (last (ooq r)) else rTail r)"

definition finLocked :: "renv \<Rightarrow> nat \<Rightarrow> rcv \<Rightarrow> verr + rcv" where
  "finLocked e off r =
     (if peerFinSet r
      then if off \<noteq> peerFin r then Inl errFinConflict
           else Inr (if peerFinDelivered r then bumpNow e r else r)
      else if off < highest r then Inl errFinBelowData
      else if off > rightEdge r then Inl errFinBeyondWindow
      else Inr (peerFinCheck e (r\<lparr>peerFin := off, peerFinSet := True\<rparr>)))"

definition raceDup :: "renv \<Rightarrow> nat \<Rightarrow> bool \<Rightarrow> rcv \<Rightarrow> rcv" where
  "raceDup e n whole r =
     (let r = r\<lparr>dupBytes := dupBytes r + n\<rparr> in if whole \<and> \<not> e_race e then bumpNow e r else r)"

section \<open>Releasing\<close>

primrec releaseFront :: "seg list \<Rightarrow> rcv \<Rightarrow> rcv" where
  "releaseFront [] r = r\<lparr>inq := []\<rparr>"
| "releaseFront (sg # l) r =
     (if seg_end sg \<le> rRead r then releaseFront l (r\<lparr>oooCap := oooCap r - segCap sg\<rparr>)
      else r\<lparr>inq := sg # l\<rparr>)"

definition releaseConsumed :: "rcv \<Rightarrow> rcv" where
  "releaseConsumed r = releaseFront (inq r) r"

definition releaseOOORange :: "nat \<Rightarrow> nat \<Rightarrow> rcv \<Rightarrow> rcv" where
  "releaseOOORange a b r =
     r\<lparr>oooCap := oooCap r - sum_list (map segCap (bslice (ooq r) a b)), ooq := segList_cut a b (ooq r)\<rparr>"

definition releaseOOO :: "rcv \<Rightarrow> rcv" where
  "releaseOOO r = releaseOOORange 0 (length (ooq r)) r"

definition releaseRecv :: "rcv \<Rightarrow> rcv" where
  "releaseRecv r =
     (let r = r\<lparr>oooCap := oooCap r - sum_list (map segCap (inq r)), inq := []\<rparr>;
          r = releaseOOO r
      in r\<lparr>rTail := rRead r\<rparr>)"

definition consumeAll :: "renv \<Rightarrow> rcv \<Rightarrow> nat \<times> rcv" where
  "consumeAll e r =
     (let d = rTail r - rRead r
      in if d = 0 then (0, r)
         else
          let r = r\<lparr>rRead := rTail r, delivered := delivered r + d\<rparr>;
              r = (if rcopying r then r\<lparr>rfreePending := True\<rparr> else releaseConsumed r)
          in (d, peerFinCheck e (ackCadence e r)))"

primrec shed_loop :: "int \<Rightarrow> nat \<Rightarrow> rcv \<Rightarrow> rcv" where
  "shed_loop limit 0 r = r"
| "shed_loop limit (Suc n) r =
     (if oooCap r > limit
      then let sg = ooq r ! n
           in shed_loop limit n (r\<lparr>oooCap := oooCap r - segCap sg,
                oooDropped := oooDropped r + length (seg_b sg), ooq := take n (ooq r)\<rparr>)
      else r)"

definition shed :: "renv \<Rightarrow> rcv \<Rightarrow> rcv" where
  "shed e r = shed_loop (recvLimit e) (length (ooq r)) r"

section \<open>Merging\<close>

primrec promote_loop :: "seg list \<Rightarrow> rcall \<times> rcv \<Rightarrow> rcall \<times> rcv" where
  "promote_loop [] = (\<lambda>(c, r). (c, r\<lparr>ooq := []\<rparr>))"
| "promote_loop (sg # l) = (\<lambda>(c, r).
     if seg_off sg = rTail r
     then
      let n = length (seg_b sg); t = last (inq r);
          (c, r) =
            (if n \<le> segRoom t \<and> int n \<le> left c
             then (c\<lparr>left := left c - int n, copied := copied c + n\<rparr>,
                   r\<lparr>inq := butlast (inq r) @ [fst (growSeg t (seg_b sg))], oooCap := oooCap r - segCap sg\<rparr>)
             else (c, r\<lparr>inq := inq r @ [sg]\<rparr>))
      in promote_loop l (c, r\<lparr>rTail := rTail r + n, rxBytes := rxBytes r + n\<rparr>)
     else (c, r\<lparr>ooq := sg # l\<rparr>))"

definition promote :: "rcall \<times> rcv \<Rightarrow> rcall \<times> rcv" where
  "promote cr = promote_loop (ooq (snd cr)) cr"

primrec merge_loop :: "seg list \<Rightarrow> seg \<Rightarrow> rcall \<Rightarrow> int \<Rightarrow> seg list \<times> rcall \<times> int" where
  "merge_loop [] t c charge = ([t], c, charge)"
| "merge_loop (sg # l) t c charge =
     (let n = length (seg_b sg)
      in if seg_off sg \<noteq> seg_end t \<or> n > segRoom t \<or> int n > left c then (t # sg # l, c, charge)
         else merge_loop l (fst (growSeg t (seg_b sg)))
                (c\<lparr>left := left c - int n, copied := copied c + n\<rparr>) (charge - segCap sg))"

definition mergeFollowers :: "nat \<Rightarrow> rcall \<times> rcv \<Rightarrow> rcall \<times> rcv" where
  "mergeFollowers k = (\<lambda>(c, r).
     let (l, c, charge) = merge_loop (drop (k + 1) (ooq r)) (ooq r ! k) c (oooCap r)
     in (c, r\<lparr>ooq := take k (ooq r) @ l, oooCap := charge\<rparr>))"

section \<open>Copying\<close>

definition newRun :: "nat \<Rightarrow> byte list \<Rightarrow> rcv \<Rightarrow> seg \<times> nat \<times> rcv" where
  "newRun off q r =
     (let m = min runSize (length q)
      in (\<lparr>seg_off = off, seg_b = take m q, seg_bcap = runSize + ClassSlack, seg_cap = runCap, seg_run = True\<rparr>,
          m, r\<lparr>oooCap := oooCap r + runCap\<rparr>))"

function append_loop :: "nat \<Rightarrow> byte list \<Rightarrow> rcall \<Rightarrow> rcv \<Rightarrow> rcall \<times> rcv" where
  "append_loop pos q c r =
     (if q = [] then (c, r)
      else if inq r \<noteq> [] \<and> segRoom (last (inq r)) > 0
      then let (t, m) = growSeg (last (inq r)) q
           in append_loop (pos + m) (drop m q) (c\<lparr>copied := copied c + m\<rparr>) (r\<lparr>inq := butlast (inq r) @ [t]\<rparr>)
      else let (sg, m, r) = newRun pos q r
           in append_loop (pos + m) (drop m q) (c\<lparr>copied := copied c + m\<rparr>) (r\<lparr>inq := inq r @ [sg]\<rparr>))"
  by pat_completeness auto
termination
  by (relation "measure (\<lambda>(pos, q, c, r). length q)") (auto simp: growSeg_def newRun_def Let_def)

declare append_loop.simps [simp del]

definition appendCopy :: "nat \<Rightarrow> byte list \<Rightarrow> rcall \<times> rcv \<Rightarrow> rcall \<times> rcv" where
  "appendCopy pos piece = (\<lambda>(c, r).
     let (c, r) = append_loop pos piece c r
     in promote (c, r\<lparr>rTail := rTail r + length piece, rxBytes := rxBytes r + length piece\<rparr>))"

text \<open>The loop of \<open>insertCopyLocked\<close>; the first component tells whether every byte was placed.\<close>

function insert_loop :: "int \<Rightarrow> nat \<Rightarrow> nat \<Rightarrow> byte list \<Rightarrow> rcall \<Rightarrow> rcv \<Rightarrow> bool \<times> nat \<times> rcall \<times> rcv" where
  "insert_loop limit i pos q c r =
     (if q = [] then (True, i, c, r)
      else if i > 0 \<and> seg_end (ooq r ! (i - 1)) = pos \<and> segRoom (ooq r ! (i - 1)) > 0
      then let (t, m) = growSeg (ooq r ! (i - 1)) q
           in insert_loop limit i (pos + m) (drop m q) (c\<lparr>copied := copied c + m\<rparr>) (r\<lparr>ooq := (ooq r)[i - 1 := t]\<rparr>)
      else if oooCap r + runCap > limit then (False, i, c, r\<lparr>oooDropped := oooDropped r + length q\<rparr>)
      else let (sg, m, r) = newRun pos q r
           in insert_loop limit (i + 1) (pos + m) (drop m q) (c\<lparr>copied := copied c + m\<rparr>)
                (r\<lparr>ooq := segList_insert i sg (ooq r)\<rparr>))"
  by pat_completeness auto
termination
  by (relation "measure (\<lambda>(limit, i, pos, q, c, r). length q)") (auto simp: growSeg_def newRun_def Let_def)

declare insert_loop.simps [simp del]

definition insertCopy :: "int \<Rightarrow> nat \<Rightarrow> nat \<Rightarrow> byte list \<Rightarrow> rcall \<times> rcv \<Rightarrow> rcall \<times> rcv" where
  "insertCopy limit i pos piece = (\<lambda>(c, r).
     let (placed, i, c, r) = insert_loop limit i pos piece c r
     in if placed then mergeFollowers (i - 1) (c, r) else (c, r))"

lemma bsearch_stop: "lo \<le> hi \<Longrightarrow> (hi < N \<Longrightarrow> \<not> below hi) \<Longrightarrow> bsearch below lo hi < N \<Longrightarrow> \<not> below (bsearch below lo hi)"
proof (induction below lo hi rule: bsearch.induct)
  case (1 below lo hi)
  then show ?case by (subst bsearch.simps) (auto simp: Let_def bsearch.simps [of below lo hi] split: if_splits)
qed

lemma after_beyond: "segList_after x l < length l \<Longrightarrow> x < seg_end (l ! segList_after x l)"
  using bsearch_stop [of 0 "length l" "length l" "\<lambda>m. seg_end (l ! m) \<le> x"] by (simp add: segList_after_def)

function copyPieces :: "int \<Rightarrow> nat \<Rightarrow> byte list \<Rightarrow> nat \<Rightarrow> rcall \<times> rcv \<Rightarrow> rcall \<times> rcv" where
  "copyPieces limit off p pos cr =
     (let r = snd cr; e = off + length p
      in if pos < e
         then if pos < rTail r then copyPieces limit off p (rTail r) cr
              else
               let i = segList_after pos (ooq r)
               in if i < length (ooq r) \<and> seg_off (ooq r ! i) \<le> pos
                  then copyPieces limit off p (seg_end (ooq r ! i)) cr
                  else
                   let stop = (if i < length (ooq r) then min e (seg_off (ooq r ! i)) else e);
                       piece = bslice p (pos - off) (stop - off)
                   in copyPieces limit off p stop
                        (if pos = rTail r then appendCopy pos piece cr else insertCopy limit i pos piece cr)
         else cr)"
  by pat_completeness auto
termination
  by (relation "measure (\<lambda>(limit, off, p, pos, cr). off + length p - pos)") (auto dest: after_beyond)

declare copyPieces.simps [simp del]

section \<open>One DATA frame\<close>

record heldRange =
  h_s0 :: nat
  h_x :: nat
  h_a :: nat
  h_b :: nat
  h_bytes :: nat
  h_charge :: int

primrec heldIn_loop :: "nat \<Rightarrow> seg list \<Rightarrow> heldRange \<Rightarrow> heldRange" where
  "heldIn_loop e [] h = h"
| "heldIn_loop e (sg # l) h =
     (if seg_off sg < e
      then if seg_end sg > e then h\<lparr>h_x := seg_off sg\<rparr>
           else heldIn_loop e l (h\<lparr>h_bytes := h_bytes h + length (seg_b sg),
                  h_charge := h_charge h + segCap sg, h_b := h_b h + 1\<rparr>)
      else h)"

definition heldIn :: "nat \<Rightarrow> nat \<Rightarrow> rcv \<Rightarrow> heldRange" where
  "heldIn start e r =
     (let l = ooq r; i = segList_after start l;
          straddle = (i < length l \<and> seg_off (l ! i) < start);
          s0 = (if straddle then seg_end (l ! i) else start);
          i = (if straddle then i + 1 else i)
      in heldIn_loop e (drop i l)
           \<lparr>h_s0 = s0, h_x = e, h_a = i, h_b = i, h_bytes = 0, h_charge = 0\<rparr>)"

definition newBytes :: "heldRange \<Rightarrow> nat" where
  "newBytes h = (if h_s0 h \<ge> h_x h then 0 else h_x h - h_s0 h - h_bytes h)"

definition byRef :: "heldRange \<Rightarrow> int \<Rightarrow> bool" where
  "byRef h c = (h_charge h \<ge> c \<and> 2 * int (h_x h - h_s0 h) \<ge> c)"

text \<open>\<open>bc\<close> is \<open>cap(buf.B)\<close>; the payload is the front of that buffer.\<close>

definition keepRef :: "int \<Rightarrow> nat \<Rightarrow> byte list \<Rightarrow> nat \<Rightarrow> heldRange \<Rightarrow> nat \<Rightarrow> rcall \<times> rcv \<Rightarrow> rcall \<times> rcv" where
  "keepRef limit off p bc h n = (\<lambda>(c, r).
     let sg = \<lparr>seg_off = h_s0 h, seg_b = bslice p (h_s0 h - off) (h_x h - off),
               seg_bcap = bc - (h_s0 h - off), seg_cap = int bc, seg_run = False\<rparr>;
         charge = int bc
     in if h_s0 h = rTail r
        then let r = releaseOOORange (h_a h) (h_b h) r
             in promote (c, r\<lparr>inq := inq r @ [sg], oooCap := oooCap r + charge,
                  rxBytes := rxBytes r + (h_x h - h_s0 h), rTail := h_x h\<rparr>)
        else if oooCap r - h_charge h + charge > limit then (c, r\<lparr>oooDropped := oooDropped r + n\<rparr>)
        else let r = releaseOOORange (h_a h) (h_b h) r
             in mergeFollowers (h_a h)
                  (c, r\<lparr>ooq := segList_insert (h_a h) sg (ooq r), oooCap := oooCap r + charge\<rparr>))"

text \<open>The placement of \<open>recvDataLocked\<close>: \<open>e\<close> is the end of the frame, \<open>buf\<close> the capacity of the reader's buffer
  (\<open>None\<close> for a payload that was passed without one).\<close>

definition place :: "renv \<Rightarrow> nat \<Rightarrow> byte list \<Rightarrow> nat option \<Rightarrow> rcv \<Rightarrow> rcall \<times> rcv" where
  "place ev off p buf r =
     (let e = off + length p; start = max off (rTail r); h = heldIn start e r; n = newBytes h;
          dup = (start - off) + (e - start - n);
          r = (if dup > 0 then raceDup ev dup False r else r);
          c = \<lparr>left = int copyBudget, copied = 0\<rparr>
      in case buf of
           Some bc \<Rightarrow>
             if n > 0 \<and> (n > copyBudget \<or> byRef h (int bc)) then keepRef (recvLimit ev) off p bc h n (c, r)
             else copyPieces (recvLimit ev) off p off (c\<lparr>left := left c - int n\<rparr>, r)
         | None \<Rightarrow> copyPieces (recvLimit ev) off p off (c\<lparr>left := left c - int n\<rparr>, r))"

definition afterPlace :: "renv \<Rightarrow> rcv \<Rightarrow> rcv" where
  "afterPlace ev r =
     (if discard r
      then let (d, r) = consumeAll ev r;
               r = (if d > 0 then emit RingActor (r\<lparr>discardedAfterClose := True,
                      facts := or (facts r) factDiscardedAfterClose\<rparr>) else r)
           in shed ev r
      else
       let r = shed ev r;
           r = (if rwaiting r then emit SignalReader r else r)
       in if ackOnData r then bumpNow ev (r\<lparr>ackOnData := False\<rparr>) else r)"

definition recvData :: "renv \<Rightarrow> nat \<Rightarrow> byte list \<Rightarrow> nat option \<Rightarrow> rcv \<Rightarrow> verr + rcv" where
  "recvData ev off p buf r =
     (let e = (off + length p) mod 2 ^ 64
      in if p = [] \<or> e < off then Inl errDataLength
         else if e > rightEdge r then Inl errWindow
         else if peerFinSet r \<and> e > peerFin r then Inl errDataBeyondFin
         else if off < rTail r \<and>
           (let a = max off (rRead r); b = min e (rTail r)
            in a < b \<and> \<not> segRing_equal (inq r) a (bslice p (a - off) (b - off))) then Inl (conflictErr ev)
         else if off < rTail r \<and> e \<le> rTail r then Inr (raceDup ev (e - off) True r)
         else if \<not> segList_equal (ooq r) off p then Inl (conflictErr ev)
         else
          let r' = snd (place ev off p buf r)
          in Inr (if rTail r' = rTail r then r' else afterPlace ev r'))"

definition earlyEnd :: "renv \<Rightarrow> nat" where
  "earlyEnd ev = (e_firstOffset ev + EarlyWindow) mod 2 ^ 64"

definition earlyData :: "renv \<Rightarrow> bool \<Rightarrow> nat \<Rightarrow> byte list \<Rightarrow> nat option \<Rightarrow> rcv \<Rightarrow> verr option \<times> rcv" where
  "earlyData ev early off p buf r =
     (let lim = earlyEnd ev; e = (off + length p) mod 2 ^ 64
      in if \<not> early \<or> e < off \<or> e > lim then (Some errDataBeforeOpen, r)
         else
          let r = (if rightEdge r < lim then r\<lparr>rightEdge := lim\<rparr> else r);
              (err, r) = (case recvData ev off p buf r of Inl v \<Rightarrow> (Some v, r) | Inr r' \<Rightarrow> (None, r'))
          in (err, r\<lparr>earlyBytes := rxBytes r + segList_bytes (ooq r)\<rparr>))"

definition dataLocked :: "renv \<Rightarrow> bool \<Rightarrow> nat \<Rightarrow> byte list \<Rightarrow> nat option \<Rightarrow> rcv \<Rightarrow> verr option \<times> rcv" where
  "dataLocked ev early off p buf r =
     (if ended r then (None, r)
      else if e_pending ev then earlyData ev early off p buf r
      else case recvData ev off p buf r of Inl v \<Rightarrow> (Some v, r) | Inr r' \<Rightarrow> (None, r'))"

section \<open>The application\<close>

definition maxViews :: nat where [simp]: "maxViews = 8"

primrec readViews :: "seg list \<Rightarrow> nat \<Rightarrow> nat \<Rightarrow> nat \<Rightarrow> byte list" where
  "readViews [] x nv want = []"
| "readViews (sg # l) x nv want =
     (if nv < maxViews \<and> want > 0
      then if seg_end sg \<le> x then readViews l x nv want
           else let v = take want (drop (x - seg_off sg) (seg_b sg))
                in v @ readViews l (x + length v) (nv + 1) (want - length v)
      else [])"

text \<open>\<open>Read\<close> up to its copy: \<open>n\<close> is the length of the caller's buffer. \<open>None\<close> when there is nothing to return
  yet or an error takes precedence (closed, end of stream, ended, deadline).\<close>

definition readBegin :: "bool \<Rightarrow> nat \<Rightarrow> rcv \<Rightarrow> (byte list \<times> rcv) option" where
  "readBegin deadline n r =
     (if n = 0 \<or> closed r \<or> (peerFinSet r \<and> rRead r = peerFin r) \<or> ended r \<or> deadline \<or> \<not> rRead r < rTail r then None
      else Some (readViews (inq r) (rRead r) 0 (min n (rTail r - rRead r)), r\<lparr>rcopying := True\<rparr>))"

text \<open>\<open>Read\<close> after its copy of \<open>n\<close> bytes; the result tells whether the caller gets them.\<close>

definition readCommit :: "renv \<Rightarrow> nat \<Rightarrow> rcv \<Rightarrow> bool \<times> rcv" where
  "readCommit ev n r =
     (let r = r\<lparr>rcopying := False\<rparr>
      in if closed r
         then (False, if rfreePending r then releaseConsumed (r\<lparr>rfreePending := False\<rparr>) else r)
         else
          let r = releaseConsumed (r\<lparr>rRead := rRead r + n, delivered := delivered r + n\<rparr>)
          in (True,
              if \<not> ended r then peerFinCheck ev (ackCadence ev r)
              else if rfreePending r then releaseRecv (r\<lparr>rfreePending := False\<rparr>)
              else r))"

text \<open>The receive half of \<open>closeLocked\<close>.\<close>

definition closeRecv :: "renv \<Rightarrow> rcv \<Rightarrow> rcv" where
  "closeRecv ev r =
     (if closed r then r
      else
       let r = snd (consumeAll ev (r\<lparr>closed := True, discard := True\<rparr>));
           r = (if rwaiting r then emit SignalReader r else r)
       in r\<lparr>facts := or (facts r) factClose\<rparr>)"

text \<open>The receive half of \<open>endLocked\<close>: a \<open>Read\<close> that copies keeps its segments until it commits.\<close>

definition endRecv :: "rcv \<Rightarrow> rcv" where
  "endRecv r =
     (if ended r then r
      else
       let r = r\<lparr>ended := True\<rparr>;
           r = (if rwaiting r then emit SignalReader r else r)
       in if rcopying r then releaseOOO (r\<lparr>rfreePending := True\<rparr>) else releaseRecv r)"

section \<open>Start and window\<close>

text \<open>The receive side as \<open>initStreamLocked\<close> leaves it; \<open>first\<close> is \<open>Params.FirstOffset\<close>.\<close>

definition initRecv :: "nat \<Rightarrow> rcv" where
  "initRecv first =
     \<lparr>rRead = first, rTail = first, rightEdge = first, inq = [], ooq = [], oooCap = 0, oooDropped = 0, peerFin = 0,
      peerFinSet = False, peerFinDelivered = False, discard = False, discardedAfterClose = False, rcopying = False,
      rfreePending = False, ackGen = 0, ackOwedSince = 0, ackBumped = 0, ackFlags = 0, ackDelayAt = 0,
      ackOnData = False, rwaiting = False, closed = False, ended = False, facts = 0, earlyBytes = 0, rxBytes = 0,
      delivered = 0, dupBytes = 0, r_out = []\<rparr>"

definition earlyWindow :: "renv \<Rightarrow> bool \<Rightarrow> rcv \<Rightarrow> rcv" where
  "earlyWindow ev earlyOpen r =
     (if \<not> earlyOpen then r
      else if rightEdge r < earlyEnd ev then r\<lparr>rightEdge := earlyEnd ev\<rparr> else r)"

end
