(* ===== verification/Sess_Place.thy ===== *)
theory Sess_Place
  imports Sess_Recv
begin

text \<open>
  The invariant of the receive path and its proof for the placement of one frame: merging, promotion, copying and
  references. Every lemma is about an arbitrary assignment \<open>M\<close> of bytes to offsets that the held segments
  agree with, so the same lemmas serve an arbitrary frame (\<open>M\<close> is what is held plus the frame) and an honest
  sender (\<open>M\<close> is the stream it sends).
\<close>

section \<open>Segments that agree with an assignment\<close>

definition qfits :: "(nat \<Rightarrow> byte option) \<Rightarrow> nat \<Rightarrow> byte list \<Rightarrow> bool" where
  "qfits M pos q = (\<forall>k < length q. M (pos + k) = Some (q ! k))"

text \<open>The slice of a segment lies inside its buffer.\<close>

definition seg_ok :: "seg \<Rightarrow> bool" where
  "seg_ok sg = (length (seg_b sg) \<le> seg_bcap sg \<and> (seg_run sg \<longrightarrow> length (seg_b sg) \<le> runSize \<and> runSize \<le> seg_bcap sg)
     \<and> 0 \<le> seg_cap sg)"

definition segs_inv :: "(nat \<Rightarrow> byte option) \<Rightarrow> seg list \<Rightarrow> bool" where
  "segs_inv M l = (\<forall>sg \<in> set l. fits M sg \<and> seg_ok sg)"

definition charge :: "seg list \<Rightarrow> int" where
  "charge l = sum_list (map seg_cap l)"

lemma charge_simps [simp]:
  "charge [] = 0" "charge (sg # l) = seg_cap sg + charge l" "charge (xs @ ys) = charge xs + charge ys"
  by (simp_all add: charge_def)

lemma segs_inv_simps [simp]:
  "segs_inv M []" "segs_inv M (sg # l) \<longleftrightarrow> fits M sg \<and> seg_ok sg \<and> segs_inv M l"
  "segs_inv M (xs @ ys) \<longleftrightarrow> segs_inv M xs \<and> segs_inv M ys"
  by (auto simp: segs_inv_def)

lemma segs_inv_sub: "segs_inv M l \<Longrightarrow> set l' \<subseteq> set l \<Longrightarrow> segs_inv M l'"
  by (auto simp: segs_inv_def)

lemma charge_nonneg: "segs_inv M l \<Longrightarrow> 0 \<le> charge l"
  by (induction l) (auto simp: seg_ok_def)

lemma qfits_drop: "qfits M pos q \<Longrightarrow> qfits M (pos + m) (drop m q)"
  unfolding qfits_def
proof (intro allI impI)
  fix k assume "\<forall>k < length q. M (pos + k) = Some (q ! k)" "k < length (drop m q)"
  then show "M (pos + m + k) = Some (drop m q ! k)" by (simp add: add.assoc)
qed

lemma qfits_take: "qfits M pos q \<Longrightarrow> qfits M pos (take m q)"
  by (simp add: qfits_def)

lemma fits_qfits: "fits M sg \<longleftrightarrow> qfits M (seg_off sg) (seg_b sg)"
  by (simp add: fits_def qfits_def)

lemma qfits_append: "qfits M pos (p @ q) \<longleftrightarrow> qfits M pos p \<and> qfits M (pos + length p) q"
proof
  assume a: "qfits M pos (p @ q)"
  show "qfits M pos p \<and> qfits M (pos + length p) q"
    using qfits_take [OF a, of "length p"] qfits_drop [OF a, of "length p"] by simp
next
  assume a: "qfits M pos p \<and> qfits M (pos + length p) q"
  show "qfits M pos (p @ q)" unfolding qfits_def
  proof (intro allI impI)
    fix k assume k: "k < length (p @ q)"
    show "M (pos + k) = Some ((p @ q) ! k)"
    proof (cases "k < length p")
      case True then show ?thesis using a by (simp add: qfits_def nth_append)
    next
      case False
      then show ?thesis using conjunct2 [OF a, unfolded qfits_def, rule_format, of "k - length p"] k
        by (simp add: nth_append)
    qed
  qed
qed

lemma growSeg_spec:
  assumes "growSeg t q = (t', m)" "seg_ok t" "fits M t" "qfits M (seg_end t) q"
  shows "t' = t\<lparr>seg_b := seg_b t @ take m q\<rparr> \<and> m = min (segRoom t) (length q) \<and> seg_ok t' \<and> fits M t' \<and>
    seg_end t' = seg_end t + m"
proof -
  have t': "t' = t\<lparr>seg_b := seg_b t @ take m q\<rparr>" and m: "m = min (segRoom t) (length q)"
    using assms(1) by (auto simp: growSeg_def Let_def)
  have "seg_ok t'" using assms(2) by (auto simp: t' m seg_ok_def segRoom_def)
  moreover have "fits M t'" using assms(3,4) by (simp add: t' fits_qfits qfits_append qfits_take seg_end_def)
  ultimately show ?thesis using t' m by (simp add: seg_end_def)
qed

section \<open>Appending in order\<close>

lemma newRun_spec:
  assumes "newRun pos q r = (sg, m, r')" "qfits M pos q" "q \<noteq> []"
  shows "seg_off sg = pos \<and> seg_b sg \<noteq> [] \<and> seg_end sg = pos + m \<and> seg_ok sg \<and> fits M sg \<and> seg_cap sg = runCap \<and>
    0 < m \<and> m \<le> length q \<and> r' = r\<lparr>oooCap := oooCap r + runCap\<rparr>"
proof -
  define k where "k = min runSize (length q)"
  have k: "0 < k" "k \<le> length q" "k \<le> runSize" using assms(3) by (auto simp: k_def)
  have "sg = \<lparr>seg_off = pos, seg_b = take k q, seg_bcap = runSize + ClassSlack, seg_cap = runCap, seg_run = True\<rparr>"
    "m = k" "r' = r\<lparr>oooCap := oooCap r + runCap\<rparr>"
    using assms(1) by (auto simp: newRun_def Let_def k_def)
  then show ?thesis using k assms(2,3) by (simp add: seg_end_def seg_ok_def fits_qfits qfits_take)
qed

text \<open>What the append loop changes and keeps.\<close>

definition appended :: "(nat \<Rightarrow> byte option) \<Rightarrow> nat \<Rightarrow> nat \<Rightarrow> byte list \<Rightarrow> rcall \<times> rcv \<Rightarrow> rcall \<times> rcv \<Rightarrow> bool" where
  "appended M a pos q cr cr' \<longleftrightarrow>
     contig a (inq (snd cr')) (pos + length q) \<and> segs_inv M (inq (snd cr')) \<and>
     oooCap (snd cr') - charge (inq (snd cr')) = oooCap (snd cr) - charge (inq (snd cr)) \<and>
     snd cr' = (snd cr)\<lparr>inq := inq (snd cr'), oooCap := oooCap (snd cr')\<rparr> \<and>
     copied (fst cr') = copied (fst cr) + length q \<and> left (fst cr') = left (fst cr) \<and>
     (q \<noteq> [] \<or> inq (snd cr) \<noteq> [] \<longrightarrow> inq (snd cr') \<noteq> [])"

lemma append_loop_spec:
  "contig a (inq r) pos \<Longrightarrow> segs_inv M (inq r) \<Longrightarrow> qfits M pos q \<Longrightarrow>
    appended M a pos q (c, r) (append_loop pos q c r)"
proof (induction pos q c r rule: append_loop.induct)
  case (1 pos q c r)
  show ?case
  proof (cases "q = []")
    case True
    then have "append_loop pos q c r = (c, r)" by (simp add: append_loop.simps)
    then show ?thesis using True 1(3,4) by (simp add: appended_def)
  next
    case q: False
    show ?thesis
    proof (cases "inq r \<noteq> [] \<and> segRoom (last (inq r)) > 0")
      case True
      obtain xs t where xs: "inq r = xs @ [t]" using True by (metis append_butlast_last_id)
      obtain t' m where g: "growSeg t q = (t', m)" by (cases "growSeg t q")
      have pos: "pos = seg_end t" "contig a xs (seg_off t)" using 1(3) by (auto simp: xs contig_snoc)
      have gs: "t' = t\<lparr>seg_b := seg_b t @ take m q\<rparr>" "m = min (segRoom t) (length q)" "seg_ok t'" "fits M t'"
        "seg_end t' = pos + m"
        using growSeg_spec [OF g, of M] 1(4,5) by (auto simp: xs pos)
      define c1 where "c1 = c\<lparr>copied := copied c + m\<rparr>"
      define r1 where "r1 = r\<lparr>inq := butlast (inq r) @ [t']\<rparr>"
      have g': "(t', m) = growSeg (last (inq r)) q" using g by (simp add: xs)
      have "appended M a (pos + m) (drop m q) (c1, r1) (append_loop (pos + m) (drop m q) c1 r1)"
        unfolding c1_def r1_def
        by (rule 1(1) [OF q True g' refl]) (use gs pos 1(3,4,5) q in \<open>auto simp: xs contig_snoc qfits_drop\<close>)
      moreover have "append_loop pos q c r = append_loop (pos + m) (drop m q) c1 r1"
        using q True g by (simp add: append_loop.simps [of pos q c r] xs c1_def r1_def)
      ultimately show ?thesis using gs(1,2) q by (auto simp: appended_def c1_def r1_def xs)
    next
      case False
      obtain sg m r0 where n: "newRun pos q r = (sg, m, r0)" by (cases "newRun pos q r")
      have ns: "seg_off sg = pos" "seg_b sg \<noteq> []" "seg_end sg = pos + m" "seg_ok sg" "fits M sg" "seg_cap sg = runCap"
        "0 < m" "m \<le> length q" "r0 = r\<lparr>oooCap := oooCap r + runCap\<rparr>"
        using newRun_spec [OF n 1(5) q] by auto
      define c1 where "c1 = c\<lparr>copied := copied c + m\<rparr>"
      define r1 where "r1 = r0\<lparr>inq := inq r0 @ [sg]\<rparr>"
      have "appended M a (pos + m) (drop m q) (c1, r1) (append_loop (pos + m) (drop m q) c1 r1)"
        unfolding c1_def r1_def
        by (rule 1(2) [OF q False n [symmetric] refl refl]) (use ns 1(3,4,5) in \<open>auto simp: contig_snoc qfits_drop\<close>)
      moreover have "append_loop pos q c r = append_loop (pos + m) (drop m q) c1 r1"
        using q False n by (auto simp: append_loop.simps [of pos q c r] c1_def r1_def)
      ultimately show ?thesis using ns by (auto simp: appended_def c1_def r1_def)
    qed
  qed
qed

section \<open>The placement step\<close>

definition allheld :: "rcv \<Rightarrow> nat set" where
  "allheld r = held (inq r) \<union> held (ooq r)"

text \<open>The invariant of the held segments: the in-order queue covers \<open>[a, rTail)\<close> for some \<open>a \<le> rRead\<close>, the
  out-of-order segments lie beyond \<open>rTail\<close> with a gap, every segment agrees with \<open>M\<close> and lies in its buffer, and
  the charge is exact.\<close>

definition core :: "(nat \<Rightarrow> byte option) \<Rightarrow> rcv \<Rightarrow> bool" where
  "core M r \<longleftrightarrow> rRead r \<le> rTail r \<and> (\<exists>a \<le> rRead r. contig a (inq r) (rTail r)) \<and> asc (Suc (rTail r)) (ooq r) \<and>
     segs_inv M (inq r) \<and> segs_inv M (ooq r) \<and> oooCap r = charge (inq r) + charge (ooq r)"

text \<open>Only these fields change.\<close>

definition frame_of :: "rcv \<Rightarrow> rcv \<Rightarrow> bool" where
  "frame_of r r' \<longleftrightarrow> r' = r\<lparr>inq := inq r', ooq := ooq r', oooCap := oooCap r', oooDropped := oooDropped r',
     rTail := rTail r', rxBytes := rxBytes r'\<rparr>"

text \<open>Out-of-order data is held only while the charge is within the limit.\<close>

definition capok :: "int \<Rightarrow> rcv \<Rightarrow> bool" where
  "capok lim r \<longleftrightarrow> ooq r = [] \<or> oooCap r \<le> lim"

text \<open>A step that adds at most the offsets \<open>N\<close>, each copied at most once: nothing held is lost, what is copied
  beyond the new bytes comes out of the budget \<open>left\<close>, and while nothing arrives in order the cap is kept.\<close>

definition pstep :: "int \<Rightarrow> (nat \<Rightarrow> byte option) \<Rightarrow> nat set \<Rightarrow> rcall \<times> rcv \<Rightarrow> rcall \<times> rcv \<Rightarrow> bool" where
  "pstep lim M N cr cr' \<longleftrightarrow>
     core M (snd cr') \<and> allheld (snd cr) \<subseteq> allheld (snd cr') \<and> allheld (snd cr') \<subseteq> allheld (snd cr) \<union> N \<and>
     rTail (snd cr) \<le> rTail (snd cr') \<and> frame_of (snd cr) (snd cr') \<and>
     (rTail (snd cr') = rTail (snd cr) \<longrightarrow> capok lim (snd cr) \<longrightarrow> capok lim (snd cr')) \<and>
     (0 \<le> left (fst cr) \<longrightarrow> 0 \<le> left (fst cr')) \<and>
     int (copied (fst cr')) + left (fst cr') \<le> int (copied (fst cr)) + left (fst cr) + int (card N)"

lemma frame_refl [simp]: "frame_of r r"
  by (simp add: frame_of_def)

lemma frame_trans: "frame_of r r' \<Longrightarrow> frame_of r' r'' \<Longrightarrow> frame_of r r''"
  unfolding frame_of_def by (cases r; cases r'; cases r'') simp

lemma pstep_refl: "core M (snd cr) \<Longrightarrow> pstep lim M N cr cr"
  by (auto simp: pstep_def)

lemma pstep_mono: "pstep lim M N cr cr' \<Longrightarrow> N \<subseteq> N' \<Longrightarrow> finite N' \<Longrightarrow> pstep lim M N' cr cr'"
  unfolding pstep_def using card_mono [of N' N] by fastforce

lemma pstep_trans:
  assumes "pstep lim M N cr cr'" "pstep lim M N' cr' cr''" "N \<inter> N' = {}" "finite N" "finite N'"
  shows "pstep lim M (N \<union> N') cr cr''"
  using assms frame_trans [of "snd cr" "snd cr'" "snd cr''"] unfolding pstep_def
  by (auto simp: card_Un_disjoint)

section \<open>Promotion and merging\<close>

definition promoted :: "(nat \<Rightarrow> byte option) \<Rightarrow> nat \<Rightarrow> seg list \<Rightarrow> rcall \<times> rcv \<Rightarrow> rcall \<times> rcv \<Rightarrow> bool" where
  "promoted M a l cr cr' \<longleftrightarrow>
     contig a (inq (snd cr')) (rTail (snd cr')) \<and> asc (Suc (rTail (snd cr'))) (ooq (snd cr')) \<and>
     segs_inv M (inq (snd cr')) \<and> segs_inv M (ooq (snd cr')) \<and>
     oooCap (snd cr') - charge (inq (snd cr')) - charge (ooq (snd cr')) =
       oooCap (snd cr) - charge (inq (snd cr)) - charge l \<and>
     allheld (snd cr') = held (inq (snd cr)) \<union> held l \<and> rTail (snd cr) \<le> rTail (snd cr') \<and>
     frame_of (snd cr) (snd cr') \<and> (0 \<le> left (fst cr) \<longrightarrow> 0 \<le> left (fst cr')) \<and>
     int (copied (fst cr')) + left (fst cr') = int (copied (fst cr)) + left (fst cr)"

lemma covers_grow: "seg_end t = seg_off sg \<Longrightarrow> t' = t\<lparr>seg_b := seg_b t @ seg_b sg\<rparr> \<Longrightarrow> covers t' = covers t \<union> covers sg"
  by (auto simp: covers_def seg_end_def)

lemma promote_loop_spec:
  "asc (rTail r) l \<Longrightarrow> contig a (inq r) (rTail r) \<Longrightarrow> inq r \<noteq> [] \<Longrightarrow> segs_inv M (inq r) \<Longrightarrow> segs_inv M l \<Longrightarrow>
    promoted M a l (c, r) (promote_loop l (c, r))"
proof (induction l arbitrary: c r)
  case Nil then show ?case by (simp add: promoted_def allheld_def frame_of_def)
next
  case (Cons sg l)
  show ?case
  proof (cases "seg_off sg = rTail r")
    case False
    then have "promote_loop (sg # l) (c, r) = (c, r\<lparr>ooq := sg # l\<rparr>)" by simp
    then show ?thesis using False Cons.prems by (simp add: promoted_def allheld_def frame_of_def)
  next
    case True
    define n where "n = length (seg_b sg)"
    define t where "t = last (inq r)"
    define cr1 where "cr1 = (if n \<le> segRoom t \<and> int n \<le> left c
             then (c\<lparr>left := left c - int n, copied := copied c + n\<rparr>,
                   r\<lparr>inq := butlast (inq r) @ [fst (growSeg t (seg_b sg))], oooCap := oooCap r - segCap sg\<rparr>)
             else (c, r\<lparr>inq := inq r @ [sg]\<rparr>))"
    define c1 where "c1 = fst cr1"
    define r1 where "r1 = (snd cr1)\<lparr>rTail := rTail r + n, rxBytes := rxBytes r + n\<rparr>"
    obtain xs where xs: "inq r = xs @ [t]" using Cons.prems(3) by (metis append_butlast_last_id t_def)
    have t: "seg_end t = rTail r" "contig a xs (seg_off t)" "seg_b t \<noteq> []"
      using Cons.prems(2) by (auto simp: xs contig_snoc)
    have eq: "promote_loop (sg # l) (c, r) = promote_loop l (c1, r1)"
      using True by (simp add: c1_def r1_def cr1_def n_def [symmetric] t_def [symmetric] Let_def)
    have asc1: "asc (rTail r1) l" using Cons.prems(1) True by (simp add: r1_def n_def seg_end_def)
    have r1: "contig a (inq r1) (rTail r1) \<and> inq r1 \<noteq> [] \<and> segs_inv M (inq r1) \<and>
        held (inq r1) = held (inq r) \<union> covers sg \<and> rTail r1 = rTail r + n \<and>
        oooCap r1 - charge (inq r1) = oooCap r - charge (inq r) - seg_cap sg \<and> frame_of r r1 \<and>
        (0 \<le> left c \<longrightarrow> 0 \<le> left c1) \<and> int (copied c1) + left c1 = int (copied c) + left c"
    proof (cases "n \<le> segRoom t \<and> int n \<le> left c")
      case fit: True
      obtain t' m where g: "growSeg t (seg_b sg) = (t', m)" by (cases "growSeg t (seg_b sg)")
      have gs: "t' = t\<lparr>seg_b := seg_b t @ seg_b sg\<rparr>" "seg_ok t'" "fits M t'" "seg_end t' = rTail r + n"
        using growSeg_spec [OF g, of M] Cons.prems(4,5) fit t True by (auto simp: xs n_def fits_qfits)
      have cv: "covers t' = covers t \<union> covers sg" using covers_grow [OF _ gs(1)] t True by simp
      have "r1 = r\<lparr>inq := xs @ [t'], oooCap := oooCap r - seg_cap sg, rTail := rTail r + n, rxBytes := rxBytes r + n\<rparr>"
        using fit g by (simp add: r1_def cr1_def xs)
      moreover have "c1 = c\<lparr>left := left c - int n, copied := copied c + n\<rparr>" using fit by (simp add: c1_def cr1_def)
      ultimately show ?thesis using gs cv t fit Cons.prems(4)
        by (auto simp: contig_snoc xs frame_of_def)
    next
      case False
      have "r1 = r\<lparr>inq := inq r @ [sg], rTail := rTail r + n, rxBytes := rxBytes r + n\<rparr>" "c1 = c"
        using False by (auto simp: r1_def cr1_def c1_def)
      then show ?thesis using Cons.prems True by (auto simp: contig_snoc n_def seg_end_def frame_of_def)
    qed
    have "promoted M a l (c1, r1) (promote_loop l (c1, r1))"
      by (rule Cons.IH) (use asc1 r1 Cons.prems(5) in auto)
    then show ?thesis unfolding eq using r1 frame_trans [of r r1] by (auto simp: promoted_def)
  qed
qed

lemma merge_loop_spec:
  "asc (seg_end t) l \<Longrightarrow> seg_b t \<noteq> [] \<Longrightarrow> segs_inv M (t # l) \<Longrightarrow> merge_loop l t c ch = (l', c', ch') \<Longrightarrow>
    asc (seg_off t) l' \<and> l' \<noteq> [] \<and> segs_inv M l' \<and> held l' = covers t \<union> held l \<and>
    ch' - charge l' = ch - charge (t # l) \<and> ch' \<le> ch \<and> (0 \<le> left c \<longrightarrow> 0 \<le> left c') \<and>
    int (copied c') + left c' = int (copied c) + left c"
proof (induction l arbitrary: t c ch)
  case Nil then show ?case by auto
next
  case (Cons sg l)
  show ?case
  proof (cases "seg_off sg \<noteq> seg_end t \<or> length (seg_b sg) > segRoom t \<or> int (length (seg_b sg)) > left c")
    case True
    then show ?thesis using Cons.prems by (auto simp: Let_def)
  next
    case False
    obtain t' m where g: "growSeg t (seg_b sg) = (t', m)" by (cases "growSeg t (seg_b sg)")
    have gs: "t' = t\<lparr>seg_b := seg_b t @ seg_b sg\<rparr>" "seg_ok t'" "fits M t'" "seg_end t' = seg_end sg"
      using growSeg_spec [OF g, of M] Cons.prems(1,3) False by (auto simp: fits_qfits seg_end_def)
    have cv: "covers t' = covers t \<union> covers sg" using covers_grow [OF _ gs(1)] False by simp
    let ?c = "c\<lparr>left := left c - int (length (seg_b sg)), copied := copied c + length (seg_b sg)\<rparr>"
    have rec: "merge_loop l t' ?c (ch - seg_cap sg) = (l', c', ch')"
      using Cons.prems(4) False g by (simp add: Let_def)
    have "0 \<le> seg_cap sg" using Cons.prems(3) by (simp add: seg_ok_def)
    then show ?thesis using Cons.IH [OF _ _ _ rec] Cons.prems(1-3) gs cv False by (auto simp: Un_assoc)
  qed
qed

lemma mergeFollowers_spec:
  assumes core: "core M r" and k: "k < length (ooq r)"
  shows "pstep lim M {} (c, r) (mergeFollowers k (c, r))"
proof -
  define t where "t = ooq r ! k"
  define R where "R = drop (k + 1) (ooq r)"
  define L where "L = take k (ooq r)"
  have split: "ooq r = L @ t # R" using k by (simp add: L_def R_def t_def id_take_nth_drop)
  obtain l' c' ch' where m: "merge_loop R t c (oooCap r) = (l', c', ch')" by (cases "merge_loop R t c (oooCap r)")
  have eq: "mergeFollowers k (c, r) = (c', r\<lparr>ooq := L @ l', oooCap := ch'\<rparr>)"
    using m by (simp add: mergeFollowers_def R_def [simplified] t_def L_def Let_def)
  define lo where "lo = (if L = [] then Suc (rTail r) else seg_end (last L))"
  have a: "asc (Suc (rTail r)) L" "asc lo (t # R)" "segs_inv M L" "segs_inv M (t # R)"
    using core by (auto simp: core_def split asc_append lo_def)
  have ms: "asc (seg_off t) l'" "l' \<noteq> []" "segs_inv M l'" "held l' = covers t \<union> held R"
      "ch' - charge l' = oooCap r - charge (t # R)" "ch' \<le> oooCap r" "0 \<le> left c \<longrightarrow> 0 \<le> left c'"
      "int (copied c') + left c' = int (copied c) + left c"
    using merge_loop_spec [OF _ _ a(4) m] a(2) by auto
  have "asc lo l'" using ms(1) a(2) asc_mono by auto
  then have "core M (r\<lparr>ooq := L @ l', oooCap := ch'\<rparr>)"
    using core a ms(3,5) by (auto simp: core_def split asc_append lo_def)
  then show ?thesis unfolding eq using ms
    by (auto simp: pstep_def allheld_def split frame_of_def capok_def)
qed

section \<open>Inserting out of order\<close>

text \<open>The loop of \<open>insertCopyLocked\<close> on \<open>ooq = L @ R\<close> with \<open>i = length L\<close>: it extends \<open>L\<close>.\<close>

definition inserted :: "int \<Rightarrow> (nat \<Rightarrow> byte option) \<Rightarrow> nat \<Rightarrow> seg list \<Rightarrow> seg list \<Rightarrow> nat \<Rightarrow> byte list \<Rightarrow> rcall \<times> rcv \<Rightarrow>
    bool \<times> nat \<times> rcall \<times> rcv \<Rightarrow> bool" where
  "inserted lim M lo L R pos q cr res \<longleftrightarrow>
     (case (cr, res) of ((c, r), (placed, i, c', r')) \<Rightarrow>
       \<exists>L'. ooq r' = L' @ R \<and> i = length L' \<and> length L \<le> length L' \<and> asc lo L' \<and> segs_inv M L' \<and>
         (L' = [] \<or> seg_end (last L') \<le> pos + length q) \<and>
         held L \<subseteq> held L' \<and> held L' \<subseteq> held L \<union> {pos ..< pos + length q} \<and>
         oooCap r' - charge L' = oooCap r - charge L \<and>
         (oooCap r' \<le> lim \<or> oooCap r' = oooCap r \<and> length L' = length L) \<and>
         left c' = left c \<and> copied c' \<le> copied c + length q \<and> (placed \<and> (q \<noteq> [] \<or> L \<noteq> []) \<longrightarrow> L' \<noteq> []) \<and>
         r' = r\<lparr>ooq := ooq r', oooCap := oooCap r', oooDropped := oooDropped r'\<rparr>)"

lemma inserted_step:
  assumes "inserted lim M lo L1 R (pos + m) (drop m q) (c1, r1) res" "m \<le> length q"
    and "length L \<le> length L1" "held L \<subseteq> held L1" "held L1 \<subseteq> held L \<union> {pos ..< pos + m}"
    and "oooCap r1 - charge L1 = oooCap r - charge L"
    and "oooCap r1 \<le> lim \<or> oooCap r1 = oooCap r \<and> length L1 = length L"
    and "left c1 = left c" "copied c1 = copied c + m" "L1 \<noteq> []"
    and "r1 = r\<lparr>ooq := ooq r1, oooCap := oooCap r1\<rparr>"
  shows "inserted lim M lo L R pos q (c, r) res"
proof -
  obtain placed i c' r' where res: "res = (placed, i, c', r')" by (cases res)
  obtain L' where L': "ooq r' = L' @ R" "i = length L'" "length L1 \<le> length L'" "asc lo L'" "segs_inv M L'"
      "L' = [] \<or> seg_end (last L') \<le> pos + m + length (drop m q)"
      "held L1 \<subseteq> held L'" "held L' \<subseteq> held L1 \<union> {pos + m ..< pos + m + length (drop m q)}"
      "oooCap r' - charge L' = oooCap r1 - charge L1"
      "oooCap r' \<le> lim \<or> oooCap r' = oooCap r1 \<and> length L' = length L1"
      "left c' = left c1" "copied c' \<le> copied c1 + length (drop m q)"
      "r' = r1\<lparr>ooq := ooq r', oooCap := oooCap r', oooDropped := oooDropped r'\<rparr>"
    using assms(1) by (auto simp: inserted_def res)
  have ends: "pos + m + length (drop m q) = pos + length q" using assms(2) by simp
  have "L' \<noteq> []" using L'(3) assms(10) by auto
  moreover have "held L' \<subseteq> held L \<union> {pos ..< pos + length q}"
    using L'(8) assms(2,5) unfolding ends by fastforce
  moreover have "r' = r\<lparr>ooq := ooq r', oooCap := oooCap r', oooDropped := oooDropped r'\<rparr>"
    using L'(13) assms(11) by (cases r; cases r1; cases r') simp
  ultimately show ?thesis unfolding inserted_def res
    using L' assms by (auto simp: ends intro!: exI [of _ L'])
qed

lemma insert_loop_spec:
  "ooq r = L @ R \<Longrightarrow> i = length L \<Longrightarrow> asc lo L \<Longrightarrow> lo \<le> pos \<Longrightarrow> L = [] \<or> seg_end (last L) \<le> pos \<Longrightarrow> segs_inv M L \<Longrightarrow>
    qfits M pos q \<Longrightarrow> inserted lim M lo L R pos q (c, r) (insert_loop lim i pos q c r)"
proof (induction lim i pos q c r arbitrary: L rule: insert_loop.induct)
  case (1 lim i pos q c r)
  note L = 1(3-9)
  consider (nil) "q = []"
    | (grow) "q \<noteq> []" "i > 0 \<and> seg_end (ooq r ! (i - 1)) = pos \<and> segRoom (ooq r ! (i - 1)) > 0"
    | (full) "q \<noteq> []" "\<not> (i > 0 \<and> seg_end (ooq r ! (i - 1)) = pos \<and> segRoom (ooq r ! (i - 1)) > 0)"
        "oooCap r + runCap > lim"
    | (run) "q \<noteq> []" "\<not> (i > 0 \<and> seg_end (ooq r ! (i - 1)) = pos \<and> segRoom (ooq r ! (i - 1)) > 0)"
        "\<not> oooCap r + runCap > lim"
    by blast
  then show ?case
  proof cases
    case nil
    then have "insert_loop lim i pos q c r = (True, i, c, r)" by (simp add: insert_loop.simps)
    then show ?thesis using L nil by (auto simp: inserted_def)
  next
    case full
    then have "insert_loop lim i pos q c r = (False, i, c, r\<lparr>oooDropped := oooDropped r + length q\<rparr>)"
      by (subst insert_loop.simps) (simp only: if_False if_True)
    then show ?thesis using L by (auto simp: inserted_def)
  next
    case grow
    obtain xs t where xs: "L = xs @ [t]" using grow L(2) by (metis append_butlast_last_id gr_implies_not0 list.size(3))
    have nth: "ooq r ! (i - 1) = t" using L(1,2) by (simp add: xs nth_append)
    obtain t' m where g: "growSeg t q = (t', m)" by (cases "growSeg t q")
    have g': "(t', m) = growSeg (ooq r ! (i - 1)) q" unfolding nth by (rule g [symmetric])
    have gs: "t' = t\<lparr>seg_b := seg_b t @ take m q\<rparr>" "m = min (segRoom t) (length q)" "seg_ok t'" "fits M t'"
        "seg_end t' = pos + m"
      using growSeg_spec [OF g, of M] L(6,7) grow(2) [unfolded nth] by (auto simp: xs)
    define c1 where "c1 = c\<lparr>copied := copied c + m\<rparr>"
    define r1 where "r1 = r\<lparr>ooq := (ooq r)[i - 1 := t']\<rparr>"
    have o1: "ooq r1 = (xs @ [t']) @ R" using L(1,2) by (simp add: r1_def xs)
    have cov: "covers t \<subseteq> covers t'" "covers t' \<subseteq> covers t \<union> {pos ..< pos + m}"
      using grow(2) [unfolded nth] gs by (auto simp: covers_def seg_end_def)
    have "inserted lim M lo (xs @ [t']) R (pos + m) (drop m q) (c1, r1) (insert_loop lim i (pos + m) (drop m q) c1 r1)"
      unfolding c1_def r1_def
      by (rule 1(1) [OF grow g' refl]) (use o1 gs L qfits_drop in \<open>auto simp: xs r1_def asc_append\<close>)
    moreover have "insert_loop lim i pos q c r = insert_loop lim i (pos + m) (drop m q) c1 r1"
      using g by (subst insert_loop.simps) (simp only: grow grow(2) [unfolded nth] simp_thms if_True if_False nth Let_def prod.case c1_def r1_def)
    ultimately show ?thesis using gs(1,2) cov
      by (auto intro!: inserted_step [of lim M lo "xs @ [t']" R pos m q c1 r1] simp: xs c1_def r1_def)
  next
    case run
    obtain sg m r0 where n: "newRun pos q r = (sg, m, r0)" by (cases "newRun pos q r")
    have ns: "seg_off sg = pos" "seg_b sg \<noteq> []" "seg_end sg = pos + m" "seg_ok sg" "fits M sg" "seg_cap sg = runCap"
        "0 < m" "m \<le> length q" "r0 = r\<lparr>oooCap := oooCap r + runCap\<rparr>"
      using newRun_spec [OF n L(7) run(1)] by auto
    define c1 where "c1 = c\<lparr>copied := copied c + m\<rparr>"
    define r1 where "r1 = r0\<lparr>ooq := segList_insert i sg (ooq r0)\<rparr>"
    have o1: "ooq r1 = (L @ [sg]) @ R" using L(1,2) ns(9) by (simp add: r1_def segList_insert_def)
    have "inserted lim M lo (L @ [sg]) R (pos + m) (drop m q) (c1, r1)
        (insert_loop lim (i + 1) (pos + m) (drop m q) c1 r1)"
      unfolding c1_def r1_def
      by (rule 1(2) [OF run n [symmetric] refl refl]) (use o1 ns L qfits_drop in \<open>auto simp: r1_def asc_append\<close>)
    moreover have "insert_loop lim i pos q c r = insert_loop lim (i + 1) (pos + m) (drop m q) c1 r1"
      using run(1) n by (subst insert_loop.simps) (simp only: run if_False prod.case Let_def c1_def r1_def)
    ultimately show ?thesis
      by (simp only:) (erule inserted_step, use ns run(3) in \<open>auto simp: c1_def r1_def covers_def\<close>)
  qed
qed

end
