(* ===== verification/Sess_Data.thy ===== *)
theory Sess_Data
  imports Sess_Place
begin

text \<open>
  One DATA call: the placement of a whole frame (\<open>copyPieces\<close>, \<open>keepRef\<close>, \<open>place\<close>), the calls around it and the
  properties of the receive path.
\<close>

section \<open>Copying the pieces of a frame\<close>

lemma frame_fields:
  assumes "frame_of r r'"
  shows "rRead r' = rRead r" "rightEdge r' = rightEdge r" "peerFin r' = peerFin r" "peerFinSet r' = peerFinSet r"
    "peerFinDelivered r' = peerFinDelivered r" "discard r' = discard r" "rcopying r' = rcopying r" "closed r' = closed r"
    "ended r' = ended r" "ackBumped r' = ackBumped r" "delivered r' = delivered r"
  using assms unfolding frame_of_def by (cases r; cases r'; simp)+

lemma appendCopy_spec:
  assumes core: "core M r" and pos: "pos = rTail r" and q: "q \<noteq> []" "qfits M pos q" and beyond: "asc (pos + length q) (ooq r)"
  shows "pstep lim M {pos ..< pos + length q} (c, r) (appendCopy pos q (c, r)) \<and>
    pos + length q \<le> rTail (snd (appendCopy pos q (c, r)))"
proof -
  obtain a where a: "a \<le> rRead r" "contig a (inq r) pos" using core pos by (auto simp: core_def)
  obtain c1 r1 where l: "append_loop pos q c r = (c1, r1)" by (cases "append_loop pos q c r")
  have ap: "contig a (inq r1) (pos + length q)" "segs_inv M (inq r1)"
      "oooCap r1 - charge (inq r1) = oooCap r - charge (inq r)"
      "r1 = r\<lparr>inq := inq r1, oooCap := oooCap r1\<rparr>" "copied c1 = copied c + length q" "left c1 = left c" "inq r1 \<noteq> []"
    using append_loop_spec [OF a(2), of M q c] core q l by (auto simp: appended_def core_def)
  have keep: "ooq r1 = ooq r" "rRead r1 = rRead r" "rTail r1 = rTail r"
    by (subst ap(4), simp)+
  define r2 where "r2 = r1\<lparr>rTail := rTail r1 + length q, rxBytes := rxBytes r1 + length q\<rparr>"
  have pr: "promoted M a (ooq r) (c1, r2) (promote_loop (ooq r) (c1, r2))"
    by (rule promote_loop_spec) (use ap beyond core pos keep in \<open>auto simp: r2_def core_def\<close>)
  have eq: "appendCopy pos q (c, r) = promote_loop (ooq r) (c1, r2)"
    using l keep by (simp add: appendCopy_def promote_def r2_def)
  have fr: "frame_of r r2" using ap(4) unfolding frame_of_def r2_def by (cases r; cases r1) simp
  have h: "held (inq r) = {a ..< pos}" "held (inq r2) = {a ..< pos + length q}"
    using contig_held [OF a(2)] contig_held [OF ap(1)] by (auto simp: r2_def)
  have ap': "a \<le> pos" using contig_asc [OF a(2)] by simp
  have hh: "allheld (snd (promote_loop (ooq r) (c1, r2))) = allheld r \<union> {pos ..< pos + length q}"
    using pr h ap' by (auto simp: promoted_def allheld_def)
  have tl: "pos + length q \<le> rTail (snd (promote_loop (ooq r) (c1, r2)))"
    using pr pos keep by (simp add: promoted_def r2_def)
  have fr': "frame_of r (snd (promote_loop (ooq r) (c1, r2)))" using pr fr frame_trans by (auto simp: promoted_def)
  have cap: "oooCap (snd (promote_loop (ooq r) (c1, r2))) = charge (inq (snd (promote_loop (ooq r) (c1, r2)))) +
      charge (ooq (snd (promote_loop (ooq r) (c1, r2))))"
    using pr core ap(3) by (simp add: promoted_def r2_def core_def)
  have "core M (snd (promote_loop (ooq r) (c1, r2)))"
    using pr a(1) cap tl pos core frame_fields(1) [OF fr'] by (auto simp: core_def promoted_def)
  then show ?thesis unfolding eq using pr hh tl fr' ap(5,6) pos q(1)
    by (auto simp: pstep_def promoted_def)
qed

lemma insertCopy_spec:
  assumes core: "core M r" and pos: "rTail r < pos" and q: "q \<noteq> []" "qfits M pos q"
    and i: "i \<le> length (ooq r)" "\<And>j. j < i \<Longrightarrow> seg_end (ooq r ! j) \<le> pos" and beyond: "asc (pos + length q) (drop i (ooq r))"
  shows "pstep lim M {pos ..< pos + length q} (c, r) (insertCopy lim i pos q (c, r))"
proof -
  define L where "L = take i (ooq r)"
  define R where "R = drop i (ooq r)"
  have LR: "ooq r = L @ R" "i = length L" using i(1) by (simp_all add: L_def R_def)
  have invs: "asc (Suc (rTail r)) L" "segs_inv M L" "segs_inv M R" using core by (auto simp: core_def LR asc_append)
  have last: "L = [] \<or> seg_end (last L) \<le> pos"
    using i(2) [of "i - 1"] LR by (cases "L = []") (auto simp: last_conv_nth nth_append)
  obtain placed i' c' r' where l: "insert_loop lim i pos q c r = (placed, i', c', r')"
    by (cases "insert_loop lim i pos q c r")
  have "inserted lim M (Suc (rTail r)) L R pos q (c, r) (placed, i', c', r')"
    using insert_loop_spec [OF LR invs(1) _ last invs(2) q(2), of lim c] pos l by simp
  then obtain L' where L': "ooq r' = L' @ R" "i' = length L'" "length L \<le> length L'" "asc (Suc (rTail r)) L'" "segs_inv M L'"
      "L' = [] \<or> seg_end (last L') \<le> pos + length q"
      "held L \<subseteq> held L'" "held L' \<subseteq> held L \<union> {pos ..< pos + length q}"
      "oooCap r' - charge L' = oooCap r - charge L"
      "oooCap r' \<le> lim \<or> oooCap r' = oooCap r \<and> length L' = length L"
      "left c' = left c" "copied c' \<le> copied c + length q" "placed \<longrightarrow> L' \<noteq> []"
      "r' = r\<lparr>ooq := ooq r', oooCap := oooCap r', oooDropped := oooDropped r'\<rparr>"
    using q(1) by (auto simp: inserted_def)
  have keep: "inq r' = inq r" "rTail r' = rTail r" "rRead r' = rRead r" by (subst L'(14), simp)+
  have fr: "frame_of r r'" using L'(14) unfolding frame_of_def by (cases r; cases r') simp
  have "asc (if L' = [] then Suc (rTail r) else seg_end (last L')) R"
    using beyond L'(6) pos asc_mono [of "pos + length q" R] by (auto simp: R_def)
  then have core': "core M r'"
    using core L' invs by (auto simp: core_def keep LR asc_append)
  have cap: "capok lim r \<longrightarrow> capok lim r'" using L'(1,10) LR(1) by (auto simp: capok_def)
  have st: "pstep lim M {pos ..< pos + length q} (c, r) (c', r')"
    using core' L' fr cap LR(1) keep by (auto simp: pstep_def allheld_def)
  show ?thesis
  proof (cases placed)
    case False then show ?thesis using l st by (simp add: insertCopy_def)
  next
    case True
    have "i' - 1 < length (ooq r')" using L'(1,2,13) True by (cases L') auto
    from pstep_trans [OF st mergeFollowers_spec [OF core' this]] show ?thesis
      using True l by (simp add: insertCopy_def)
  qed
qed

text \<open>The offsets of a frame from \<open>pos\<close> on that no segment holds.\<close>

definition unheld :: "nat \<Rightarrow> nat \<Rightarrow> rcv \<Rightarrow> nat set" where
  "unheld pos e r = {pos ..< e} - allheld r"

lemma finite_unheld [simp]: "finite (unheld pos e r)"
  by (simp add: unheld_def)

lemma allheld_bounds: "core M r \<Longrightarrow> x \<in> held (ooq r) \<Longrightarrow> rTail r < x"
  by (auto simp: core_def held_def covers_def dest!: asc_bounds)

lemma gap_unheld:
  assumes core: "core M r" and pos: "rTail r \<le> pos"
    and i: "\<And>j. j < i \<Longrightarrow> seg_end (ooq r ! j) \<le> pos" "i \<le> length (ooq r)" and beyond: "asc stop (drop i (ooq r))"
  shows "{pos ..< stop} \<inter> allheld r = {}"
proof -
  have "held (inq r) \<subseteq> {..< rTail r}" using core contig_held by (auto simp: core_def)
  moreover have "x < pos \<or> stop \<le> x" if "x \<in> held (ooq r)" for x
  proof -
    from that obtain j where j: "j < length (ooq r)" "x \<in> covers (ooq r ! j)"
      by (auto simp: held_def in_set_conv_nth)
    show ?thesis
    proof (cases "j < i")
      case True then show ?thesis using i(1) [of j] j by (auto simp: covers_def)
    next
      case False
      then have "ooq r ! j \<in> set (drop i (ooq r))" using j unfolding in_set_drop_nth by (intro exI [of _ j]) simp
      from asc_bounds [OF beyond this] show ?thesis using j by (auto simp: covers_def)
    qed
  qed
  ultimately show ?thesis using pos by (fastforce simp: allheld_def)
qed

definition pfits :: "(nat \<Rightarrow> byte option) \<Rightarrow> nat \<Rightarrow> nat \<Rightarrow> byte list \<Rightarrow> bool" where
  "pfits M lo off p = (\<forall>k < length p. lo \<le> off + k \<longrightarrow> M (off + k) = Some (p ! k))"

lemma pfits_slice:
  assumes "pfits M lo off p" "lo \<le> pos" "off \<le> pos" "stop \<le> off + length p"
  shows "qfits M pos (bslice p (pos - off) (stop - off))"
  unfolding qfits_def
proof (intro allI impI)
  fix k assume k: "k < length (bslice p (pos - off) (stop - off))"
  then have "M (off + (pos - off + k)) = Some (p ! (pos - off + k))"
    using assms(2-4) by (intro assms(1) [unfolded pfits_def, rule_format]) auto
  then show "M (pos + k) = Some (bslice p (pos - off) (stop - off) ! k)"
    using k assms by (subst nth_bslice) auto
qed

lemma asc_head: "asc lo l \<Longrightarrow> (l \<noteq> [] \<Longrightarrow> lo' \<le> seg_off (hd l)) \<Longrightarrow> asc lo' l"
  by (cases l) auto

lemma copyPieces_spec:
  "core M (snd cr) \<Longrightarrow> lo \<le> rTail (snd cr) \<Longrightarrow> off \<le> pos \<Longrightarrow> pfits M lo off p \<Longrightarrow>
    pstep lim M (unheld pos (off + length p) (snd cr)) cr (copyPieces lim off p pos cr) \<and>
    (pos \<le> rTail (snd cr) \<longrightarrow> off + length p \<le> rTail (snd (copyPieces lim off p pos cr)))"
proof (induction lim off p pos cr rule: copyPieces.induct)
  case (1 lim off p pos cr)
  define r where "r = snd cr"
  define e where "e = off + length p"
  define i where "i = segList_after pos (ooq r)"
  have core: "core M r" and asc: "asc (Suc (rTail r)) (ooq r)" using 1(4) by (auto simp: r_def core_def)
  have sp: "i \<le> length (ooq r)" "\<And>j. j < i \<Longrightarrow> seg_end (ooq r ! j) \<le> pos" "i < length (ooq r) \<Longrightarrow> pos < seg_end (ooq r ! i)"
    using after_spec [OF asc, of pos] by (auto simp: i_def)
  consider (fin) "\<not> pos < e" | (tail) "pos < e" "pos < rTail r"
    | (skip) "pos < e" "\<not> pos < rTail r" "i < length (ooq r) \<and> seg_off (ooq r ! i) \<le> pos"
    | (piece) "pos < e" "\<not> pos < rTail r" "\<not> (i < length (ooq r) \<and> seg_off (ooq r ! i) \<le> pos)" by blast
  then show ?case
  proof cases
    case fin
    then have "copyPieces lim off p pos cr = cr" by (subst copyPieces.simps) (simp add: e_def)
    then show ?thesis using fin 1(4) by (auto simp: pstep_refl e_def r_def)
  next
    case tail
    have eq: "copyPieces lim off p pos cr = copyPieces lim off p (rTail r) cr"
      using tail by (subst copyPieces.simps) (simp add: e_def r_def)
    have "pstep lim M (unheld (rTail r) e r) cr (copyPieces lim off p (rTail r) cr) \<and>
        e \<le> rTail (snd (copyPieces lim off p (rTail r) cr))"
      using 1(1) [OF r_def e_def tail] 1(4-7) tail by (simp add: r_def e_def)
    moreover have "unheld (rTail r) e r \<subseteq> unheld pos e r" using tail by (auto simp: unheld_def)
    ultimately show ?thesis unfolding eq by (auto simp: r_def e_def intro: pstep_mono)
  next
    case skip
    have eq: "copyPieces lim off p pos cr = copyPieces lim off p (seg_end (ooq r ! i)) cr"
      using skip by (subst copyPieces.simps) (simp add: e_def r_def i_def Let_def)
    have past: "pos < seg_end (ooq r ! i)" using sp(3) skip by simp
    have far: "rTail r < pos" using asc_bounds [OF asc, of "ooq r ! i"] skip by auto
    have "pstep lim M (unheld (seg_end (ooq r ! i)) e r) cr (copyPieces lim off p (seg_end (ooq r ! i)) cr)"
      using 1(2) [OF r_def e_def skip(1,2) i_def skip(3)] 1(4-7) past by (simp add: r_def e_def)
    moreover have "unheld (seg_end (ooq r ! i)) e r \<subseteq> unheld pos e r" using past by (auto simp: unheld_def)
    ultimately show ?thesis unfolding eq using far by (auto simp: r_def e_def intro: pstep_mono)
  next
    case piece
    define stop where "stop = (if i < length (ooq r) then min e (seg_off (ooq r ! i)) else e)"
    define q where "q = bslice p (pos - off) (stop - off)"
    define cr1 where "cr1 = (if pos = rTail r then appendCopy pos q cr else insertCopy lim i pos q cr)"
    have eq: "copyPieces lim off p pos cr = copyPieces lim off p stop cr1"
      by (subst copyPieces.simps)
        (simp only: Let_def r_def [symmetric] e_def [symmetric] i_def [symmetric] piece if_True if_False
          stop_def [symmetric] q_def [symmetric] cr1_def [symmetric])
    have stop: "pos < stop" "stop \<le> e" using piece by (auto simp: stop_def)
    have len: "length q = stop - pos" using stop 1(6) by (auto simp: q_def e_def)
    have "length q \<noteq> 0" using len stop by simp
    then have qf1: "q \<noteq> []" by simp
    have qf2: "qfits M pos q"
      using pfits_slice [OF 1(7), of pos stop] 1(5,6) piece(2) stop by (auto simp: q_def e_def r_def)
    have beyond: "asc stop (drop i (ooq r))"
      by (rule asc_head [OF asc_drop [OF asc]]) (auto simp: stop_def hd_drop_conv_nth)
    have gap: "{pos ..< stop} \<inter> allheld r = {}"
      by (rule gap_unheld [OF core _ sp(2,1) beyond]) (use piece in auto)
    have s1: "pstep lim M {pos ..< stop} cr cr1 \<and> (pos = rTail r \<longrightarrow> stop \<le> rTail (snd cr1))"
    proof (cases "pos = rTail r")
      case True
      have "i = 0"
      proof (rule ccontr)
        assume "i \<noteq> 0"
        then have "seg_end (ooq r ! 0) \<le> rTail r" "ooq r ! 0 \<in> set (ooq r)" using sp(1) sp(2) [of 0] True by (auto intro!: nth_mem)
        then show False using asc_bounds [OF asc, of "ooq r ! 0"] by simp
      qed
      then have "asc (pos + length q) (ooq r)" using beyond len stop by simp
      then show ?thesis using appendCopy_spec [OF core True qf1 qf2, of lim "fst cr"] True len stop
        by (simp add: cr1_def r_def)
    next
      case False
      then show ?thesis using insertCopy_spec [OF core _ qf1 qf2 sp(1,2), of lim "fst cr"] beyond piece len stop
        by (simp add: cr1_def r_def)
    qed
    have core1: "core M (snd cr1)" "rTail r \<le> rTail (snd cr1)" "allheld r \<subseteq> allheld (snd cr1)"
      using s1 by (auto simp: pstep_def r_def)
    have s2: "pstep lim M (unheld stop e (snd cr1)) cr1 (copyPieces lim off p stop cr1) \<and>
        (stop \<le> rTail (snd cr1) \<longrightarrow> e \<le> rTail (snd (copyPieces lim off p stop cr1)))"
      using 1(3) [OF r_def e_def piece(1,2) i_def piece(3) stop_def q_def] core1 1(4-7) stop
      by (simp add: cr1_def r_def e_def)
    have "pstep lim M ({pos ..< stop} \<union> unheld stop e (snd cr1)) cr (copyPieces lim off p stop cr1)"
      by (rule pstep_trans [of _ _ _ _ cr1]) (use s1 s2 in \<open>auto simp: unheld_def\<close>)
    moreover have "{pos ..< stop} \<union> unheld stop e (snd cr1) \<subseteq> unheld pos e r"
      using gap core1(3) stop by (auto simp: unheld_def)
    ultimately show ?thesis unfolding eq using s1 s2 piece(2) by (auto simp: r_def e_def intro: pstep_mono)
  qed
qed

end
