(* ===== verification/Sess_Ref.thy ===== *)
theory Sess_Ref
  imports Sess_Data
begin

text \<open>
  A frame kept by reference, and the placement of a frame as a whole: \<open>heldIn\<close>, \<open>keepRef\<close> and \<open>place\<close>.
\<close>

section \<open>What of a frame is held\<close>

lemma heldIn_loop_spec:
  "asc lo R \<Longrightarrow> h_x h = e \<Longrightarrow>
    \<exists>k \<le> length R. heldIn_loop e R h = h\<lparr>h_b := h_b h + k, h_bytes := h_bytes h + segList_bytes (take k R),
        h_charge := h_charge h + charge (take k R),
        h_x := (if k < length R \<and> seg_off (R ! k) < e then seg_off (R ! k) else e)\<rparr> \<and>
      (\<forall>j < k. seg_end (R ! j) \<le> e) \<and> (k < length R \<longrightarrow> e < seg_end (R ! k))"
proof (induction R arbitrary: lo h)
  case Nil then show ?case by (cases h) (simp add: segList_bytes_def)
next
  case (Cons sg R)
  consider (past) "\<not> seg_off sg < e" | (straddle) "seg_off sg < e" "seg_end sg > e" | (inside) "seg_off sg < e" "seg_end sg \<le> e"
    by linarith
  then show ?case
  proof cases
    case past
    then have "e < seg_end sg" using Cons.prems(1) by (cases "seg_b sg") (auto simp: seg_end_def)
    then show ?thesis using past Cons.prems by (intro exI [of _ 0]) (cases h, simp add: segList_bytes_def)
  next
    case straddle
    then show ?thesis using Cons.prems by (intro exI [of _ 0]) (cases h, simp add: segList_bytes_def)
  next
    case inside
    define h1 where "h1 = h\<lparr>h_bytes := h_bytes h + length (seg_b sg), h_charge := h_charge h + segCap sg, h_b := h_b h + 1\<rparr>"
    have "asc (seg_end sg) R" "h_x h1 = e" using Cons.prems by (auto simp: h1_def)
    from Cons.IH [OF this] obtain k where k: "k \<le> length R"
      "heldIn_loop e R h1 = h1\<lparr>h_b := h_b h1 + k, h_bytes := h_bytes h1 + segList_bytes (take k R),
        h_charge := h_charge h1 + charge (take k R),
        h_x := (if k < length R \<and> seg_off (R ! k) < e then seg_off (R ! k) else e)\<rparr>"
      "\<forall>j < k. seg_end (R ! j) \<le> e" "k < length R \<longrightarrow> e < seg_end (R ! k)" by blast
    have "heldIn_loop e (sg # R) h = heldIn_loop e R h1" using inside by (simp add: h1_def)
    then show ?thesis using k inside
      by (intro exI [of _ "Suc k"]) (auto simp: h1_def segList_bytes_def less_Suc_eq_0_disj)
  qed
qed

lemma held_card: "asc lo l \<Longrightarrow> finite (held l) \<and> card (held l) = segList_bytes l"
proof (induction l arbitrary: lo)
  case Nil then show ?case by (simp add: segList_bytes_def)
next
  case (Cons sg l)
  have disj: "covers sg \<inter> held l = {}"
    using Cons.prems by (fastforce simp: held_def covers_def dest: asc_bounds)
  have "finite (covers sg)" "card (covers sg) = length (seg_b sg)" by (simp_all add: covers_def seg_end_def)
  then show ?case using Cons.IH [of "seg_end sg"] Cons.prems disj
    by (simp add: card_Un_disjoint segList_bytes_def)
qed

text \<open>The parts of \<open>ooq\<close> around a frame: \<open>L\<close> before it, \<open>D\<close> inside \<open>[s0, x)\<close>, \<open>R\<close> from \<open>x\<close> on.\<close>

lemma heldIn_spec:
  assumes core: "core M r" and start: "rTail r \<le> start" "start < e"
  defines "h \<equiv> heldIn start e r"
  obtains L D R where "ooq r = L @ D @ R" "h_a h = length L" "h_b h = length L + length D" "h_charge h = charge D"
    "start \<le> h_s0 h" "h_x h \<le> e" "\<forall>sg \<in> set L. seg_end sg \<le> h_s0 h"
    "asc (h_s0 h) (D @ R)" "\<forall>sg \<in> set D. seg_end sg \<le> h_x h" "asc (h_x h) R"
    "{start ..< e} - {h_s0 h ..< h_x h} \<subseteq> allheld r" "newBytes h = card (unheld start e r)"
    "h_s0 h = rTail r \<longrightarrow> L = []"
proof -
  have asc: "asc (Suc (rTail r)) (ooq r)" using core by (simp add: core_def)
  define i where "i = segList_after start (ooq r)"
  define str where "str = (i < length (ooq r) \<and> seg_off (ooq r ! i) < start)"
  define s0 where "s0 = (if str then seg_end (ooq r ! i) else start)"
  define a where "a = (if str then i + 1 else i)"
  define T where "T = drop a (ooq r)"
  define L where "L = take a (ooq r)"
  have sp: "i \<le> length (ooq r)" "\<And>j. j < i \<Longrightarrow> seg_end (ooq r ! j) \<le> start" "i < length (ooq r) \<Longrightarrow> start < seg_end (ooq r ! i)"
    using after_spec [OF asc, of start] by (auto simp: i_def)
  have s0: "start \<le> s0" using sp(3) by (auto simp: s0_def str_def)
  have a: "a \<le> length (ooq r)" using sp(1) by (auto simp: a_def str_def)
  have ascT: "asc s0 T"
  proof (rule asc_head [of "Suc (rTail r)"])
    show "asc (Suc (rTail r)) T" by (simp add: T_def asc_drop [OF asc])
    assume "T \<noteq> []"
    then have al: "a < length (ooq r)" "hd T = ooq r ! a" by (auto simp: T_def hd_drop_conv_nth)
    show "s0 \<le> seg_off (hd T)"
      using al asc_sorted [OF asc, of i "i + 1"] by (auto simp: s0_def a_def str_def split: if_splits)
  qed
  define h0 where "h0 = \<lparr>h_s0 = s0, h_x = e, h_a = a, h_b = a, h_bytes = 0, h_charge = 0\<rparr>"
  have h: "h = heldIn_loop e T h0"
    by (simp only: h_def heldIn_def Let_def h0_def T_def i_def [symmetric] str_def [symmetric] s0_def [symmetric] a_def [symmetric])
  obtain k where k: "k \<le> length T" "h = h0\<lparr>h_b := h_b h0 + k, h_bytes := h_bytes h0 + segList_bytes (take k T),
        h_charge := h_charge h0 + charge (take k T),
        h_x := (if k < length T \<and> seg_off (T ! k) < e then seg_off (T ! k) else e)\<rparr>"
      "\<forall>j < k. seg_end (T ! j) \<le> e" "k < length T \<longrightarrow> e < seg_end (T ! k)"
    using heldIn_loop_spec [OF ascT, of h0 e] by (auto simp: h h0_def)
  define D where "D = take k T"
  define R where "R = drop k T"
  define x where "x = h_x h"
  have x: "x = (if k < length T \<and> seg_off (T ! k) < e then seg_off (T ! k) else e)" using k(2) by (simp add: x_def)
  have xe: "x \<le> e" by (simp add: x)
  have flds: "h_s0 h = s0" "h_a h = a" "h_b h = a + length D" "h_charge h = charge D" "h_bytes h = segList_bytes D"
    using k by (auto simp: h0_def D_def)
  have ooq: "ooq r = L @ D @ R" unfolding D_def R_def append_take_drop_id by (simp add: L_def T_def)
  have lenL: "length L = a" using a by (simp add: L_def)
  have Lend: "seg_end sg \<le> s0" if sg: "sg \<in> set L" for sg
  proof -
    obtain j where j: "j < a" "ooq r ! j = sg" using sg lenL by (auto simp: L_def in_set_conv_nth)
    then show ?thesis using sp(2) [of j] s0 by (cases "j = i") (auto simp: a_def s0_def split: if_splits)
  qed
  have Dend: "seg_end sg \<le> x" if sg: "sg \<in> set D" for sg
  proof -
    obtain j where j: "j < k" "T ! j = sg" using sg k(1) by (auto simp: D_def in_set_conv_nth)
    then show ?thesis using k(3) asc_sorted [OF ascT, of j k] by (auto simp: x)
  qed
  have ascR: "asc x R"
    unfolding R_def by (rule asc_head [OF asc_drop [OF ascT]]) (auto simp: x hd_drop_conv_nth)
  have ascDR: "asc s0 (D @ R)" using ascT by (simp add: D_def R_def)
  have outside: "{start ..< e} - {s0 ..< x} \<subseteq> allheld r"
  proof
    fix y assume y: "y \<in> {start ..< e} - {s0 ..< x}"
    then consider "y < s0" | "x \<le> y" by fastforce
    then have "\<exists>sg \<in> set (ooq r). seg_off sg \<le> y \<and> y < seg_end sg"
    proof cases
      case 1
      then have "str" using y by (auto simp: s0_def split: if_splits)
      then show ?thesis using 1 y by (intro bexI [of _ "ooq r ! i"]) (auto simp: str_def s0_def)
    next
      case 2
      then have kT: "k < length T" "seg_off (T ! k) = x" using y by (auto simp: x split: if_splits)
      have "T ! k \<in> set (ooq r)" using nth_mem [OF kT(1)] by (auto simp: T_def dest: in_set_dropD)
      then show ?thesis using 2 y kT k(4) by (intro bexI [of _ "T ! k"]) auto
    qed
    then show "y \<in> allheld r" by (auto simp: allheld_def held_def covers_def)
  qed
  have ascD: "asc s0 D" using ascDR by (simp add: asc_append)
  have heldD: "held D \<subseteq> {s0 ..< x}"
    using asc_bounds [OF ascD] Dend by (fastforce simp: held_def covers_def)
  have un: "unheld start e r = {s0 ..< x} - held D"
  proof
    show "unheld start e r \<subseteq> {s0 ..< x} - held D" using outside by (auto simp: unheld_def allheld_def ooq)
    have "y \<notin> allheld r" if y: "s0 \<le> y" "y < x" "y \<notin> held D" for y
    proof -
      have "y \<notin> held (inq r)" using core contig_held y s0 start by (fastforce simp: core_def)
      moreover have "y \<notin> held L" using Lend y by (fastforce simp: held_def covers_def)
      moreover have "y \<notin> held R" using asc_bounds [OF ascR] y by (fastforce simp: held_def covers_def)
      ultimately show ?thesis using y by (simp add: allheld_def ooq)
    qed
    then show "{s0 ..< x} - held D \<subseteq> unheld start e r" using s0 xe by (auto simp: unheld_def)
  qed
  have new: "newBytes h = card (unheld start e r)"
    using held_card [OF ascD] heldD by (auto simp: newBytes_def un flds x_def [symmetric] card_Diff_subset)
  have nil: "s0 = rTail r \<longrightarrow> L = []"
  proof (rule impI, rule ccontr)
    assume "s0 = rTail r" "L \<noteq> []"
    then have "last L \<in> set (ooq r)" "seg_end (last L) \<le> rTail r" using Lend [of "last L"] by (auto simp: ooq)
    then show False using asc_bounds [OF asc, of "last L"] by simp
  qed
  show ?thesis
    by (rule that [of L D R])
      (use ooq lenL flds s0 xe Lend Dend ascDR ascR outside new nil in \<open>auto simp: x_def [symmetric]\<close>)
qed

section \<open>Keeping a frame by reference\<close>

lemma tail_unheld: "core M r \<Longrightarrow> rTail r \<notin> allheld r"
  using allheld_bounds [of M r "rTail r"] contig_held by (fastforce simp: core_def allheld_def)

lemma segCap_fun: "segCap = seg_cap"
  by (rule ext) simp

lemma release_mid:
  assumes "ooq r = L @ D @ R" "a = length L" "b = length L + length D"
  shows "releaseOOORange a b r = r\<lparr>oooCap := oooCap r - charge D, ooq := L @ R\<rparr>"
proof -
  have "bslice (ooq r) a b = D" using assms by (simp add: bslice_def)
  moreover have "segList_cut a b (ooq r) = L @ R" using assms by (cases D) (auto simp: segList_cut_def)
  ultimately show ?thesis by (simp add: releaseOOORange_def charge_def segCap_fun)
qed

lemma keepRef_spec:
  assumes core: "core M r" and e: "e = off + length p" and start: "start = max off (rTail r)" "start < e"
    and pf: "pfits M (rTail r) off p" and bc: "length p \<le> bc"
  defines "h \<equiv> heldIn start e r"
  assumes new: "h_s0 h < h_x h"
  shows "pstep lim M (unheld start e r) (c, r) (keepRef lim off p bc h n (c, r)) \<and>
    (off \<le> rTail r \<longrightarrow> e \<le> rTail (snd (keepRef lim off p bc h n (c, r)))) \<and>
    int (copied (fst (keepRef lim off p bc h n (c, r)))) + left (fst (keepRef lim off p bc h n (c, r))) \<le>
      int (copied c) + left c"
proof -
  obtain L D R where
    ooq: "ooq r = L @ D @ R" and ab: "h_a h = length L" "h_b h = length L + length D" and ch: "h_charge h = charge D"
    and s0: "start \<le> h_s0 h" and xe: "h_x h \<le> e" and Lend: "\<forall>sg \<in> set L. seg_end sg \<le> h_s0 h"
    and DR: "asc (h_s0 h) (D @ R)" "\<forall>sg \<in> set D. seg_end sg \<le> h_x h" "asc (h_x h) R"
    and out: "{start ..< e} - {h_s0 h ..< h_x h} \<subseteq> allheld r" and nil: "h_s0 h = rTail r \<longrightarrow> L = []"
    using heldIn_spec [OF core, of start e] start h_def by (metis max.cobounded2)
  define sg where "sg = \<lparr>seg_off = h_s0 h, seg_b = bslice p (h_s0 h - off) (h_x h - off),
               seg_bcap = bc - (h_s0 h - off), seg_cap = int bc, seg_run = False\<rparr>"
  have off: "off \<le> h_s0 h" "rTail r \<le> h_s0 h" using s0 start by auto
  have len: "length (seg_b sg) = h_x h - h_s0 h" using off xe new e by (auto simp: sg_def)
  have sg: "seg_off sg = h_s0 h" "seg_cap sg = int bc" by (simp_all add: sg_def)
  have sgb: "seg_end sg = h_x h" "seg_b sg \<noteq> []"
    using len new sg(1) unfolding seg_end_def by (simp, cases "seg_b sg") auto
  have sgok: "fits M sg" "seg_ok sg"
  proof -
    show "fits M sg" using pfits_slice [OF pf off(2,1), of "h_x h"] xe e by (simp add: fits_qfits sg_def)
    show "seg_ok sg" using len off xe e bc by (auto simp: seg_ok_def sg_def)
  qed
  have cov: "covers sg = {h_s0 h ..< h_x h}" by (simp add: covers_def sg sgb)
  have heldD: "held D \<subseteq> covers sg"
  proof
    fix y assume "y \<in> held D"
    then obtain s1 where s1: "s1 \<in> set D" "seg_off s1 \<le> y" "y < seg_end s1" by (auto simp: held_def covers_def)
    moreover have "h_s0 h \<le> seg_off s1" using asc_bounds [of "h_s0 h" D s1] DR(1) s1(1) by (simp add: asc_append)
    moreover have "seg_end s1 \<le> h_x h" using DR(2) s1(1) by blast
    ultimately show "y \<in> covers sg" by (simp add: cov)
  qed
  have rel: "releaseOOORange (h_a h) (h_b h) r = r\<lparr>oooCap := oooCap r - charge D, ooq := L @ R\<rparr>"
    by (rule release_mid [OF ooq ab])
  have invs: "segs_inv M L" "segs_inv M R" "asc (Suc (rTail r)) L" using core by (auto simp: core_def ooq asc_append)
  have inN: "covers sg \<subseteq> allheld r \<union> unheld start e r" using s0 xe by (auto simp: cov unheld_def)
  show ?thesis
  proof (cases "h_s0 h = rTail r")
    case True
    then have L: "L = []" using nil by simp
    obtain a where a: "a \<le> rRead r" "contig a (inq r) (rTail r)" using core by (auto simp: core_def)
    define r1 where "r1 = r\<lparr>ooq := R, inq := inq r @ [sg], oooCap := oooCap r - charge D + int bc,
        rxBytes := rxBytes r + (h_x h - h_s0 h), rTail := h_x h\<rparr>"
    have eq: "keepRef lim off p bc h n (c, r) = promote_loop R (c, r1)"
      using True rel L by (simp add: keepRef_def sg_def promote_def r1_def Let_def)
    have pr: "promoted M a R (c, r1) (promote_loop R (c, r1))"
      by (rule promote_loop_spec)
        (use a sg sgb sgok invs DR True core in \<open>auto simp: r1_def contig_snoc core_def\<close>)
    define r2 where "r2 = snd (promote_loop R (c, r1))"
    have fr: "frame_of r r2" using pr frame_trans [of r r1 r2] by (auto simp: promoted_def r2_def r1_def frame_of_def)
    have tl: "rTail r < rTail r2" using pr new True by (simp add: promoted_def r2_def r1_def)
    have core2: "core M r2"
      using pr a(1) core tl frame_fields(1) [OF fr] sg(2) by (auto simp: promoted_def r2_def r1_def core_def ooq L)
    have hh: "allheld r2 = allheld r \<union> covers sg"
      using pr heldD by (auto simp: promoted_def r2_def r1_def allheld_def ooq L)
    have "pstep lim M (unheld start e r) (c, r) (promote_loop R (c, r1))"
      using pr core2 hh inN tl fr by (auto simp: pstep_def r2_def promoted_def)
    moreover have "e \<le> rTail r2" if "off \<le> rTail r"
    proof (rule ccontr)
      assume "\<not> e \<le> rTail r2"
      then have "rTail r2 \<in> {start ..< e}" using that start tl by auto
      then have "rTail r2 \<in> allheld r2" using out hh cov by auto
      then show False using tail_unheld [OF core2] by simp
    qed
    ultimately show ?thesis unfolding eq r2_def using pr by (simp add: promoted_def)
  next
    case far: False
    then have gt: "rTail r < h_s0 h" using off by simp
    have noprog: "\<not> off \<le> rTail r"
    proof
      assume "off \<le> rTail r"
      then have "rTail r \<in> {start ..< e} - {h_s0 h ..< h_x h}" using start gt by auto
      then show False using out tail_unheld [OF core] by auto
    qed
    show ?thesis
    proof (cases "oooCap r - h_charge h + int bc > lim")
      case True
      have "keepRef lim off p bc h n (c, r) = (c, r\<lparr>oooDropped := oooDropped r + n\<rparr>)"
        using far True by (simp add: keepRef_def Let_def)
      moreover have "pstep lim M (unheld start e r) (c, r) (c, r\<lparr>oooDropped := oooDropped r + n\<rparr>)"
        using core by (auto simp: pstep_def core_def allheld_def frame_of_def capok_def)
      ultimately show ?thesis using noprog by simp
    next
      case fit: False
      define r1 where "r1 = r\<lparr>ooq := L @ sg # R, oooCap := oooCap r - charge D + int bc\<rparr>"
      have eq: "keepRef lim off p bc h n (c, r) = mergeFollowers (length L) (c, r1)"
        using far fit rel ab(1)
        by (simp add: keepRef_def sg_def r1_def segList_insert_def Let_def)
      have "asc (if L = [] then Suc (rTail r) else seg_end (last L)) (sg # R)"
        using Lend sg sgb DR(3) gt by auto
      then have core1: "core M r1" using core invs sgok sg(2) by (auto simp: core_def r1_def ooq asc_append)
      have st: "pstep lim M (unheld start e r) (c, r) (c, r1)"
        using core1 heldD inN fit ch by (auto simp: pstep_def r1_def allheld_def ooq frame_of_def capok_def)
      have "length L < length (ooq r1)" by (simp add: r1_def)
      then have mg: "pstep lim M {} (c, r1) (mergeFollowers (length L) (c, r1))" by (rule mergeFollowers_spec [OF core1])
      from pstep_trans [OF st mg] show ?thesis unfolding eq using noprog mg by (simp add: pstep_def)
    qed
  qed
qed

section \<open>The placement of a frame\<close>

lemma raceDup_part: "raceDup ev d False r = r\<lparr>dupBytes := dupBytes r + d\<rparr>"
  by (simp add: raceDup_def Let_def)

lemma core_dup [simp]: "core M (r\<lparr>dupBytes := d\<rparr>) \<longleftrightarrow> core M r"
  by (simp add: core_def)

lemma copyPieces_start:
  "copyPieces lim off p off cr = copyPieces lim off p (max off (rTail (snd cr))) cr"
  if "max off (rTail (snd cr)) < off + length p"
proof (cases "off < rTail (snd cr)")
  case True
  then have "p \<noteq> []" using that by auto
  then show ?thesis using True by (subst copyPieces.simps) (simp add: Let_def max_def)
qed (simp add: max_def)

text \<open>What \<open>place\<close> guarantees for a frame that reaches beyond \<open>rTail\<close>.\<close>

lemma place_spec:
  assumes core: "core M r" and e: "e = off + length p" "rTail r < e" and p: "p \<noteq> []" and pf: "pfits M (rTail r) off p"
    and buf: "\<And>bc. buf = Some bc \<Longrightarrow> length p \<le> bc" "buf = None \<Longrightarrow> length p < runSize"
  defines "start \<equiv> max off (rTail r)"
  shows "\<exists>d c. pstep (recvLimit ev) M (unheld start e r) (c, r\<lparr>dupBytes := d\<rparr>) (place ev off p buf r) \<and>
    (off \<le> rTail r \<longrightarrow> e \<le> rTail (snd (place ev off p buf r))) \<and> copied (fst (place ev off p buf r)) \<le> copyBudget"
proof -
  define h where "h = heldIn start e r"
  define n where "n = newBytes h"
  define d where "d = (start - off) + (e - start - n)"
  define r0 where "r0 = r\<lparr>dupBytes := dupBytes r + d\<rparr>"
  define c0 where "c0 = \<lparr>left = int copyBudget, copied = 0\<rparr>"
  have st: "start < e" using e p by (auto simp: start_def)
  have un: "unheld start e r0 = unheld start e r" by (simp add: unheld_def allheld_def r0_def)
  have n: "n = card (unheld start e r)"
    using heldIn_spec [OF core, of start e] st by (metis h_def max.cobounded2 n_def start_def)
  have "unheld start e r \<subseteq> {off ..< e}" by (auto simp: unheld_def start_def)
  then have nlen: "n \<le> length p" using card_mono [of "{off ..< e}" "unheld start e r"] n e by simp
  have r0: "core M r0" "rTail r0 = rTail r" "heldIn start e r0 = h"
    using core by (auto simp: r0_def h_def heldIn_def)
  have eqr: "(if 0 < d then raceDup ev d False r else r) = r0" by (simp add: raceDup_part r0_def)
  have copy: "pstep (recvLimit ev) M (unheld start e r) (c1, r0) (copyPieces (recvLimit ev) off p off (c1, r0)) \<and>
      (off \<le> rTail r \<longrightarrow> e \<le> rTail (snd (copyPieces (recvLimit ev) off p off (c1, r0)))) \<and>
      copied (fst (copyPieces (recvLimit ev) off p off (c1, r0))) \<le> copyBudget"
    if small: "n \<le> copyBudget" and c1: "c1 = c0\<lparr>left := left c0 - int n\<rparr>" for c1
  proof -
    have cp: "copyPieces (recvLimit ev) off p off (c1, r0) = copyPieces (recvLimit ev) off p start (c1, r0)"
      using copyPieces_start [of off "(c1, r0)" p "recvLimit ev"] st e by (simp add: r0 start_def)
    have sp: "pstep (recvLimit ev) M (unheld start e r) (c1, r0) (copyPieces (recvLimit ev) off p start (c1, r0))"
      "start \<le> rTail r \<longrightarrow> e \<le> rTail (snd (copyPieces (recvLimit ev) off p start (c1, r0)))"
      using copyPieces_spec [of M "(c1, r0)" "rTail r" off start p "recvLimit ev"] r0 pf e un
      by (auto simp: start_def)
    moreover have "copied (fst (copyPieces (recvLimit ev) off p start (c1, r0))) \<le> copyBudget"
      using sp(1) small c1 by (auto simp: pstep_def c0_def n [symmetric])
    ultimately show ?thesis unfolding cp by (auto simp: start_def)
  qed
  show ?thesis
  proof (cases "\<exists>bc. buf = Some bc \<and> n > 0 \<and> (n > copyBudget \<or> byRef h (int bc))")
    case True
    then obtain bc where bc: "buf = Some bc" "n > 0" "n > copyBudget \<or> byRef h (int bc)" by blast
    have pl: "place ev off p buf r = keepRef (recvLimit ev) off p bc h n (c0, r0)"
      unfolding place_def Let_def e(1) [symmetric] start_def [symmetric] h_def [symmetric] n_def [symmetric]
        d_def [symmetric] eqr c0_def [symmetric] using bc by simp
    have s': "start = max off (rTail r0)" by (simp add: start_def r0)
    have new: "h_s0 h < h_x h" using bc(2) by (auto simp: n_def newBytes_def split: if_splits)
    have sp: "pstep (recvLimit ev) M (unheld start e r) (c0, r0) (keepRef (recvLimit ev) off p bc h n (c0, r0)) \<and>
        (off \<le> rTail r \<longrightarrow> e \<le> rTail (snd (keepRef (recvLimit ev) off p bc h n (c0, r0)))) \<and>
        int (copied (fst (keepRef (recvLimit ev) off p bc h n (c0, r0)))) +
          left (fst (keepRef (recvLimit ev) off p bc h n (c0, r0))) \<le> int (copied c0) + left c0"
      by (rule keepRef_spec [OF r0(1) e(1) s' st, unfolded r0(2,3) un, OF pf buf(1) [OF bc(1)] new])
    moreover have "copied (fst (keepRef (recvLimit ev) off p bc h n (c0, r0))) \<le> copyBudget"
      using sp by (auto simp: pstep_def c0_def)
    ultimately show ?thesis unfolding pl r0_def by blast
  next
    case False
    then have small: "n \<le> copyBudget"
      using buf(2) nlen by (cases buf) (auto simp: not_less)
    have pl: "place ev off p buf r = copyPieces (recvLimit ev) off p off (c0\<lparr>left := left c0 - int n\<rparr>, r0)"
      unfolding place_def Let_def e(1) [symmetric] start_def [symmetric] h_def [symmetric] n_def [symmetric]
        d_def [symmetric] eqr c0_def [symmetric] using False by (cases buf) auto
    show ?thesis unfolding pl using copy [OF small refl] unfolding r0_def by blast
  qed
qed

end
