(* ===== verification/Sess_Stream.thy ===== *)
theory Sess_Stream
  imports Sess_Ref
begin

text \<open>
  The properties of the receive side of a stream session: the invariant of every operation, what a frame may and may
  not change, the limits on copying and memory, the errors, and the bytes that \<open>Read\<close> returns over a whole
  history of frames that are lost, repeated, reordered and split in any way.
\<close>

section \<open>The byte held at an offset\<close>

definition content :: "rcv \<Rightarrow> nat \<Rightarrow> byte option" where
  "content r x =
     (case find (\<lambda>sg. seg_off sg \<le> x \<and> x < seg_end sg) (inq r @ ooq r) of
        None \<Rightarrow> None
      | Some sg \<Rightarrow> Some (seg_b sg ! (x - seg_off sg)))"

text \<open>The bytes a \<open>Read\<close> may return now.\<close>

definition readable :: "rcv \<Rightarrow> byte list" where
  "readable r = map (\<lambda>x. the (content r x)) [rRead r ..< rTail r]"

lemma in_allheld: "x \<in> allheld r \<longleftrightarrow> (\<exists>sg \<in> set (inq r @ ooq r). seg_off sg \<le> x \<and> x < seg_end sg)"
  by (auto simp: allheld_def held_def covers_def)

lemma content_None: "content r x = None \<longleftrightarrow> x \<notin> allheld r"
proof -
  have "content r x = None \<longleftrightarrow> find (\<lambda>sg. seg_off sg \<le> x \<and> x < seg_end sg) (inq r @ ooq r) = None"
    by (simp add: content_def split: option.split)
  then show ?thesis unfolding find_None_iff in_allheld by blast
qed

lemma content_eq:
  assumes "core M r" "x \<in> allheld r"
  shows "content r x = M x"
proof -
  obtain sg where f: "find (\<lambda>sg. seg_off sg \<le> x \<and> x < seg_end sg) (inq r @ ooq r) = Some sg"
    using assms(2) content_None [of r x] by (auto simp: content_def split: option.splits)
  then have sg: "sg \<in> set (inq r @ ooq r)" "seg_off sg \<le> x" "x < seg_end sg"
    unfolding find_Some_iff by (metis nth_mem)+
  then have "fits M sg" using assms(1) by (auto simp: core_def segs_inv_def)
  then show ?thesis using f sg fits_at [of M sg x] by (simp add: content_def)
qed

lemma fits_cong:
  assumes "fits M sg" "\<And>x. x \<in> covers sg \<Longrightarrow> M' x = M x"
  shows "fits M' sg"
  using assms by (auto simp: fits_def covers_def seg_end_def)

lemma segs_inv_cong: "segs_inv M l \<Longrightarrow> (\<And>x. x \<in> held l \<Longrightarrow> M' x = M x) \<Longrightarrow> segs_inv M' l"
  unfolding segs_inv_def by (auto simp: held_def intro: fits_cong)

lemma core_cong: "core M r \<Longrightarrow> (\<And>x. x \<in> allheld r \<Longrightarrow> M' x = M x) \<Longrightarrow> core M' r"
  unfolding core_def allheld_def using segs_inv_cong by (metis UnCI)

lemma core_content: "core M r \<Longrightarrow> core (content r) r"
  by (rule core_cong) (auto simp: content_eq)

lemma unread_held: "core M r \<Longrightarrow> rRead r \<le> x \<Longrightarrow> x < rTail r \<Longrightarrow> x \<in> allheld r"
  using contig_held by (fastforce simp: core_def allheld_def)

lemma readable_eq: "core M r \<Longrightarrow> readable r = map (\<lambda>x. the (M x)) [rRead r ..< rTail r]"
  by (auto simp: readable_def content_eq unread_held)

section \<open>The invariant\<close>

definition rinv :: "(nat \<Rightarrow> byte option) \<Rightarrow> rcv \<Rightarrow> bool" where
  "rinv M r \<longleftrightarrow> core M r \<and> rTail r \<le> rightEdge r \<and> allheld r \<subseteq> {..< rightEdge r} \<and> rightEdge r < 2 ^ 64 \<and>
     (peerFinSet r \<longrightarrow> rTail r \<le> peerFin r \<and> peerFin r \<le> rightEdge r \<and> allheld r \<subseteq> {..< peerFin r}) \<and>
     ackBumped r \<le> rRead r \<and> (peerFinDelivered r \<longrightarrow> peerFinSet r \<and> rRead r = peerFin r)"

lemmas state_defs = core_def allheld_def content_def readable_def

text \<open>The acknowledgement machinery does not touch the held data.\<close>

definition same_data :: "rcv \<Rightarrow> rcv \<Rightarrow> bool" where
  "same_data r r' \<longleftrightarrow> rRead r' = rRead r \<and> rTail r' = rTail r \<and> rightEdge r' = rightEdge r \<and> inq r' = inq r \<and>
     ooq r' = ooq r \<and> oooCap r' = oooCap r \<and> peerFin r' = peerFin r \<and> peerFinSet r' = peerFinSet r \<and>
     discard r' = discard r \<and> closed r' = closed r \<and> ended r' = ended r \<and> rcopying r' = rcopying r"

lemma same_data_core: "same_data r r' \<Longrightarrow> core M r' \<longleftrightarrow> core M r"
  by (simp add: same_data_def core_def)

lemma same_data_views:
  assumes "same_data r r'"
  shows "allheld r' = allheld r" "content r' = content r" "readable r' = readable r"
proof -
  show 1: "allheld r' = allheld r" using assms by (simp add: same_data_def allheld_def)
  show 2: "content r' = content r" using assms by (simp add: same_data_def content_def fun_eq_iff)
  show "readable r' = readable r" using assms by (simp add: readable_def 2) (simp add: same_data_def)
qed

lemma same_data_bump: "same_data r (bumpNow ev r)"
  by (simp add: same_data_def bumpNow_def emit_def Let_def)

lemma rinv_bump: "rinv M r \<Longrightarrow> rinv M (bumpNow ev r)"
  by (simp add: rinv_def core_def allheld_def bumpNow_def emit_def Let_def)

lemma same_data_trans: "same_data r r' \<Longrightarrow> same_data r' r'' \<Longrightarrow> same_data r r''"
  by (simp add: same_data_def)

lemma rinv_emit [simp]: "rinv M (emit x r) \<longleftrightarrow> rinv M r"
  by (simp add: rinv_def core_def allheld_def emit_def)

lemma cadence_keeps: "rinv M r \<Longrightarrow> rinv M (ackCadence ev r) \<and> same_data r (ackCadence ev r)"
  using rinv_bump same_data_bump
  by (auto simp: ackCadence_def) (simp_all add: rinv_def core_def allheld_def same_data_def emit_def)

lemma finCheck_keeps: "rinv M r \<Longrightarrow> rinv M (peerFinCheck ev r) \<and> same_data r (peerFinCheck ev r)"
  by (auto simp: peerFinCheck_def bumpNow_def emit_def Let_def same_data_def rinv_def core_def allheld_def)

lemma raceDup_keeps: "rinv M r \<Longrightarrow> rinv M (raceDup ev n w r) \<and> same_data r (raceDup ev n w r)"
  by (auto simp: raceDup_def bumpNow_def emit_def Let_def same_data_def rinv_def core_def allheld_def)

section \<open>Releasing and shedding\<close>

lemma releaseFront_spec:
  "contig a l (rTail r) \<Longrightarrow> a \<le> rRead r \<Longrightarrow> rRead r \<le> rTail r \<Longrightarrow>
    \<exists>l' a'. releaseFront l r = r\<lparr>inq := l', oooCap := oooCap r - charge l + charge l'\<rparr> \<and> contig a' l' (rTail r) \<and>
      a' \<le> rRead r \<and> set l' \<subseteq> set l"
proof (induction l arbitrary: a r)
  case Nil then show ?case by (intro exI [of _ "[]"] exI [of _ a]) auto
next
  case (Cons sg l)
  show ?case
  proof (cases "seg_end sg \<le> rRead r")
    case True
    define r1 where "r1 = r\<lparr>oooCap := oooCap r - seg_cap sg\<rparr>"
    obtain l' a' where IH: "releaseFront l r1 = r1\<lparr>inq := l', oooCap := oooCap r1 - charge l + charge l'\<rparr>"
        "contig a' l' (rTail r1)" "a' \<le> rRead r1" "set l' \<subseteq> set l"
      using Cons.IH [of "seg_end sg" r1] Cons.prems True by (auto simp: r1_def)
    show ?thesis using IH True by (intro exI [of _ l'] exI [of _ a']) (auto simp: r1_def algebra_simps)
  next
    case False
    then show ?thesis using Cons.prems by (intro exI [of _ "sg # l"] exI [of _ a]) auto
  qed
qed

lemma consumed_keeps:
  assumes "rinv M r"
  shows "rinv M (releaseConsumed r) \<and> (\<exists>l c. releaseConsumed r = r\<lparr>inq := l, oooCap := c\<rparr>)"
proof -
  obtain a where a: "a \<le> rRead r" "contig a (inq r) (rTail r)" "rRead r \<le> rTail r"
    using assms by (auto simp: rinv_def core_def)
  obtain l' a' where l: "releaseConsumed r = r\<lparr>inq := l', oooCap := oooCap r - charge (inq r) + charge l'\<rparr>"
      "contig a' l' (rTail r)" "a' \<le> rRead r" "set l' \<subseteq> set (inq r)"
    using releaseFront_spec [OF a(2,1,3)] by (auto simp: releaseConsumed_def)
  have sub: "held l' \<subseteq> held (inq r)" using l(4) by (auto simp: held_def)
  have inv: "segs_inv M l'" using assms segs_inv_sub [OF _ l(4)] by (auto simp: rinv_def core_def)
  then have "rinv M (releaseConsumed r)"
    using assms l(2,3) sub unfolding l(1) by (fastforce simp: rinv_def core_def allheld_def)
  then show ?thesis using l(1) by auto
qed

lemma shed_loop_spec:
  "core M r \<Longrightarrow> n = length (ooq r) \<Longrightarrow>
    core M (shed_loop lim n r) \<and> capok lim (shed_loop lim n r) \<and>
    (\<exists>k c d. shed_loop lim n r = r\<lparr>oooCap := c, oooDropped := d, ooq := take k (ooq r)\<rparr>)"
proof (induction n arbitrary: r)
  case 0
  have "\<exists>k c d. r = r\<lparr>oooCap := c, oooDropped := d, ooq := take k (ooq r)\<rparr>"
    by (rule exI [of _ "length (ooq r)"], rule exI [of _ "oooCap r"], rule exI [of _ "oooDropped r"]) simp
  moreover have "capok lim r" using 0 by (simp add: capok_def)
  ultimately show ?case using 0(1) unfolding shed_loop.simps by blast
next
  case (Suc n)
  show ?case
  proof (cases "oooCap r > lim")
    case False
    then have "shed_loop lim (Suc n) r = r" by simp
    moreover have "\<exists>k c d. r = r\<lparr>oooCap := c, oooDropped := d, ooq := take k (ooq r)\<rparr>"
      by (rule exI [of _ "length (ooq r)"], rule exI [of _ "oooCap r"], rule exI [of _ "oooDropped r"]) simp
    moreover have "capok lim r" using False by (simp add: capok_def)
    ultimately show ?thesis using Suc.prems(1) by metis
  next
    case True
    define sg where "sg = ooq r ! n"
    define r1 where "r1 = r\<lparr>oooCap := oooCap r - segCap sg, oooDropped := oooDropped r + length (seg_b sg), ooq := take n (ooq r)\<rparr>"
    have split: "ooq r = take n (ooq r) @ [sg]"
      using Suc.prems(2) by (metis lessI order_refl sg_def take_Suc_conv_app_nth take_all)
    have a: "asc (Suc (rTail r)) (take n (ooq r) @ [sg])" "segs_inv M (take n (ooq r) @ [sg])"
      "oooCap r = charge (inq r) + charge (take n (ooq r) @ [sg])"
      using Suc.prems(1) unfolding split [symmetric] by (auto simp: core_def)
    have "core M r1" using Suc.prems(1) a by (auto simp: core_def r1_def asc_append)
    moreover have "n = length (ooq r1)" using Suc.prems(2) by (simp add: r1_def)
    ultimately have IH: "core M (shed_loop lim n r1) \<and> capok lim (shed_loop lim n r1) \<and>
      (\<exists>k c d. shed_loop lim n r1 = r1\<lparr>oooCap := c, oooDropped := d, ooq := take k (ooq r1)\<rparr>)" by (rule Suc.IH)
    have eq: "shed_loop lim (Suc n) r = shed_loop lim n r1" using True by (simp add: r1_def sg_def Let_def)
    obtain k c d where k: "shed_loop lim n r1 = r1\<lparr>oooCap := c, oooDropped := d, ooq := take k (ooq r1)\<rparr>" using IH by blast
    have "r1\<lparr>oooCap := c, oooDropped := d, ooq := take k (ooq r1)\<rparr> =
        r\<lparr>oooCap := c, oooDropped := d, ooq := take (min k n) (ooq r)\<rparr>" by (simp add: r1_def)
    then show ?thesis using IH k unfolding eq by metis
  qed
qed

lemma shed_spec:
  assumes "rinv M r"
  shows "rinv M (shed ev r) \<and> capok (recvLimit ev) (shed ev r) \<and>
    (\<exists>k c d. shed ev r = r\<lparr>oooCap := c, oooDropped := d, ooq := take k (ooq r)\<rparr>)"
proof -
  have c: "core M (shed ev r)" "capok (recvLimit ev) (shed ev r)"
    and ex: "\<exists>k c d. shed ev r = r\<lparr>oooCap := c, oooDropped := d, ooq := take k (ooq r)\<rparr>"
    using shed_loop_spec [OF _ refl, of M r "recvLimit ev"] assms by (auto simp: shed_def rinv_def)
  then obtain k c' d where k: "shed ev r = r\<lparr>oooCap := c', oooDropped := d, ooq := take k (ooq r)\<rparr>" by blast
  have "allheld (shed ev r) \<subseteq> allheld r"
    using set_take_subset [of k "ooq r"] by (auto simp: k allheld_def held_def)
  then have "rinv M (shed ev r)" using c(1) assms by (auto simp: rinv_def k)
  then show ?thesis using c(2) ex by blast
qed

text \<open>What every operation of the receive path leaves alone.\<close>

definition rkeep :: "rcv \<Rightarrow> rcv \<Rightarrow> bool" where
  "rkeep r r' \<longleftrightarrow> rightEdge r' = rightEdge r \<and> peerFin r' = peerFin r \<and> peerFinSet r' = peerFinSet r \<and>
     discard r' = discard r \<and> closed r' = closed r \<and> ended r' = ended r \<and> rcopying r' = rcopying r"

lemma rkeep_trans: "rkeep r r' \<Longrightarrow> rkeep r' r'' \<Longrightarrow> rkeep r r''"
  by (simp add: rkeep_def)

lemma same_data_rkeep: "same_data r r' \<Longrightarrow> rkeep r r'"
  by (simp add: same_data_def rkeep_def)

lemma rinv_consume:
  "rinv M r \<Longrightarrow> rRead r \<le> x \<Longrightarrow> x \<le> rTail r \<Longrightarrow> rinv M (r\<lparr>rRead := x, delivered := d\<rparr>)"
  unfolding rinv_def core_def allheld_def by (auto intro: order_trans)

lemma consumeAll_spec:
  assumes inv: "rinv M r"
  shows "rinv M (snd (consumeAll ev r)) \<and> rRead (snd (consumeAll ev r)) = rTail r \<and>
    rTail (snd (consumeAll ev r)) = rTail r \<and> ooq (snd (consumeAll ev r)) = ooq r \<and> rkeep r (snd (consumeAll ev r))"
proof (cases "rTail r - rRead r = 0")
  case True
  then show ?thesis using inv by (auto simp: consumeAll_def rkeep_def rinv_def core_def)
next
  case False
  define r1 where "r1 = r\<lparr>rRead := rTail r, delivered := delivered r + (rTail r - rRead r)\<rparr>"
  define r2 where "r2 = (if rcopying r1 then r1\<lparr>rfreePending := True\<rparr> else releaseConsumed r1)"
  have eq: "snd (consumeAll ev r) = peerFinCheck ev (ackCadence ev r2)"
    using False by (simp add: consumeAll_def Let_def r1_def r2_def)
  have i1: "rinv M r1" unfolding r1_def by (rule rinv_consume [OF inv]) (use False in auto)
  have i2: "rinv M r2 \<and> rRead r2 = rTail r \<and> rTail r2 = rTail r \<and> ooq r2 = ooq r \<and> rkeep r r2"
  proof (cases "rcopying r1")
    case True
    then show ?thesis using i1 by (auto simp: r2_def r1_def rinv_def core_def allheld_def rkeep_def)
  next
    case False
    obtain l c where "releaseConsumed r1 = r1\<lparr>inq := l, oooCap := c\<rparr>" using consumed_keeps [OF i1] by blast
    then show ?thesis using False consumed_keeps [OF i1] by (auto simp: r2_def r1_def rkeep_def)
  qed
  have s: "rinv M (peerFinCheck ev (ackCadence ev r2))" "same_data r2 (peerFinCheck ev (ackCadence ev r2))"
    using cadence_keeps [of M r2 ev] finCheck_keeps [of M "ackCadence ev r2" ev] i2 same_data_trans by blast+
  then show ?thesis unfolding eq using i2 same_data_rkeep [OF s(2)] rkeep_trans by (auto simp: same_data_def)
qed

lemma afterPlace_spec:
  assumes inv: "rinv M r"
  shows "rinv M (afterPlace ev r) \<and> capok (recvLimit ev) (afterPlace ev r) \<and> rTail (afterPlace ev r) = rTail r \<and>
    rRead (afterPlace ev r) = (if discard r then rTail r else rRead r) \<and> rkeep r (afterPlace ev r)"
proof (cases "discard r")
  case True
  obtain d r1 where c: "consumeAll ev r = (d, r1)" by (cases "consumeAll ev r")
  define r2 where "r2 = (if d > 0 then emit RingActor (r1\<lparr>discardedAfterClose := True,
                      facts := or (facts r1) factDiscardedAfterClose\<rparr>) else r1)"
  have eq: "afterPlace ev r = shed ev r2" using True c by (simp add: afterPlace_def r2_def)
  have "rinv M r1" "rRead r1 = rTail r" "rTail r1 = rTail r" "rkeep r r1" using consumeAll_spec [OF inv, of ev] c by auto
  then have i2: "rinv M r2" "rRead r2 = rTail r" "rTail r2 = rTail r" "rkeep r r2"
    by (auto simp: r2_def emit_def rinv_def core_def allheld_def rkeep_def)
  obtain k c' d' where k: "shed ev r2 = r2\<lparr>oooCap := c', oooDropped := d', ooq := take k (ooq r2)\<rparr>"
    using shed_spec [OF i2(1)] by blast
  have "rkeep r2 (shed ev r2)" by (simp add: k rkeep_def)
  then show ?thesis unfolding eq using shed_spec [OF i2(1), of ev] i2 True rkeep_trans by (auto simp: k)
next
  case False
  obtain k c' d' where k: "shed ev r = r\<lparr>oooCap := c', oooDropped := d', ooq := take k (ooq r)\<rparr>"
    using shed_spec [OF inv] by blast
  have sh: "rinv M (shed ev r)" "capok (recvLimit ev) (shed ev r)" using shed_spec [OF inv] by auto
  have kk: "rTail (shed ev r) = rTail r" "rRead (shed ev r) = rRead r" "rkeep r (shed ev r)"
    by (auto simp: k rkeep_def)
  have post: "same_data (shed ev r) (afterPlace ev r) \<and> rinv M (afterPlace ev r)"
    using False sh(1)
    by (auto simp: afterPlace_def Let_def bumpNow_def emit_def same_data_def rinv_def core_def allheld_def)
  then have "capok (recvLimit ev) (afterPlace ev r)" using sh(2) by (auto simp: capok_def same_data_def)
  then show ?thesis using post kk False same_data_rkeep rkeep_trans by (auto simp: same_data_def)
qed

end
