(* ===== verification/Sess_Deliver.thy ===== *)
theory Sess_Deliver
  imports Sess_Stream "HOL-Library.Code_Target_Nat"
begin

text \<open>
  The properties of the receive path: what one DATA call may change, its limits and its errors, and what \<open>Read\<close>
  returns over a whole history.
\<close>

section \<open>One DATA call\<close>

text \<open>A frame as the carrier hands it over: an offset of 64 bits, a payload that the reader's buffer holds, or one
  below 16 KiB without a buffer.\<close>

definition wf_frame :: "nat \<Rightarrow> byte list \<Rightarrow> nat option \<Rightarrow> bool" where
  "wf_frame off p buf \<longleftrightarrow> off < 2 ^ 64 \<and> length p < 2 ^ 63 \<and>
     (case buf of None \<Rightarrow> length p < runSize | Some bc \<Rightarrow> length p \<le> bc)"

lemma frame_end:
  assumes "off < 2 ^ 64" "length p < 2 ^ 63" "\<not> (off + length p) mod 2 ^ 64 < off"
  shows "(off + length p) mod 2 ^ 64 = off + length p"
proof (rule ccontr)
  assume "(off + length p) mod 2 ^ 64 \<noteq> off + length p"
  then have "2 ^ 64 \<le> off + length p" using mod_less not_less by blast
  then have "(off + length p) mod 2 ^ 64 = (off + length p - 2 ^ 64) mod 2 ^ 64" by (rule le_mod_geq)
  moreover have "off + length p - 2 ^ 64 < 2 ^ 64" using assms(1,2) by simp
  ultimately have "(off + length p) mod 2 ^ 64 = off + length p - 2 ^ 64" by simp
  moreover have "length p < 2 ^ 64" using assms(2) by simp
  ultimately show False using assms(3) \<open>2 ^ 64 \<le> off + length p\<close> by linarith
qed

text \<open>The checks that a frame has passed when it is placed.\<close>

definition placed_frame :: "nat \<Rightarrow> byte list \<Rightarrow> rcv \<Rightarrow> bool" where
  "placed_frame off p r \<longleftrightarrow> p \<noteq> [] \<and> off + length p \<le> rightEdge r \<and> (peerFinSet r \<longrightarrow> off + length p \<le> peerFin r) \<and>
     rTail r < off + length p \<and> segList_equal (ooq r) off p"

lemma recvData_cases:
  assumes "recvData ev off p buf r = Inr r'" "wf_frame off p buf"
  obtains (dup) "off < rTail r" "off + length p \<le> rTail r" "p \<noteq> []" "r' = raceDup ev (length p) True r"
  | (place) "placed_frame off p r"
      "r' = (let r1 = snd (place ev off p buf r) in if rTail r1 = rTail r then r1 else afterPlace ev r1)"
proof -
  have e: "(off + length p) mod 2 ^ 64 = off + length p"
    using assms frame_end [of off p] by (auto simp: recvData_def wf_frame_def Let_def split: if_splits)
  define cf where "cf \<longleftrightarrow> off < rTail r \<and> (max off (rRead r) < min (off + length p) (rTail r) \<and>
      \<not> segRing_equal (inq r) (max off (rRead r)) (bslice p (max off (rRead r) - off) (min (off + length p) (rTail r) - off)))"
  have eqn: "recvData ev off p buf r =
      (if p = [] \<or> off + length p < off then Inl errDataLength
       else if off + length p > rightEdge r then Inl errWindow
       else if peerFinSet r \<and> off + length p > peerFin r then Inl errDataBeyondFin
       else if cf then Inl (conflictErr ev)
       else if off < rTail r \<and> off + length p \<le> rTail r then Inr (raceDup ev (off + length p - off) True r)
       else if \<not> segList_equal (ooq r) off p then Inl (conflictErr ev)
       else Inr (if rTail (snd (place ev off p buf r)) = rTail r then snd (place ev off p buf r)
                 else afterPlace ev (snd (place ev off p buf r))))"
    unfolding recvData_def Let_def e cf_def by (rule refl)
  show ?thesis
  proof (cases "off < rTail r \<and> off + length p \<le> rTail r")
    case True
    then show ?thesis using assms(1) unfolding eqn by (intro dup) (auto split: if_splits)
  next
    case False
    have "rTail r < off + length p" if "p \<noteq> []" using False that by (cases p) auto
    with False have "placed_frame off p r" "r' = (if rTail (snd (place ev off p buf r)) = rTail r then snd (place ev off p buf r)
                 else afterPlace ev (snd (place ev off p buf r)))"
      using assms(1) unfolding eqn by (auto simp: placed_frame_def split: if_split_asm)
    then show ?thesis by (intro place) (simp_all add: Let_def)
  qed
qed

lemma core_tail_bound: "core M r \<Longrightarrow> allheld r \<subseteq> {..< E} \<Longrightarrow> rRead r \<le> E \<Longrightarrow> rTail r \<le> E"
  using unread_held [of M r E] by (meson lessThan_iff less_irrefl not_less subsetD)

text \<open>A call that is not an error, for any assignment that the held bytes and the new bytes of the frame agree
  with.\<close>

lemma place_keeps:
  fixes ev :: renv
  assumes inv: "rinv M r" and wf: "wf_frame off p buf" and pl: "placed_frame off p r" and pf: "pfits M (rTail r) off p"
  defines "r1 \<equiv> snd (place ev off p buf r)"
  shows "rinv M r1 \<and> rkeep r r1 \<and> rRead r1 = rRead r \<and> rTail r \<le> rTail r1 \<and> allheld r \<subseteq> allheld r1 \<and>
    allheld r1 \<subseteq> allheld r \<union> {max off (rTail r) ..< off + length p} \<and> (off \<le> rTail r \<longrightarrow> off + length p \<le> rTail r1) \<and>
    (rTail r1 = rTail r \<longrightarrow> capok (recvLimit ev) r \<longrightarrow> capok (recvLimit ev) r1) \<and>
    copied (fst (place ev off p buf r)) \<le> copyBudget"
proof -
  define start where "start = max off (rTail r)"
  define e where "e = off + length p"
  have core: "core M r" using inv by (simp add: rinv_def)
  obtain d c where ps: "pstep (recvLimit ev) M (unheld start e r) (c, r\<lparr>dupBytes := d\<rparr>) (place ev off p buf r)"
      and prog: "off \<le> rTail r \<longrightarrow> e \<le> rTail r1" and cp: "copied (fst (place ev off p buf r)) \<le> copyBudget"
    using place_spec [OF core e_def _ _ pf, of buf ev] pl wf
    by (fastforce simp: placed_frame_def wf_frame_def e_def start_def r1_def split: option.splits)
  have st: "core M r1" "allheld r \<subseteq> allheld r1" "allheld r1 \<subseteq> allheld r \<union> unheld start e r" "rTail r \<le> rTail r1"
      "frame_of (r\<lparr>dupBytes := d\<rparr>) r1" "rTail r1 = rTail r \<longrightarrow> capok (recvLimit ev) r \<longrightarrow> capok (recvLimit ev) r1"
    using ps by (auto simp: pstep_def r1_def allheld_def capok_def)
  have fr: "rRead r1 = rRead r" "rkeep r r1" "ackBumped r1 = ackBumped r" "peerFinDelivered r1 = peerFinDelivered r"
    using frame_fields [OF st(5)] by (auto simp: rkeep_def)
  have un: "unheld start e r \<subseteq> {start ..< e}" by (auto simp: unheld_def)
  have sub: "allheld r1 \<subseteq> allheld r \<union> {start ..< e}" using st(3) un by blast
  have bound: "allheld r1 \<subseteq> {..< E} \<and> rTail r1 \<le> E" if E: "allheld r \<subseteq> {..< E}" "e \<le> E" "rRead r \<le> E" for E
  proof -
    have h: "allheld r1 \<subseteq> {..< E}"
    proof
      fix x assume "x \<in> allheld r1"
      then have "x \<in> allheld r \<or> x < e" using sub by auto
      then show "x \<in> {..< E}" using E(1,2) by (auto intro: less_le_trans)
    qed
    then show ?thesis using core_tail_bound [OF st(1) h] E(3) fr(1) by simp
  qed
  have rd: "rRead r \<le> rTail r" using core by (simp add: core_def)
  have "rinv M r1"
  proof -
    have "allheld r1 \<subseteq> {..< rightEdge r} \<and> rTail r1 \<le> rightEdge r"
      by (rule bound) (use inv pl rd in \<open>auto simp: rinv_def placed_frame_def e_def\<close>)
    moreover have "allheld r1 \<subseteq> {..< peerFin r} \<and> rTail r1 \<le> peerFin r" if "peerFinSet r"
      by (rule bound) (use inv pl rd that in \<open>auto simp: rinv_def placed_frame_def e_def\<close>)
    ultimately show ?thesis using inv st(1) fr by (simp add: rinv_def rkeep_def)
  qed
  then show ?thesis using fr st sub prog cp by (simp add: start_def e_def)
qed

lemma recvData_keeps:
  assumes inv: "rinv M r" and wf: "wf_frame off p buf" and res: "recvData ev off p buf r = Inr r'"
    and pf: "pfits M (rTail r) off p"
  shows "rinv M r' \<and> rkeep r r' \<and> rTail r \<le> rTail r' \<and> (off \<le> rTail r \<longrightarrow> off + length p \<le> rTail r') \<and>
    rRead r' = (if discard r \<and> rTail r' \<noteq> rTail r then rTail r' else rRead r) \<and>
    (capok (recvLimit ev) r \<longrightarrow> capok (recvLimit ev) r')"
  using res wf
proof (cases rule: recvData_cases)
  case dup
  then show ?thesis using raceDup_keeps [OF inv, of ev "length p" True] same_data_rkeep
    by (auto simp: same_data_def capok_def)
next
  case place
  define r1 where "r1 = snd (place ev off p buf r)"
  have k: "rinv M r1" "rkeep r r1" "rRead r1 = rRead r" "rTail r \<le> rTail r1" "off \<le> rTail r \<longrightarrow> off + length p \<le> rTail r1"
      "rTail r1 = rTail r \<longrightarrow> capok (recvLimit ev) r \<longrightarrow> capok (recvLimit ev) r1"
    using place_keeps [OF inv wf place(1) pf, of ev] by (auto simp: r1_def)
  show ?thesis
  proof (cases "rTail r1 = rTail r")
    case True
    then have "r' = r1" using place(2) by (simp add: r1_def Let_def)
    then show ?thesis using True k by simp
  next
    case False
    then have r': "r' = afterPlace ev r1" using place(2) by (simp add: r1_def Let_def)
    have d: "discard r1 = discard r" using k(2) by (simp add: rkeep_def)
    show ?thesis unfolding r' using False afterPlace_spec [OF k(1), of ev] k rkeep_trans d by auto
  qed
qed

text \<open>An arbitrary frame: the held bytes overridden by its new bytes.\<close>

definition overlay :: "nat \<Rightarrow> byte list \<Rightarrow> rcv \<Rightarrow> nat \<Rightarrow> byte option" where
  "overlay off p r x = (if max off (rTail r) \<le> x \<and> x < off + length p then Some (p ! (x - off)) else content r x)"

lemma overlay_pfits: "pfits (overlay off p r) (rTail r) off p"
  by (auto simp: pfits_def overlay_def)

lemma overlay_core:
  assumes core: "core M r" and eq: "segList_equal (ooq r) off p"
  shows "core (overlay off p r) r"
proof (rule core_cong [OF core_content [OF core]])
  fix x assume x: "x \<in> allheld r"
  show "overlay off p r x = content r x"
  proof (cases "max off (rTail r) \<le> x \<and> x < off + length p")
    case True
    have "x \<notin> held (inq r)" using True core contig_held by (fastforce simp: core_def)
    then obtain sg where sg: "sg \<in> set (ooq r)" "seg_off sg \<le> x" "x < seg_end sg"
      using x by (auto simp: allheld_def held_def covers_def)
    have "seg_b sg ! (x - seg_off sg) = p ! (x - off)"
      using core sg True by (intro segList_equal_fits [OF _ eq]) (auto simp: core_def)
    moreover have "fits M sg" using core sg by (auto simp: core_def segs_inv_def)
    ultimately show ?thesis using fits_at [OF _ sg(2,3)] content_eq [OF core x] True by (simp add: overlay_def)
  qed (auto simp: overlay_def)
qed

definition rcv_ok :: "rcv \<Rightarrow> bool" where
  "rcv_ok r = rinv (content r) r"

lemma rcv_okI: "rinv M r \<Longrightarrow> rcv_ok r"
  using core_content by (auto simp: rcv_ok_def rinv_def)

lemma recvData_overlay:
  assumes ok: "rcv_ok r" and wf: "wf_frame off p buf" and res: "recvData ev off p buf r = Inr r'"
  obtains M where "rinv M r" "pfits M (rTail r) off p" "\<And>x. x \<in> allheld r \<Longrightarrow> M x = content r x"
    "\<And>x. max off (rTail r) \<le> x \<Longrightarrow> x < off + length p \<Longrightarrow> M x = Some (p ! (x - off))"
    "\<And>x. x \<notin> allheld r \<Longrightarrow> \<not> (max off (rTail r) \<le> x \<and> x < off + length p) \<Longrightarrow> M x = None"
  using res wf
proof (cases rule: recvData_cases)
  case dup
  show ?thesis
    by (rule that [of "content r"]) (use ok dup in \<open>auto simp: rcv_ok_def pfits_def content_None\<close>)
next
  case place
  have core: "core (overlay off p r) r"
    using overlay_core ok place(1) by (auto simp: rcv_ok_def rinv_def placed_frame_def)
  then have "rinv (overlay off p r) r" using ok by (simp add: rcv_ok_def rinv_def)
  then show ?thesis
    by (rule that [OF _ overlay_pfits]) (use content_eq [OF core] in \<open>auto simp: overlay_def content_None\<close>)
qed

section \<open>Properties of one call\<close>

text \<open>Claim C2: the first copy is authoritative. Whatever frame a carrier delivers, a DATA call that is not an error
  keeps the state well formed (the in-order queue without a gap up to \<open>rTail\<close>, the out-of-order segments beyond it and
  disjoint, the charge exact, every offset inside the advertised window), never moves \<open>rTail\<close> back, leaves every
  unread in-order byte as it was, and extends the readable bytes only by bytes of this frame or by bytes that were
  held out of order before it.\<close>

theorem recv_first_copy:
  assumes "rcv_ok r" "wf_frame off p buf" "recvData ev off p buf r = Inr r'"
  shows "rcv_ok r' \<and> rTail r \<le> rTail r' \<and>
    (\<forall>x. rRead r' \<le> x \<and> x < rTail r' \<longrightarrow> content r' x =
      (if x < rTail r then content r x else if off \<le> x \<and> x < off + length p then Some (p ! (x - off)) else content r x)) \<and>
    (\<not> discard r \<longrightarrow> rRead r' = rRead r \<and> (\<exists>new. readable r' = readable r @ new))"
proof -
  obtain M where M: "rinv M r" "pfits M (rTail r) off p" "\<And>x. x \<in> allheld r \<Longrightarrow> M x = content r x"
      "\<And>x. max off (rTail r) \<le> x \<Longrightarrow> x < off + length p \<Longrightarrow> M x = Some (p ! (x - off))"
      "\<And>x. x \<notin> allheld r \<Longrightarrow> \<not> (max off (rTail r) \<le> x \<and> x < off + length p) \<Longrightarrow> M x = None"
    by (rule recvData_overlay [OF assms]) blast
  have k: "rinv M r'" "rTail r \<le> rTail r'" "rRead r' = (if discard r \<and> rTail r' \<noteq> rTail r then rTail r' else rRead r)"
    using recvData_keeps [OF M(1) assms(2,3) M(2)] by auto
  have cores: "core M r" "core M r'" using M(1) k(1) by (auto simp: rinv_def)
  have cont: "content r' x = (if x < rTail r then content r x
      else if off \<le> x \<and> x < off + length p then Some (p ! (x - off)) else content r x)"
    if x: "rRead r' \<le> x" "x < rTail r'" for x
  proof -
    have "x \<in> allheld r'" by (rule unread_held [OF cores(2) x])
    then have c: "content r' x = M x" by (rule content_eq [OF cores(2)])
    show ?thesis
    proof (cases "max off (rTail r) \<le> x \<and> x < off + length p")
      case True then show ?thesis using c M(4) by auto
    next
      case False
      moreover have "x \<notin> allheld r \<Longrightarrow> content r x = None" by (simp add: content_None)
      ultimately have "M x = content r x" using M(3,5) [of x] by (cases "x \<in> allheld r") simp_all
      then show ?thesis using c False by auto
    qed
  qed
  have "readable r' = readable r @ map (\<lambda>x. the (M x)) [rTail r ..< rTail r']" if "\<not> discard r"
  proof -
    have "[rRead r ..< rTail r'] = [rRead r ..< rTail r] @ [rTail r ..< rTail r']"
      using k(2) cores(1) by (metis core_def le_Suc_ex upt_add_eq_append)
    then show ?thesis using that k(3) by (simp add: readable_eq [OF cores(1)] readable_eq [OF cores(2)])
  qed
  then show ?thesis using cont k rcv_okI by auto
qed

text \<open>The first copy, on a queue with bytes 0 to 3 and an out-of-order byte 5: a frame that repeats byte 3 and brings
  byte 4 closes the gap.\<close>

definition ev0 :: renv where
  "ev0 = \<lparr>e_race = False, e_pending = False, e_window = 65536, e_ackEvery = 65536, e_ackDelay = 20, e_firstOffset = 0,
    e_now = 1\<rparr>"

definition run_seg :: "nat \<Rightarrow> byte list \<Rightarrow> seg" where
  "run_seg off b = \<lparr>seg_off = off, seg_b = b, seg_bcap = 16448, seg_cap = 16448, seg_run = True\<rparr>"

definition rcv1 :: rcv where
  "rcv1 = (initRecv 0)\<lparr>rTail := 4, rightEdge := 100, inq := [run_seg 0 [10, 11, 12, 13]], ooq := [run_seg 5 [15]],
    oooCap := 32896\<rparr>"

lemma qfits_Cons: "qfits M pos (b # q) \<longleftrightarrow> M pos = Some b \<and> qfits M (pos + 1) q"
  using qfits_append [of M pos "[b]" q] by (simp add: qfits_def)

lemma qfits_Nil: "qfits M pos []"
  by (simp add: qfits_def)

lemma rcv1_ok: "rcv_ok rcv1"
proof (rule rcv_okI)
  let ?M = "\<lambda>x::nat. if x < 6 then Some (word_of_nat (10 + x) :: byte) else None"
  have "fits ?M (run_seg 0 [10, 11, 12, 13])" "fits ?M (run_seg 5 [15])"
    by (simp_all add: fits_qfits run_seg_def qfits_Cons qfits_Nil)
  then show "rinv ?M rcv1"
    by (auto simp: rinv_def core_def rcv1_def initRecv_def seg_ok_def allheld_def held_def covers_def seg_end_def run_seg_def)
qed

theorem recv_first_copy_witness:
  "\<exists>r'. recvData ev0 3 [13, 14] None rcv1 = Inr r' \<and> rTail r' = 6 \<and>
    content r' 3 = content rcv1 3 \<and> content r' 4 = Some 14 \<and> content r' 5 = content rcv1 5"
proof -
  define r' where "r' = projr (recvData ev0 3 [13, 14] None rcv1)"
  have res: "recvData ev0 3 [13, 14] None rcv1 = Inr r'" "rTail r' = 6" "rRead r' = 0"  unfolding r'_def by code_simp+
  have wf: "wf_frame 3 [13, 14] None" by (simp add: wf_frame_def)
  note keep = recv_first_copy [OF rcv1_ok wf res(1), THEN conjunct2, THEN conjunct2, THEN conjunct1, rule_format]
  have "rTail rcv1 = 4" by (simp add: rcv1_def)
  then show ?thesis using keep [of 3] keep [of 4] keep [of 5] res by (intro exI [of _ r']) simp
qed

text \<open>The comparisons of \<open>recvDataLocked\<close> in terms of single offsets.\<close>

lemma ring_check:
  assumes ok: "rcv_ok r" and off: "off < rTail r"
  shows "(max off (rRead r) < min (off + length p) (rTail r) \<and>
      \<not> segRing_equal (inq r) (max off (rRead r)) (bslice p (max off (rRead r) - off) (min (off + length p) (rTail r) - off)))
    \<longleftrightarrow> (\<exists>x. max off (rRead r) \<le> x \<and> x < min (off + length p) (rTail r) \<and> content r x \<noteq> Some (p ! (x - off)))"
    (is "?a < ?b \<and> \<not> ?eq \<longleftrightarrow> ?diff")
proof (cases "?a < ?b")
  case True
  obtain a where a: "a \<le> rRead r" "contig a (inq r) (rTail r)" and fit: "segs_inv (content r) (inq r)"
    using ok by (auto simp: rcv_ok_def rinv_def core_def)
  define q where "q = bslice p (?a - off) (?b - off)"
  have q: "length q = ?b - ?a" "\<And>k. k < ?b - ?a \<Longrightarrow> q ! k = p ! (?a - off + k)"
    using True by (auto simp: q_def nth_bslice)
  have "?eq \<longleftrightarrow> (\<forall>k < length q. content r (?a + k) = Some (q ! k))"
    unfolding q_def [symmetric]
    by (rule segRing_equal_iff [OF a(2)]) (use fit a(1) q(1) True in \<open>auto simp: segs_inv_def\<close>)
  also have "\<dots> \<longleftrightarrow> \<not> ?diff"
  proof
    assume all: "\<forall>k < length q. content r (?a + k) = Some (q ! k)"
    show "\<not> ?diff"
    proof
      assume ?diff
      then obtain x where x: "?a \<le> x" "x < ?b" "content r x \<noteq> Some (p ! (x - off))" by blast
      have lt: "x - ?a < ?b - ?a" using x(1,2) by linarith
      have "?a - off + (x - ?a) = x - off" using x(1) by linarith
      then have "q ! (x - ?a) = p ! (x - off)" using q(2) [OF lt] by (simp only:)
      moreover have "content r (?a + (x - ?a)) = Some (q ! (x - ?a))" using all lt q(1) by (simp only:)
      ultimately show False using x(1,3) by (simp only: le_add_diff_inverse)
    qed
  next
    assume nd: "\<not> ?diff"
    show "\<forall>k < length q. content r (?a + k) = Some (q ! k)"
    proof (intro allI impI)
      fix k assume k: "k < length q"
      have "content r (?a + k) = Some (p ! (?a + k - off))"
      proof (rule ccontr)
        assume ne: "content r (?a + k) \<noteq> Some (p ! (?a + k - off))"
        have "?a \<le> ?a + k" "?a + k < ?b" using k q(1) by linarith+
        then show False using nd ne by blast
      qed
      then show "content r (?a + k) = Some (q ! k)" using k q by simp
    qed
  qed
  finally show ?thesis using True by blast
next
  case False
  then show ?thesis by (meson le_less_trans)
qed

lemma list_check:
  assumes ok: "rcv_ok r"
  shows "\<not> segList_equal (ooq r) off p \<longleftrightarrow>
    (\<exists>x. off \<le> x \<and> x < off + length p \<and> rTail r < x \<and> x \<in> allheld r \<and> content r x \<noteq> Some (p ! (x - off)))"
    (is "_ \<longleftrightarrow> ?diff")
proof -
  have core: "core (content r) r" using ok by (simp add: rcv_ok_def rinv_def)
  have asc: "asc (Suc (rTail r)) (ooq r)" and fit: "segs_inv (content r) (ooq r)" using core by (auto simp: core_def)
  have sub: "x \<in> held (ooq r) \<longleftrightarrow> rTail r < x \<and> x \<in> allheld r" for x
    using allheld_bounds [OF core, of x] core contig_held by (fastforce simp: allheld_def core_def)
  have "segList_equal (ooq r) off p" if nd: "\<not> ?diff"
  proof (rule segList_equal_intro [OF asc])
    fix k assume k: "k < length p" "off + k \<in> held (ooq r)"
    have "\<not> content r (off + k) \<noteq> Some (p ! (off + k - off))"
      using nd k sub [of "off + k"] by (metis add_less_cancel_left le_add1)
    then show "content r (off + k) = Some (p ! k)" by simp
  qed (use fit in \<open>auto simp: segs_inv_def\<close>)
  moreover have "\<not> ?diff" if eq: "segList_equal (ooq r) off p"
  proof
    assume ?diff
    then obtain x where x: "off \<le> x" "x < off + length p" "x \<in> held (ooq r)" "content r x \<noteq> Some (p ! (x - off))"
      using sub by blast
    then obtain sg where sg: "sg \<in> set (ooq r)" "seg_off sg \<le> x" "x < seg_end sg"
      by (auto simp: held_def covers_def)
    have "fits (content r) sg" using fit sg(1) by (auto simp: segs_inv_def)
    then show False using fits_at [OF _ sg(2,3)] segList_equal_fits [OF asc eq sg(1) x(1,2) sg(2,3)] x(4) by simp
  qed
  ultimately show ?thesis by blast
qed

text \<open>What a DATA call reports, over offsets alone.\<close>

definition recv_error :: "renv \<Rightarrow> nat \<Rightarrow> byte list \<Rightarrow> rcv \<Rightarrow> verr option" where
  "recv_error ev off p r =
     (if p = [] \<or> 2 ^ 64 \<le> off + length p then Some errDataLength
      else if rightEdge r < off + length p then Some errWindow
      else if peerFinSet r \<and> peerFin r < off + length p then Some errDataBeyondFin
      else if \<exists>x. off \<le> x \<and> x < off + length p \<and> rRead r \<le> x \<and> x \<in> allheld r \<and> content r x \<noteq> Some (p ! (x - off))
      then Some (conflictErr ev) else None)"

lemma frame_wraps: "off < 2 ^ 64 \<Longrightarrow> length p < 2 ^ 63 \<Longrightarrow> (off + length p) mod 2 ^ 64 < off \<longleftrightarrow> 2 ^ 64 \<le> off + length p"
proof -
  assume a: "off < 2 ^ 64" "length p < 2 ^ 63"
  have "(off + length p) mod 2 ^ 64 = off + length p \<longleftrightarrow> \<not> 2 ^ 64 \<le> off + length p"
    by (simp add: not_le) (metis mod_less mod_less_divisor zero_less_numeral)
  then show ?thesis using frame_end [OF a] by (metis le_add1 linorder_not_le)
qed

lemma conflict_split:
  assumes ok: "rcv_ok r"
  shows "(\<exists>x. off \<le> x \<and> x < e \<and> rRead r \<le> x \<and> x \<in> allheld r \<and> Q x) \<longleftrightarrow>
    (\<exists>x. max off (rRead r) \<le> x \<and> x < min e (rTail r) \<and> Q x) \<or> (\<exists>x. off \<le> x \<and> x < e \<and> rTail r < x \<and> x \<in> allheld r \<and> Q x)"
    (is "?l \<longleftrightarrow> ?in \<or> ?out")
proof -
  have core: "core (content r) r" using ok by (simp add: rcv_ok_def rinv_def)
  have rd: "rRead r \<le> rTail r" using core by (simp add: core_def)
  have "?in \<or> ?out" if l: ?l
  proof -
    obtain x where x: "off \<le> x" "x < e" "rRead r \<le> x" "x \<in> allheld r" "Q x" using l by blast
    have "x \<noteq> rTail r" using x(4) tail_unheld [OF core] by blast
    then consider "x < rTail r" | "rTail r < x" by linarith
    then show ?thesis
    proof cases
      case 1
      then have "max off (rRead r) \<le> x \<and> x < min e (rTail r) \<and> Q x" using x by simp
      then show ?thesis by blast
    next
      case 2 then show ?thesis using x by blast
    qed
  qed
  moreover have ?l if i: ?in
  proof -
    obtain x where x: "max off (rRead r) \<le> x" "x < min e (rTail r)" "Q x" using i by blast
    then have "x \<in> allheld r" by (intro unread_held [OF core]) auto
    then show ?thesis using x by auto
  qed
  moreover have ?l if ?out using that rd by (meson le_trans less_imp_le)
  ultimately show ?thesis by blast
qed

lemma recvData_error_spec:
  assumes "rcv_ok r" "wf_frame off p buf"
  shows "(case recvData ev off p buf r of Inl v \<Rightarrow> Some v | Inr r' \<Rightarrow> None) = recv_error ev off p r"
proof -
  define e where "e = off + length p"
  have lens: "off < 2 ^ 64" "length p < 2 ^ 63" using assms(2) by (auto simp: wf_frame_def)
  show ?thesis
  proof (cases "p = [] \<or> 2 ^ 64 \<le> off + length p")
    case True
    then have "p = [] \<or> (off + length p) mod 2 ^ 64 < off" using frame_wraps [OF lens] by blast
    then have "recvData ev off p buf r = Inl errDataLength" unfolding recvData_def Let_def by (simp only: if_True) 
    then show ?thesis using True by (simp add: recv_error_def)
  next
    case False
    then have nw: "\<not> (p = [] \<or> (off + length p) mod 2 ^ 64 < off)" using frame_wraps [OF lens] by blast
    then have e: "(off + length p) mod 2 ^ 64 = e" using frame_end [OF lens] by (simp only: e_def) blast
    define cf where "cf \<longleftrightarrow> off < rTail r \<and> (max off (rRead r) < min e (rTail r) \<and>
      \<not> segRing_equal (inq r) (max off (rRead r)) (bslice p (max off (rRead r) - off) (min e (rTail r) - off)))"
    define diff where "diff \<longleftrightarrow> (\<exists>x. off \<le> x \<and> x < e \<and> rRead r \<le> x \<and> x \<in> allheld r \<and> content r x \<noteq> Some (p ! (x - off)))"
    have rd: "rRead r \<le> rTail r" using assms(1) by (simp add: rcv_ok_def rinv_def core_def)
    have cf: "cf \<longleftrightarrow> (\<exists>x. max off (rRead r) \<le> x \<and> x < min e (rTail r) \<and> content r x \<noteq> Some (p ! (x - off)))"
      using ring_check [OF assms(1), of off p] unfolding cf_def e_def by (cases "off < rTail r") auto
    have diff: "diff \<longleftrightarrow> cf \<or> \<not> segList_equal (ooq r) off p"
      unfolding diff_def conflict_split [OF assms(1)] cf list_check [OF assms(1)] e_def by (rule refl)
    have dup: "\<not> segList_equal (ooq r) off p \<Longrightarrow> \<not> e \<le> rTail r"
      unfolding list_check [OF assms(1)] e_def by auto
    have "recvData ev off p buf r =
      (if e > rightEdge r then Inl errWindow
       else if peerFinSet r \<and> e > peerFin r then Inl errDataBeyondFin
       else if cf then Inl (conflictErr ev)
       else if off < rTail r \<and> e \<le> rTail r then Inr (raceDup ev (e - off) True r)
       else if \<not> segList_equal (ooq r) off p then Inl (conflictErr ev)
       else Inr (if rTail (snd (place ev off p buf r)) = rTail r then snd (place ev off p buf r)
                 else afterPlace ev (snd (place ev off p buf r))))"
      unfolding recvData_def Let_def cf_def e using nw [unfolded e] by (simp only: if_False)
    moreover have "recv_error ev off p r =
      (if rightEdge r < e then Some errWindow else if peerFinSet r \<and> peerFin r < e then Some errDataBeyondFin
       else if diff then Some (conflictErr ev) else None)"
      unfolding recv_error_def diff_def e_def using False by (simp only: if_False)
    ultimately show ?thesis using diff dup by (cases "segList_equal (ooq r) off p") (simp_all split: if_split)
  qed
qed

text \<open>Claim C3: the errors of a DATA call are exactly the documented ones, in order: an empty payload or an end beyond
  \<open>2^64\<close>; an end beyond the advertised window; an end beyond the peer's FIN; and a conflict exactly when some offset of
  the frame that is held and not yet read has another byte. Bytes already read are never compared. An error leaves the
  state as it was (the call returns no new one).\<close>

theorem recv_errors_exact:
  assumes "rcv_ok r" "wf_frame off p buf"
  shows "(case recvData ev off p buf r of Inl v \<Rightarrow> Some v | Inr r' \<Rightarrow> None) = recv_error ev off p r"
  by (rule recvData_error_spec [OF assms])

theorem recv_errors_exact_witness:
  "(case recvData ev0 2 [12, 99] None rcv1 of Inl v \<Rightarrow> Some v | Inr r' \<Rightarrow> None) = recv_error ev0 2 [12, 99] rcv1 \<and>
   recv_error ev0 2 [12, 99] rcv1 = Some errConflict"
proof
  show eq: "(case recvData ev0 2 [12, 99] None rcv1 of Inl v \<Rightarrow> Some v | Inr r' \<Rightarrow> None) = recv_error ev0 2 [12, 99] rcv1"
    by (rule recv_errors_exact [OF rcv1_ok]) (simp add: wf_frame_def)
  have "(case recvData ev0 2 [12, 99] None rcv1 of Inl v \<Rightarrow> Some v | Inr r' \<Rightarrow> None) = Some errConflict"
    by code_simp
  then show "recv_error ev0 2 [12, 99] rcv1 = Some errConflict" using eq by simp
qed

text \<open>Claim C8: the limits of a DATA call. The charge is exactly the capacity of the buffers held; out-of-order
  data is held after a call only within \<open>recvLimit\<close>, whatever was received in order, if it was before; and one call
  copies fewer than 16 KiB of payload, its own bytes and the merges together.\<close>

theorem recv_limits:
  assumes "rcv_ok r" "wf_frame off p buf" "recvData ev off p buf r = Inr r'"
  shows "oooCap r' = sum_list (map segCap (inq r' @ ooq r')) \<and>
    (ooq r = [] \<or> oooCap r \<le> recvLimit ev \<longrightarrow> ooq r' = [] \<or> oooCap r' \<le> recvLimit ev) \<and>
    (placed_frame off p r \<longrightarrow> copied (fst (place ev off p buf r)) < 16 * 1024)"
proof -
  obtain M where M: "rinv M r" "pfits M (rTail r) off p" by (rule recvData_overlay [OF assms]) blast
  have k: "rinv M r'" "capok (recvLimit ev) r \<longrightarrow> capok (recvLimit ev) r'"
    using recvData_keeps [OF M(1) assms(2,3) M(2)] by auto
  have "copied (fst (place ev off p buf r)) \<le> copyBudget" if "placed_frame off p r"
    using place_keeps [OF M(1) assms(2) that M(2), of ev] by blast
  then show ?thesis using k by (auto simp: capok_def rinv_def core_def charge_def segCap_fun)
qed

theorem recv_limits_witness:
  "\<exists>r'. recvData ev0 3 [13, 14] None rcv1 = Inr r' \<and> oooCap r' = sum_list (map segCap (inq r' @ ooq r')) \<and>
    oooCap r' = 16448 \<and> copied (fst (place ev0 3 [13, 14] None rcv1)) < 16 * 1024"
proof -
  define r' where "r' = projr (recvData ev0 3 [13, 14] None rcv1)"
  have res: "recvData ev0 3 [13, 14] None rcv1 = Inr r'" "oooCap r' = 16448" unfolding r'_def by code_simp+
  have wf: "wf_frame 3 [13, 14] None" by (simp add: wf_frame_def)
  have "placed_frame 3 [13, 14] rcv1" unfolding placed_frame_def by code_simp
  then show ?thesis using recv_limits [OF rcv1_ok wf res(1)] res by (intro exI [of _ r']) blast
qed

text \<open>Claim C7: progress. A frame inside the window (and not beyond the FIN) that starts at or below \<open>rTail\<close> and
  agrees with what is held is always taken whole: the call ends without an error and \<open>rTail\<close> reaches the end of the
  frame, also where the room has to come from shedding out-of-order data.\<close>

theorem recv_progress:
  assumes "rcv_ok r" "wf_frame off p buf" "p \<noteq> []" "off \<le> rTail r" "off + length p \<le> rightEdge r"
    "peerFinSet r \<longrightarrow> off + length p \<le> peerFin r"
    "\<forall>x. off \<le> x \<and> x < off + length p \<and> rRead r \<le> x \<and> x \<in> allheld r \<longrightarrow> content r x = Some (p ! (x - off))"
  shows "\<exists>r'. recvData ev off p buf r = Inr r' \<and> off + length p \<le> rTail r'"
proof -
  have edge: "rightEdge r < 2 ^ 64" using assms(1) by (simp only: rcv_ok_def rinv_def)
  then have "\<not> 2 ^ 64 \<le> off + length p" using assms(5) by linarith
  then have "recv_error ev off p r = None"
    unfolding recv_error_def using assms(3,5-7) by (auto simp only: if_False not_less split: if_split)
  then have "(case recvData ev off p buf r of Inl v \<Rightarrow> Some v | Inr r' \<Rightarrow> None) = None"
    using recvData_error_spec [OF assms(1,2), of ev] by (simp only:)
  then obtain r' where r': "recvData ev off p buf r = Inr r'" by (auto split: sum.splits)
  obtain M where M: "rinv M r" "pfits M (rTail r) off p" by (rule recvData_overlay [OF assms(1,2) r']) blast
  show ?thesis using recvData_keeps [OF M(1) assms(2) r' M(2)] r' assms(4) by blast
qed

theorem recv_progress_witness:
  "\<exists>r'. recvData ev0 4 [14] None rcv1 = Inr r' \<and> 4 + length [14::byte] \<le> rTail r'"
proof (rule recv_progress [OF rcv1_ok])
  have "\<not> (4::nat) \<in> allheld rcv1"
    by (auto simp: allheld_def rcv1_def held_def covers_def seg_end_def run_seg_def initRecv_def)
  moreover have "x = 4" if "4 \<le> x" "x < 4 + length [14::byte]" for x using that by simp
  ultimately show "\<forall>x. 4 \<le> x \<and> x < 4 + length [14::byte] \<and> rRead rcv1 \<le> x \<and> x \<in> allheld rcv1 \<longrightarrow>
      content rcv1 x = Some ([14] ! (x - 4))" by blast
qed (simp_all add: wf_frame_def rcv1_def initRecv_def)

end
