(* ===== verification/Sess_History.thy ===== *)
theory Sess_History
  imports Sess_Deliver
begin

text \<open>
  Whole histories of a stream's receive side. DATA frames of a sender arrive in any order, any number of times, cut in
  any way, over any lane; they interleave with FINs, with the two critical sections of \<open>Read\<close> (the copy runs between
  them, without the lock), with \<open>Close\<close>, with the end of the session and with window advertisements. The bytes that
  \<open>Read\<close> returns are always a prefix of the stream that was sent.
\<close>

section \<open>The other operations keep the invariant\<close>

lemma readViews_prefix:
  "contig a l b \<Longrightarrow> segs_inv M l \<Longrightarrow> a \<le> x \<Longrightarrow> x + want \<le> b \<Longrightarrow>
    \<exists>n \<le> want. readViews l x nv want = map (\<lambda>y. the (M y)) [x ..< x + n]"
proof (induction l arbitrary: a x nv want)
  case Nil then show ?case by auto
next
  case (Cons sg l)
  consider (stop) "\<not> (nv < maxViews \<and> want > 0)" | (skip) "nv < maxViews \<and> want > 0" "seg_end sg \<le> x"
    | (view) "nv < maxViews \<and> want > 0" "x < seg_end sg" by linarith
  then show ?case
  proof cases
    case stop then show ?thesis by (intro exI [of _ 0]) auto
  next
    case skip
    then show ?thesis using Cons.IH [of "seg_end sg" x want nv] Cons.prems by auto
  next
    case view
    define v where "v = take want (drop (x - seg_off sg) (seg_b sg))"
    have off: "seg_off sg = a" "fits M sg" "contig (seg_end sg) l b" using Cons.prems(1,2) by auto
    have len: "length v = min want (seg_end sg - x)" using off(1) Cons.prems(3) by (simp add: v_def seg_end_def)
    have v: "v = map (\<lambda>y. the (M y)) [x ..< x + length v]"
    proof (rule nth_equalityI)
      fix i assume i: "i < length v"
      then have "M (x + i) = Some (seg_b sg ! (x + i - seg_off sg))"
        using len off(1) Cons.prems(3) by (intro fits_at [OF off(2)]) auto
      moreover have "x - seg_off sg \<le> length (seg_b sg)" "x + i - seg_off sg = x - seg_off sg + i"
        using view(2) off(1) Cons.prems(3) by (auto simp: seg_end_def)
      ultimately show "v ! i = map (\<lambda>y. the (M y)) [x ..< x + length v] ! i"
        using i off(1) Cons.prems(3) by (simp add: v_def)
    qed simp
    have eq: "readViews (sg # l) x nv want = v @ readViews l (x + length v) (nv + 1) (want - length v)"
      using view by (simp add: v_def Let_def)
    show ?thesis
    proof (cases "want \<le> seg_end sg - x")
      case True
      then have "want - length v = 0" using len by simp
      then have "readViews l (x + length v) (nv + 1) (want - length v) = []" by (cases l) auto
      then show ?thesis using v len True unfolding eq by (intro exI [of _ "length v"]) auto
    next
      case False
      then have xl: "x + length v = seg_end sg" using len view by auto
      obtain n where n: "n \<le> want - length v"
          "readViews l (x + length v) (nv + 1) (want - length v) = map (\<lambda>y. the (M y)) [x + length v ..< x + length v + n]"
        using Cons.IH [OF off(3), of "x + length v" "want - length v" "nv + 1"] Cons.prems(2,4) xl len by auto
      have "v @ map (\<lambda>y. the (M y)) [x + length v ..< x + length v + n] = map (\<lambda>y. the (M y)) [x ..< x + (length v + n)]"
        by (subst v) (metis add.assoc le_add1 map_append upt_add_eq_append)
      moreover have "length v + n \<le> want" using n(1) len by auto
      ultimately show ?thesis using n(2) unfolding eq by metis
    qed
  qed
qed

lemma readViews_some:
  "contig a l b \<Longrightarrow> a \<le> x \<Longrightarrow> x < b \<Longrightarrow> 0 < want \<Longrightarrow> nv < maxViews \<Longrightarrow> readViews l x nv want \<noteq> []"
proof (induction l arbitrary: a)
  case (Cons sg l)
  then show ?case by (cases "seg_end sg \<le> x") (auto simp: Let_def seg_end_def)
qed simp

lemma fin_keeps:
  assumes inv: "rinv M r" and res: "finLocked ev off r = Inr r'"
  shows "rinv M r' \<and> inq r' = inq r \<and> rRead r' = rRead r \<and> rTail r' = rTail r \<and> discard r' = discard r \<and> closed r' = closed r \<and>
    ended r' = ended r \<and> rcopying r' = rcopying r"
proof (cases "peerFinSet r")
  case True
  then show ?thesis using res inv rinv_bump [OF inv, of ev] same_data_bump [of r ev]
    by (auto simp: finLocked_def same_data_def split: if_splits)
next
  case False
  have core: "core M r" using inv by (simp add: rinv_def)
  have ck: "highest r \<le> off" "off \<le> rightEdge r" "r' = peerFinCheck ev (r\<lparr>peerFin := off, peerFinSet := True\<rparr>)"
    using False res by (auto simp: finLocked_def split: if_splits)
  have "x < off" if hx: "x \<in> held (ooq r)" for x
  proof -
    obtain sg where sg: "sg \<in> set (ooq r)" "x < seg_end sg" using hx by (auto simp: held_def covers_def)
    then have ne: "ooq r \<noteq> []" by auto
    obtain i where i: "i < length (ooq r)" "ooq r ! i = sg" using sg(1) by (auto simp: in_set_conv_nth)
    have "seg_end sg \<le> seg_end (last (ooq r))"
      using asc_end_mono [of "Suc (rTail r)" "ooq r" i "length (ooq r) - 1"] core i ne
      by (auto simp: core_def last_conv_nth)
    then show ?thesis using sg ck(1) ne by (simp add: highest_def)
  qed
  moreover have "rTail r \<le> off"
  proof (cases "ooq r = []")
    case True then show ?thesis using ck(1) by (simp add: highest_def)
  next
    case ne: False
    then have "last (ooq r) \<in> set (ooq r)" by simp
    then show ?thesis using asc_bounds [of "Suc (rTail r)" "ooq r" "last (ooq r)"] core ck(1) ne
      by (simp add: core_def highest_def)
  qed
  moreover have "held (inq r) \<subseteq> {..< rTail r}" using core contig_held by (auto simp: core_def)
  ultimately have "allheld r \<subseteq> {..< off} \<and> rTail r \<le> off" unfolding allheld_def by fastforce
  then have "rinv M (r\<lparr>peerFin := off, peerFinSet := True\<rparr>)"
    using inv ck(2) False by (auto simp: rinv_def core_def allheld_def)
  from finCheck_keeps [OF this, of ev] show ?thesis unfolding ck(3) by (auto simp: same_data_def)
qed

lemma releaseOOO_eq: "releaseOOO r = r\<lparr>oooCap := oooCap r - charge (ooq r), ooq := []\<rparr>"
  using release_mid [of r "[]" "ooq r" "[]" 0 "length (ooq r)"] by (simp add: releaseOOO_def)

lemma releaseOOO_keeps: "rinv M r \<Longrightarrow> rinv M (releaseOOO r)"
  by (auto simp: releaseOOO_eq rinv_def core_def allheld_def)

lemma releaseRecv_eq:
  "releaseRecv r = r\<lparr>oooCap := oooCap r - charge (inq r) - charge (ooq r), inq := [], ooq := [], rTail := rRead r\<rparr>"
  by (simp add: releaseRecv_def releaseOOO_eq Let_def charge_def segCap_fun)

lemma releaseRecv_keeps: "rinv M r \<Longrightarrow> rinv M (releaseRecv r)"
  by (auto simp: releaseRecv_eq rinv_def core_def allheld_def)

lemma bump_inq [simp]: "inq (bumpNow ev r) = inq r"
  by (simp add: bumpNow_def emit_def Let_def)

lemma cadence_inq [simp]: "inq (ackCadence ev r) = inq r"
  by (simp add: ackCadence_def emit_def)

lemma finCheck_inq [simp]: "inq (peerFinCheck ev r) = inq r"
  by (simp add: peerFinCheck_def emit_def Let_def)

lemma consume_inq: "rcopying r \<Longrightarrow> inq (snd (consumeAll ev r)) = inq r"
  by (simp add: consumeAll_def Let_def)

lemma afterPlace_inq:
  assumes inv: "rinv M r" and cp: "rcopying r"
  shows "inq (afterPlace ev r) = inq r"
proof (cases "discard r")
  case False
  obtain k c d where "shed ev r = r\<lparr>oooCap := c, oooDropped := d, ooq := take k (ooq r)\<rparr>" using shed_spec [OF inv] by blast
  then show ?thesis using False by (simp add: afterPlace_def bumpNow_def emit_def Let_def)
next
  case True
  have c: "inq (snd (consumeAll ev r)) = inq r" "rinv M (snd (consumeAll ev r))"
  proof -
    show "rinv M (snd (consumeAll ev r))" using consumeAll_spec [OF inv] by blast
    show "inq (snd (consumeAll ev r)) = inq r"
      by (rule consume_inq [OF cp])
  qed
  define r2 where "r2 = (if fst (consumeAll ev r) > 0 then emit RingActor ((snd (consumeAll ev r))\<lparr>discardedAfterClose := True,
                      facts := or (facts (snd (consumeAll ev r))) factDiscardedAfterClose\<rparr>) else snd (consumeAll ev r))"
  have r2: "inq r2 = inq r" "rinv M r2"
    using c by (auto simp: r2_def emit_def rinv_def core_def allheld_def)
  have "afterPlace ev r = shed ev r2"
    using True by (simp add: afterPlace_def r2_def Let_def case_prod_unfold)
  moreover obtain k c d where "shed ev r2 = r2\<lparr>oooCap := c, oooDropped := d, ooq := take k (ooq r2)\<rparr>"
    using shed_spec [OF r2(2)] by blast
  ultimately show ?thesis using r2(1) by simp
qed

lemma recvData_inq:
  assumes inv: "rinv M r" and wf: "wf_frame off p buf" and res: "recvData ev off p buf r = Inr r'"
    and pf: "pfits M (rTail r) off p" and cp: "rcopying r"
  shows "held (inq r) \<subseteq> held (inq r')"
  using res wf
proof (cases rule: recvData_cases)
  case dup
  then show ?thesis using raceDup_keeps [OF inv, of ev "length p" True] by (simp add: same_data_def)
next
  case place
  define r1 where "r1 = snd (place ev off p buf r)"
  have k: "rinv M r1" "rkeep r r1" "rTail r \<le> rTail r1" "allheld r \<subseteq> allheld r1"
    using place_keeps [OF inv wf place(1) pf, of ev] by (auto simp: r1_def)
  have sub: "held (inq r) \<subseteq> held (inq r1)"
  proof
    fix x assume x: "x \<in> held (inq r)"
    have "x < rTail r" using x inv contig_held by (fastforce simp: rinv_def core_def)
    moreover have "x \<in> allheld r1" using x k(4) by (auto simp: allheld_def)
    ultimately show "x \<in> held (inq r1)" using allheld_bounds [of M r1 x] k(1,3) by (auto simp: rinv_def allheld_def)
  qed
  have "rcopying r1" using cp k(2) by (simp add: rkeep_def)
  then have "inq (afterPlace ev r1) = inq r1" by (rule afterPlace_inq [OF k(1)])
  then show ?thesis using place(2) sub by (simp add: r1_def [symmetric] Let_def)
qed

section \<open>Histories\<close>

text \<open>\<open>S\<close> is the stream that the peer sends, \<open>first\<close> its first offset; \<open>got\<close> is what the calls of \<open>Read\<close> returned so far,
  in order, and \<open>cp\<close> the bytes that a \<open>Read\<close> has taken and not yet committed.\<close>

inductive rrun :: "(nat \<Rightarrow> byte) \<Rightarrow> nat \<Rightarrow> rcv \<Rightarrow> byte list \<Rightarrow> byte list option \<Rightarrow> bool" for S first where
  start: "first < 2 ^ 64 \<Longrightarrow> rrun S first (initRecv first) [] None"
| data: "rrun S first r got cp \<Longrightarrow> wf_frame off p buf \<Longrightarrow> (\<And>k. k < length p \<Longrightarrow> p ! k = S (off + k)) \<Longrightarrow>
    dataLocked ev early off p buf r = (err, r') \<Longrightarrow> rrun S first r' got cp"
| fin: "rrun S first r got cp \<Longrightarrow> finLocked ev off r = Inr r' \<Longrightarrow> rrun S first r' got cp"
| advertise: "rrun S first r got cp \<Longrightarrow> rightEdge r \<le> x \<Longrightarrow> x < 2 ^ 64 \<Longrightarrow> rrun S first (r\<lparr>rightEdge := x\<rparr>) got cp"
| other: "rrun S first r got cp \<Longrightarrow> rrun S first (r\<lparr>rwaiting := w, ackOnData := d\<rparr>) got cp"
| read: "rrun S first r got None \<Longrightarrow> readBegin dl n r = Some (bs, r') \<Longrightarrow> rrun S first r' got (Some bs)"
| commit: "rrun S first r got (Some bs) \<Longrightarrow> readCommit ev (length bs) r = (given, r') \<Longrightarrow>
    rrun S first r' (if given then got @ bs else got) None"
| close: "rrun S first r got cp \<Longrightarrow> rrun S first (closeRecv ev r) got cp"
| stop: "rrun S first r got cp \<Longrightarrow> rrun S first (endRecv r) got cp"

definition rhist :: "(nat \<Rightarrow> byte) \<Rightarrow> nat \<Rightarrow> rcv \<Rightarrow> byte list \<Rightarrow> byte list option \<Rightarrow> bool" where
  "rhist S first r got cp \<longleftrightarrow> rinv (\<lambda>x. Some (S x)) r \<and> (discard r \<longleftrightarrow> closed r) \<and>
     got = map S [first ..< first + length got] \<and> first + length got \<le> rRead r \<and>
     (\<not> closed r \<longrightarrow> rRead r = first + length got) \<and>
     (case cp of None \<Rightarrow> \<not> rcopying r
      | Some bs \<Rightarrow> rcopying r \<and> bs = map S [first + length got ..< first + length got + length bs] \<and>
          {first + length got ..< first + length got + length bs} \<subseteq> held (inq r))"

text \<open>An operation that keeps the flags and the bytes under the reader keeps the history.\<close>

lemma rhist_step:
  assumes "rhist S first r got cp" "rinv (\<lambda>x. Some (S x)) r'" "rcopying r' = rcopying r"
    "discard r' \<longleftrightarrow> closed r'" "rRead r \<le> rRead r'" "\<not> closed r' \<Longrightarrow> \<not> closed r \<and> rRead r' = rRead r"
    "rcopying r \<Longrightarrow> held (inq r) \<subseteq> held (inq r')"
  shows "rhist S first r' got cp"
  using assms unfolding rhist_def by (cases cp) auto

lemma rinv_flags [simp]:
  "rinv M (r\<lparr>rcopying := b\<rparr>) = rinv M r" "rinv M (r\<lparr>rfreePending := b\<rparr>) = rinv M r"
  "rinv M (r\<lparr>rwaiting := w, ackOnData := d\<rparr>) = rinv M r" "rinv M (r\<lparr>ended := b\<rparr>) = rinv M r"
  "rinv M (r\<lparr>closed := b, discard := c\<rparr>) = rinv M r" "rinv M (r\<lparr>facts := f\<rparr>) = rinv M r"
  "rinv M (r\<lparr>earlyBytes := n\<rparr>) = rinv M r"
  by (simp_all add: rinv_def core_def allheld_def)

lemma rinv_edge: "rinv M r \<Longrightarrow> rightEdge r \<le> x \<Longrightarrow> x < 2 ^ 64 \<Longrightarrow> rinv M (r\<lparr>rightEdge := x\<rparr>)"
  unfolding rinv_def core_def allheld_def by auto

lemma honest_pfits: "(\<And>k. k < length p \<Longrightarrow> p ! k = S (off + k)) \<Longrightarrow> pfits (\<lambda>x. Some (S x)) lo off p"
  by (simp add: pfits_def)

lemma rhist_recv:
  assumes h: "rhist S first r got cp" and wf: "wf_frame off p buf" and hon: "\<And>k. k < length p \<Longrightarrow> p ! k = S (off + k)"
    and res: "recvData ev off p buf r = Inr r'"
  shows "rhist S first r' got cp"
proof -
  have inv: "rinv (\<lambda>x. Some (S x)) r" and dc: "discard r \<longleftrightarrow> closed r" using h by (auto simp: rhist_def)
  note pf = honest_pfits [where p = p and S = S and off = off, OF hon]
  have k: "rinv (\<lambda>x. Some (S x)) r'" "rkeep r r'" "rTail r \<le> rTail r'"
      "rRead r' = (if discard r \<and> rTail r' \<noteq> rTail r then rTail r' else rRead r)"
    using recvData_keeps [OF inv wf res pf] by auto
  have rd: "rRead r \<le> rTail r" using inv by (simp add: rinv_def core_def)
  show ?thesis
    by (rule rhist_step [OF h k(1)])
      (use k dc rd recvData_inq [OF inv wf res pf] in \<open>auto simp: rkeep_def\<close>)
qed

lemma rhist_data:
  assumes h: "rhist S first r got cp" and wf: "wf_frame off p buf" and hon: "\<And>k. k < length p \<Longrightarrow> p ! k = S (off + k)"
    and res: "dataLocked ev early off p buf r = (err, r')"
  shows "rhist S first r' got cp"
proof -
  define r1 where "r1 = (if rightEdge r < earlyEnd ev then r\<lparr>rightEdge := earlyEnd ev\<rparr> else r)"
  have lim: "earlyEnd ev < 2 ^ 64" unfolding earlyEnd_def by (rule mod_less_divisor) simp
  have h1: "rhist S first r1 got cp"
  proof (cases "rightEdge r < earlyEnd ev")
    case True
    then have "rinv (\<lambda>x. Some (S x)) (r\<lparr>rightEdge := earlyEnd ev\<rparr>)"
      using h by (intro rinv_edge [OF _ _ lim]) (auto simp: rhist_def)
    then have "rhist S first (r\<lparr>rightEdge := earlyEnd ev\<rparr>) got cp"
      by (rule rhist_step [OF h]) (use h in \<open>auto simp: rhist_def\<close>)
    then show ?thesis using True by (simp add: r1_def)
  qed (use h in \<open>simp add: r1_def\<close>)
  have early: "rhist S first (r2\<lparr>earlyBytes := n\<rparr>) got cp" if h2: "rhist S first r2 got cp" for r2 n
    by (rule rhist_step [OF h2]) (use h2 in \<open>auto simp: rhist_def\<close>)
  define A where "A \<longleftrightarrow> \<not> early \<or> (off + length p) mod 2 ^ 64 < off \<or> (off + length p) mod 2 ^ 64 > earlyEnd ev"
  have eq: "earlyData ev early off p buf r = (if A then (Some errDataBeforeOpen, r)
      else case recvData ev off p buf r1 of
        Inl v \<Rightarrow> (Some v, r1\<lparr>earlyBytes := rxBytes r1 + segList_bytes (ooq r1)\<rparr>)
      | Inr r2 \<Rightarrow> (None, r2\<lparr>earlyBytes := rxBytes r2 + segList_bytes (ooq r2)\<rparr>))"
    unfolding earlyData_def Let_def r1_def [symmetric] A_def [symmetric] by (cases "recvData ev off p buf r1") simp_all
  show ?thesis
  proof (cases "ended r")
    case True then show ?thesis using res h by (simp add: dataLocked_def)
  next
    case live: False
    show ?thesis
    proof (cases "e_pending ev")
      case True
      then have e: "earlyData ev early off p buf r = (err, r')" using res live by (simp add: dataLocked_def)
      show ?thesis
      proof (cases "recvData ev off p buf r1")
        case (Inl v)
        then have "r' = r \<or> r' = r1\<lparr>earlyBytes := rxBytes r1 + segList_bytes (ooq r1)\<rparr>"
          using e unfolding eq by (simp split: if_split_asm)
        then show ?thesis using h early [OF h1] by metis
      next
        case (Inr r2)
        then have "r' = r \<or> r' = r2\<lparr>earlyBytes := rxBytes r2 + segList_bytes (ooq r2)\<rparr>"
          using e unfolding eq by (simp split: if_split_asm)
        then show ?thesis using h early [OF rhist_recv [OF h1 wf hon Inr]] by metis
      qed
    next
      case False
      show ?thesis
      proof (cases "recvData ev off p buf r")
        case (Inl v) then show ?thesis using False live res h by (simp add: dataLocked_def)
      next
        case (Inr r2)
        then show ?thesis using False live res rhist_recv [OF h wf hon Inr] by (simp add: dataLocked_def)
      qed
    qed
  qed
qed

lemma rhist_read:
  assumes h: "rhist S first r got None" and res: "readBegin dl n r = Some (bs, r')"
  shows "rhist S first r' got (Some bs) \<and> bs \<noteq> []"
proof -
  have inv: "rinv (\<lambda>x. Some (S x)) r" and opn: "\<not> closed r" "rRead r < rTail r" "0 < n"
    and r': "r' = r\<lparr>rcopying := True\<rparr>" "bs = readViews (inq r) (rRead r) 0 (min n (rTail r - rRead r))"
    using h res by (auto simp: rhist_def readBegin_def split: if_splits)
  have x0: "rRead r = first + length got" using h opn by (simp add: rhist_def)
  obtain a where a: "a \<le> rRead r" "contig a (inq r) (rTail r)" "segs_inv (\<lambda>x. Some (S x)) (inq r)"
    using inv by (auto simp: rinv_def core_def)
  obtain m where m: "m \<le> min n (rTail r - rRead r)" "bs = map (\<lambda>y. the (Some (S y))) [rRead r ..< rRead r + m]"
    using readViews_prefix [OF a(2,3,1), of "min n (rTail r - rRead r)" 0] opn(2) r'(2) by fastforce
  have ne: "bs \<noteq> []" using readViews_some [OF a(2,1) opn(2), of "min n (rTail r - rRead r)" 0] opn r'(2) by simp
  have len: "length bs = m" using m(2) by simp
  have "{rRead r ..< rRead r + m} \<subseteq> held (inq r)" using contig_held [OF a(2)] a(1) m(1) opn(2) by auto
  then show ?thesis using h inv m(2) len ne x0 unfolding rhist_def r'(1) by auto
qed

lemma rhist_commit:
  assumes h: "rhist S first r got (Some bs)" and res: "readCommit ev (length bs) r = (given, r')"
  shows "rhist S first r' (if given then got @ bs else got) None"
proof -
  define n where "n = length bs"
  define r0 where "r0 = r\<lparr>rcopying := False\<rparr>"
  have inv: "rinv (\<lambda>x. Some (S x)) r0" and dc: "discard r \<longleftrightarrow> closed r" using h by (auto simp: rhist_def r0_def)
  have held: "{first + length got ..< first + length got + n} \<subseteq> held (inq r)"
    and bs: "bs = map S [first + length got ..< first + length got + n]" using h by (auto simp: rhist_def n_def)
  show ?thesis
  proof (cases "closed r")
    case True
    have res': "given = False" "r' = (if rfreePending r0 then releaseConsumed (r0\<lparr>rfreePending := False\<rparr>) else r0)"
      using res True by (auto simp: readCommit_def Let_def r0_def)
    obtain l c where rc: "releaseConsumed (r0\<lparr>rfreePending := False\<rparr>) = r0\<lparr>rfreePending := False, inq := l, oooCap := c\<rparr>"
      using consumed_keeps [of "\<lambda>x. Some (S x)" "r0\<lparr>rfreePending := False\<rparr>"] inv by (auto simp only: rinv_flags)
    have "rinv (\<lambda>x. Some (S x)) r'"
      using consumed_keeps [of "\<lambda>x. Some (S x)" "r0\<lparr>rfreePending := False\<rparr>"] inv by (auto simp: res')
    moreover have "rRead r' = rRead r" "closed r'" "discard r'" "\<not> rcopying r'"
      using True dc unfolding res'(2) rc by (auto simp: r0_def)
    ultimately show ?thesis using h res'(1) by (simp add: rhist_def)
  next
    case False
    have x0: "rRead r = first + length got" using h False by (simp add: rhist_def)
    obtain a where a: "contig a (inq r) (rTail r)" "rRead r \<le> rTail r"
      using inv by (auto simp: rinv_def core_def r0_def)
    have le: "rRead r + n \<le> rTail r"
    proof (cases "n = 0")
      case True then show ?thesis using a by simp
    next
      case nz: False
      then have "rRead r + n - 1 \<in> held (inq r)" using held x0 by auto
      then show ?thesis using contig_held [OF a(1)] nz by auto
    qed
    define r1 where "r1 = r0\<lparr>rRead := rRead r0 + n, delivered := delivered r0 + n\<rparr>"
    have i1: "rinv (\<lambda>x. Some (S x)) r1"
      unfolding r1_def by (rule rinv_consume [OF inv]) (use le in \<open>auto simp: r0_def\<close>)
    obtain l c where rc: "releaseConsumed r1 = r1\<lparr>inq := l, oooCap := c\<rparr>" using consumed_keeps [OF i1] by blast
    define r2 where "r2 = releaseConsumed r1"
    have i2: "rinv (\<lambda>x. Some (S x)) r2" using consumed_keeps [OF i1] by (simp add: r2_def)
    have f2: "rRead r2 = rRead r + n" "\<not> closed r2" "\<not> discard r2" "\<not> rcopying r2"
      using False dc unfolding r2_def rc by (auto simp: r1_def r0_def)
    have res': "given = True" "r' = (if \<not> ended r2 then peerFinCheck ev (ackCadence ev r2)
        else if rfreePending r2 then releaseRecv (r2\<lparr>rfreePending := False\<rparr>) else r2)"
      using res False by (auto simp: readCommit_def Let_def r0_def r1_def r2_def n_def)
    have ack: "rinv (\<lambda>x. Some (S x)) (peerFinCheck ev (ackCadence ev r2))" "same_data r2 (peerFinCheck ev (ackCadence ev r2))"
      using cadence_keeps [OF i2, of ev] finCheck_keeps [of _ "ackCadence ev r2" ev] same_data_trans by blast+
    have i': "rinv (\<lambda>x. Some (S x)) r' \<and> rRead r' = rRead r + n \<and> \<not> closed r' \<and> \<not> discard r' \<and> \<not> rcopying r'"
    proof (cases "ended r2")
      case True
      then show ?thesis using i2 f2 releaseRecv_keeps [of _ "r2\<lparr>rfreePending := False\<rparr>"] by (auto simp: res' releaseRecv_eq)
    next
      case ne: False
      then show ?thesis using ack f2 by (auto simp: res' same_data_def)
    qed
    have "got @ bs = map S [first ..< first + (length got + n)]"
    proof -
      have "got = map S [first ..< first + length got]" using h by (simp add: rhist_def)
      then have "got @ bs = map S [first ..< first + length got] @ map S [first + length got ..< first + length got + n]"
        using bs by metis
      then show ?thesis by (metis add.assoc le_add1 map_append upt_add_eq_append)
    qed
    then show ?thesis using i' x0 res'(1) by (simp add: rhist_def n_def)
  qed
qed

lemma rhist_close:
  assumes h: "rhist S first r got cp"
  shows "rhist S first (closeRecv ev r) got cp"
proof (cases "closed r")
  case False
  define r0 where "r0 = r\<lparr>closed := True, discard := True\<rparr>"
  define r1 where "r1 = snd (consumeAll ev r0)"
  have inv: "rinv (\<lambda>x. Some (S x)) r0" using h by (simp add: rhist_def r0_def)
  have le: "rRead r \<le> rTail r" using h by (simp add: rhist_def rinv_def core_def)
  have k: "rinv (\<lambda>x. Some (S x)) r1" "rRead r1 = rTail r" "rkeep r0 r1"
    using consumeAll_spec [OF inv, of ev] by (auto simp: r1_def r0_def)
  have q: "rcopying r \<Longrightarrow> inq r1 = inq r" using consume_inq [of r0 ev] by (simp add: r1_def r0_def)
  have eq: "closeRecv ev r = (if rwaiting r1 then emit SignalReader r1 else r1)
      \<lparr>facts := or (facts (if rwaiting r1 then emit SignalReader r1 else r1)) factClose\<rparr>"
    using False by (simp add: closeRecv_def Let_def r1_def r0_def)
  have "rinv (\<lambda>x. Some (S x)) (closeRecv ev r)" unfolding eq using k(1) by (simp add: emit_def rinv_def core_def allheld_def)
  moreover have "rcopying (closeRecv ev r) = rcopying r" "discard (closeRecv ev r)" "closed (closeRecv ev r)"
      "rRead (closeRecv ev r) = rTail r" "inq (closeRecv ev r) = inq r1"
    unfolding eq using k(2,3) by (cases "rwaiting r1"; simp add: emit_def rkeep_def r0_def)+
  ultimately show ?thesis by (intro rhist_step [OF h]) (use q le in auto)
qed (use h in \<open>simp add: closeRecv_def\<close>)

lemma rhist_stop:
  assumes h: "rhist S first r got cp"
  shows "rhist S first (endRecv r) got cp"
proof (cases "ended r")
  case False
  define r1 where "r1 = (if rwaiting r then emit SignalReader (r\<lparr>ended := True\<rparr>) else r\<lparr>ended := True\<rparr>)"
  have eq: "endRecv r = (if rcopying r then releaseOOO (r1\<lparr>rfreePending := True\<rparr>) else releaseRecv r1)"
    using False by (simp add: endRecv_def Let_def r1_def emit_def)
  have inv: "rinv (\<lambda>x. Some (S x)) r1" and f: "rcopying r1 = rcopying r" "discard r1 = discard r" "closed r1 = closed r"
      "rRead r1 = rRead r" "inq r1 = inq r"
    using h by (auto simp: rhist_def r1_def emit_def rinv_def core_def allheld_def)
  have "rinv (\<lambda>x. Some (S x)) (endRecv r)"
    unfolding eq using releaseOOO_keeps [of _ "r1\<lparr>rfreePending := True\<rparr>"] releaseRecv_keeps [OF inv] inv by simp
  then show ?thesis
    by (rule rhist_step [OF h]) (use f h in \<open>auto simp: eq releaseOOO_eq releaseRecv_eq rhist_def\<close>)
qed (use h in \<open>simp add: endRecv_def\<close>)

lemma rhist_start: "first < 2 ^ 64 \<Longrightarrow> rhist S first (initRecv first) [] None"
  by (simp add: rhist_def initRecv_def rinv_def core_def allheld_def)

lemma rrun_rhist: "rrun S first r got cp \<Longrightarrow> rhist S first r got cp"
proof (induction rule: rrun.induct)
  case start then show ?case by (rule rhist_start)
next
  case (data r got cp off p buf ev early err r')
  then show ?case by (intro rhist_data [OF data.IH]) auto
next
  case (fin r got cp ev off r')
  note k = fin_keeps [OF _ fin.hyps(2)]
  have "rinv (\<lambda>x. Some (S x)) r" using fin.IH by (simp add: rhist_def)
  from k [OF this] show ?case by (intro rhist_step [OF fin.IH]) (use fin.IH in \<open>auto simp: rhist_def\<close>)
next
  case (advertise r got cp x)
  have "rinv (\<lambda>x. Some (S x)) (r\<lparr>rightEdge := x\<rparr>)"
    using advertise by (intro rinv_edge) (auto simp: rhist_def)
  then show ?case by (rule rhist_step [OF advertise.IH]) (use advertise.IH in \<open>auto simp: rhist_def\<close>)
next
  case (other r got cp w d)
  then show ?case by (intro rhist_step [OF other.IH]) (auto simp: rhist_def)
next
  case (read r got dl n bs r') then show ?case using rhist_read by blast
next
  case (commit r got bs ev given r') then show ?case by (intro rhist_commit)
next
  case close then show ?case by (intro rhist_close)
next
  case stop then show ?case by (intro rhist_stop)
qed

lemma honest_readable:
  assumes inv: "rinv (\<lambda>x. Some (S x)) r"
  shows "readable r = map S [rRead r ..< rTail r]"
proof -
  have core: "core (\<lambda>x. Some (S x)) r" using inv by (simp add: rinv_def)
  obtain a where a: "contig a (inq r) (rTail r)" "a \<le> rRead r" using core by (auto simp: core_def)
  have "content r x = Some (S x)" if hx: "rRead r \<le> x" "x < rTail r" for x
  proof -
    have "x \<in> allheld r" using contig_held [OF a(1)] a(2) hx by (auto simp: allheld_def)
    then show ?thesis using content_eq [OF core] by simp
  qed
  then show ?thesis by (simp add: readable_def)
qed

lemma honest_no_conflict:
  assumes inv: "rinv (\<lambda>x. Some (S x)) r" and wf: "wf_frame off p buf" and hon: "\<And>k. k < length p \<Longrightarrow> p ! k = S (off + k)"
  shows "recvData ev off p buf r \<noteq> Inl (conflictErr ev)"
proof
  assume bad: "recvData ev off p buf r = Inl (conflictErr ev)"
  have ok: "rcv_ok r" by (rule rcv_okI [OF inv])
  have core: "core (\<lambda>x. Some (S x)) r" using inv by (simp add: rinv_def)
  have "recv_error ev off p r = Some (conflictErr ev)" using recvData_error_spec [OF ok wf, of ev] bad by simp
  then obtain x where x: "off \<le> x" "x < off + length p" "x \<in> allheld r" "content r x \<noteq> Some (p ! (x - off))"
    by (auto simp: recv_error_def conflictErr_def split: if_split_asm)
  moreover have "content r x = Some (S x)" using content_eq [OF core x(3)] by simp
  moreover have "p ! (x - off) = S x" using hon [of "x - off"] x(1,2) by simp
  ultimately show False by simp
qed

text \<open>Claim C1: whatever the carriers do, the application reads a prefix of what was sent. In every history of one
  stream, in which frames of the stream \<open>S\<close> arrive in any order, repeated, cut differently, early or late, between and
  during calls of \<open>Read\<close>, mixed with FINs, window advertisements, \<open>Close\<close> and the end of the session: the calls of
  \<open>Read\<close> returned \<open>S\<close> from its first offset on, without a gap, a repeat or a foreign byte; what can be read next
  continues it; a \<open>Read\<close> that still copies without the lock copies the right bytes out of buffers that are still held;
  and no frame of \<open>S\<close> is ever reported as a conflict.\<close>

theorem reads_are_prefix:
  assumes "rrun S first r got cp"
  shows "got = map S [first ..< first + length got] \<and>
    (closed r \<or> rRead r = first + length got \<and> readable r = map S [rRead r ..< rTail r]) \<and>
    (case cp of None \<Rightarrow> \<not> rcopying r
     | Some bs \<Rightarrow> rcopying r \<and> bs = map S [first + length got ..< first + length got + length bs] \<and>
         {first + length got ..< first + length got + length bs} \<subseteq> held (inq r)) \<and>
    (\<forall>ev off p buf. wf_frame off p buf \<and> (\<forall>k < length p. p ! k = S (off + k)) \<longrightarrow>
       recvData ev off p buf r \<noteq> Inl (conflictErr ev))"
  using rrun_rhist [OF assms] honest_readable honest_no_conflict unfolding rhist_def by blast

text \<open>Two frames in the wrong order, the second cut across the first, and two calls of \<open>Read\<close>.\<close>

definition demo_stream :: "nat \<Rightarrow> byte" where
  "demo_stream x = word_of_nat (10 + x)"

definition demo0 :: rcv where "demo0 = (initRecv 0)\<lparr>rightEdge := 100\<rparr>"
definition demo1 :: rcv where "demo1 = snd (dataLocked ev0 False 2 [12, 13, 14] None demo0)"
definition demo2 :: rcv where "demo2 = snd (dataLocked ev0 False 0 [10, 11, 12] None demo1)"
definition demo3 :: rcv where "demo3 = snd (the (readBegin False 4 demo2))"
definition demo4 :: rcv where "demo4 = snd (readCommit ev0 4 demo3)"

lemma demo_run: "rrun demo_stream 0 demo4 [10, 11, 12, 13] None"
proof -
  have hon: "k < length p \<Longrightarrow> p ! k = demo_stream (off + k)"
    if "off = 2 \<and> p = [12, 13, 14] \<or> off = 0 \<and> p = [10, 11, 12]" for k off p
    using that by (auto simp: demo_stream_def less_Suc_eq nth_Cons')
  have "rrun demo_stream 0 demo0 [] None"
    unfolding demo0_def by (rule rrun.advertise [OF rrun.start]) (simp_all add: initRecv_def)
  then have "rrun demo_stream 0 demo1 [] None"
    by (rule rrun.data [where off = 2 and p = "[12, 13, 14]" and buf = None and ev = ev0 and early = False
        and err = "fst (dataLocked ev0 False 2 [12, 13, 14] None demo0)"])
      (simp add: wf_frame_def, rule hon, simp_all add: demo1_def)
  then have "rrun demo_stream 0 demo2 [] None"
    by (rule rrun.data [where off = 0 and p = "[10, 11, 12]" and buf = None and ev = ev0 and early = False
        and err = "fst (dataLocked ev0 False 0 [10, 11, 12] None demo1)"])
      (simp add: wf_frame_def, rule hon, simp_all add: demo2_def)
  moreover have "readBegin False 4 demo2 = Some ([10, 11, 12, 13], demo3)" by code_simp
  ultimately have "rrun demo_stream 0 demo3 [] (Some [10, 11, 12, 13])" by (rule rrun.read)
  moreover have "readCommit ev0 (length [10, 11, 12, 13 :: byte]) demo3 = (True, demo4)" by code_simp
  ultimately show ?thesis using rrun.commit [of demo_stream 0 demo3 "[]" "[10, 11, 12, 13]" ev0 True demo4] by simp
qed

theorem reads_are_prefix_witness:
  "rrun demo_stream 0 demo4 [10, 11, 12, 13] None \<and> rRead demo4 = 4 \<and> readable demo4 = [demo_stream 4]"
proof -
  have "\<not> closed demo4" "rTail demo4 = 5" by code_simp+
  then show ?thesis using reads_are_prefix [OF demo_run] demo_run by (simp add: upt_rec numeral_eq_Suc)
qed

end
