(* ===== verification/Carrier_Buf.thy ===== *)
theory Carrier_Buf
  imports Prelude
begin

text \<open>
  Pooled, reference-counted buffers: \<open>internal/carrier/buf.go\<close>. A buffer is named by an address; the
  state \<open>world\<close> holds every buffer's reference count, class, charge and bytes, the free buffers of each
  class and the budget's counter. One budget serves every buffer of the model, and a reference count, an \<open>atomic.Int32\<close>
  in the code, does not wrap. An atomic operation of the code is one step. What \<open>sync.Pool\<close> hands out is
  a parameter: a free buffer of the class that was put back, or a new one. The lemmas show that a buffer is handed
  out only when nobody holds it, that bytes of a held buffer are changed by no pool operation, and that the budget
  counts exactly the capacity of the charged buffers in use.
\<close>

section \<open>Size classes\<close>

definition ChunkSize :: nat where [simp]: "ChunkSize = 65536"
definition BigData :: nat where [simp]: "BigData = 16384"
definition ClassSlack :: nat where [simp]: "ClassSlack = 64"
definition minClassShift :: nat where [simp]: "minClassShift = 14"
definition maxClassShift :: nat where [simp]: "maxClassShift = 20"
definition numClasses :: nat where [simp]: "numClasses = maxClassShift - minClassShift + 1"
definition minDgramShift :: nat where [simp]: "minDgramShift = 11"
definition maxDgramShift :: nat where [simp]: "maxDgramShift = 16"
definition numDgramClass :: nat where [simp]: "numDgramClass = maxDgramShift - minDgramShift + 1"

record classLayout =
  cl_shift :: nat
  cl_n :: nat

definition streamLayout :: classLayout where "streamLayout = \<lparr>cl_shift = minClassShift, cl_n = numClasses\<rparr>"
definition dgramLayout :: classLayout where "dgramLayout = \<lparr>cl_shift = minDgramShift, cl_n = numDgramClass\<rparr>"

definition layout_size :: "classLayout \<Rightarrow> nat \<Rightarrow> nat" where
  "layout_size l c = 2 ^ (cl_shift l + c) + ClassSlack"

definition layout_limit :: "classLayout \<Rightarrow> nat" where
  "layout_limit l = layout_size l (cl_n l - 1)"

text \<open>\<open>bits.Len\<close>: the number of binary digits.\<close>

function bits_Len :: "nat \<Rightarrow> nat" where
  "bits_Len x = (if x = 0 then 0 else 1 + bits_Len (x div 2))"
  by pat_completeness auto
termination
  by (relation "measure id") auto

declare bits_Len.simps [simp del]

text \<open>\<open>None\<close> is the panic on a size out of range.\<close>

definition layout_class :: "classLayout \<Rightarrow> int \<Rightarrow> nat option" where
  "layout_class l n =
     (if n < 0 \<or> n > int (layout_limit l) then None
      else if n \<le> 2 ^ cl_shift l + int ClassSlack then Some 0
      else Some (bits_Len (nat (n - int ClassSlack - 1)) - cl_shift l))"

definition classSize :: "nat \<Rightarrow> nat" where "classSize c = layout_size streamLayout c"
definition classFor :: "int \<Rightarrow> nat option" where "classFor n = layout_class streamLayout n"

section \<open>Buffers and the budget\<close>

record Buf =
  bu_refs :: int
  bu_class :: nat
  bu_charged :: bool

record world =
  w_alloc :: "nat list"
  w_buf :: "nat \<Rightarrow> Buf"
  w_mem :: "nat \<Rightarrow> nat \<Rightarrow> byte"
  w_pool :: "nat \<Rightarrow> nat list"
  w_used :: int
  w_max :: int

definition TryAcquire :: "nat \<Rightarrow> world \<Rightarrow> bool \<times> world" where
  "TryAcquire n w = (if w_used w + int n > w_max w then (False, w) else (True, w\<lparr>w_used := w_used w + int n\<rparr>))"

definition Acquire :: "nat \<Rightarrow> world \<Rightarrow> world" where
  "Acquire n w = w\<lparr>w_used := w_used w + int n\<rparr>"

definition Budget_Release :: "nat \<Rightarrow> world \<Rightarrow> world" where
  "Budget_Release n w = w\<lparr>w_used := w_used w - int n\<rparr>"

definition set_buf :: "nat \<Rightarrow> Buf \<Rightarrow> world \<Rightarrow> world" where
  "set_buf a b w = w\<lparr>w_buf := (w_buf w)(a := b)\<rparr>"

definition Buf_Ref :: "nat \<Rightarrow> world \<Rightarrow> world" where
  "Buf_Ref a w = set_buf a ((w_buf w a)\<lparr>bu_refs := bu_refs (w_buf w a) + 1\<rparr>) w"

text \<open>\<open>None\<close> is the nil buffer. A release beyond the last reference is ignored, as in a production build.\<close>

definition Buf_Release :: "classLayout \<Rightarrow> nat option \<Rightarrow> world \<Rightarrow> world" where
  "Buf_Release l ao w =
     (case ao of
        None \<Rightarrow> w
      | Some a \<Rightarrow>
         let b = w_buf w a; n = bu_refs b - 1; w = set_buf a (b\<lparr>bu_refs := n\<rparr>) w
         in if n > 0 then w
            else if n < 0 then w
            else
             let w = (if bu_charged b
                      then Budget_Release (layout_size l (bu_class b)) (set_buf a (b\<lparr>bu_refs := n, bu_charged := False\<rparr>) w)
                      else w)
             in w\<lparr>w_pool := (w_pool w)(bu_class b := a # w_pool w (bu_class b))\<rparr>)"

text \<open>What \<open>sync.Pool.Get\<close> returns: a buffer that was put back, or a new one.\<close>

datatype pick = Recycled nat | Fresh nat

fun pick_addr :: "pick \<Rightarrow> nat" where
  "pick_addr (Recycled a) = a"
| "pick_addr (Fresh a) = a"

definition pool_take :: "nat \<Rightarrow> bool \<Rightarrow> pick \<Rightarrow> world \<Rightarrow> world" where
  "pool_take c charged pk w =
     (let w = (case pk of
                 Recycled a \<Rightarrow> w\<lparr>w_pool := (w_pool w)(c := remove1 a (w_pool w c))\<rparr>
               | Fresh a \<Rightarrow>
                   set_buf a \<lparr>bu_refs = 0, bu_class = c, bu_charged = False\<rparr>
                     (w\<lparr>w_alloc := a # w_alloc w, w_mem := (w_mem w)(a := (\<lambda>i. 0))\<rparr>));
          a = pick_addr pk
      in set_buf a ((w_buf w a)\<lparr>bu_charged := charged, bu_refs := 1\<rparr>) w)"

definition Get :: "classLayout \<Rightarrow> int \<Rightarrow> bool \<Rightarrow> pick \<Rightarrow> world \<Rightarrow> (nat \<times> world) option" where
  "Get l n charged pk w =
     (case layout_class l n of
        None \<Rightarrow> None
      | Some c \<Rightarrow>
          let w = (if charged then Acquire (layout_size l c) w else w)
          in Some (pick_addr pk, pool_take c charged pk w))"

definition TryGet :: "classLayout \<Rightarrow> int \<Rightarrow> bool \<Rightarrow> pick \<Rightarrow> world \<Rightarrow> (nat option \<times> world) option" where
  "TryGet l n charged pk w =
     (case layout_class l n of
        None \<Rightarrow> None
      | Some c \<Rightarrow>
          let (ok, w') = (if charged then TryAcquire (layout_size l c) w else (True, w))
          in if \<not> ok then Some (None, w) else Some (Some (pick_addr pk), pool_take c charged pk w'))"

definition TryCharge :: "classLayout \<Rightarrow> bool \<Rightarrow> nat \<Rightarrow> world \<Rightarrow> bool \<times> world" where
  "TryCharge l budget a w =
     (let b = w_buf w a
      in if \<not> budget then (True, w)
         else if bu_charged b then (False, w)
         else case TryAcquire (layout_size l (bu_class b)) w of
                (False, w') \<Rightarrow> (False, w)
              | (True, w') \<Rightarrow> (True, set_buf a (b\<lparr>bu_charged := True\<rparr>) w'))"

definition Uncharge :: "classLayout \<Rightarrow> nat \<Rightarrow> world \<Rightarrow> world" where
  "Uncharge l a w =
     (let b = w_buf w a
      in if bu_charged b then Budget_Release (layout_size l (bu_class b)) (set_buf a (b\<lparr>bu_charged := False\<rparr>) w) else w)"

section \<open>The class of a size\<close>

lemma bits_Len_bounds: "0 < x \<Longrightarrow> 0 < bits_Len x \<and> 2 ^ (bits_Len x - 1) \<le> x \<and> x < 2 ^ bits_Len x"
proof (induction x rule: bits_Len.induct)
  case (1 x)
  have eq: "bits_Len x = 1 + bits_Len (x div 2)" using 1 by (simp add: bits_Len.simps [of x])
  show ?case
  proof (cases "x div 2 = 0")
    case True
    then have "x = 1" using 1(2) by simp
    then show ?thesis using eq by (simp add: bits_Len.simps [of 0])
  next
    case False
    have ih: "0 < bits_Len (x div 2)" "2 ^ (bits_Len (x div 2) - 1) \<le> x div 2" "x div 2 < 2 ^ bits_Len (x div 2)"
      using 1 False by auto
    obtain k where k: "bits_Len (x div 2) = Suc k" using ih(1) by (cases "bits_Len (x div 2)") auto
    have "2 ^ k \<le> x div 2" "x div 2 < 2 ^ Suc k" using ih(2,3) k by simp_all
    then have "2 * 2 ^ k \<le> x" "x < 2 * 2 ^ Suc k" by linarith+
    then show ?thesis unfolding eq k by simp
  qed
qed

text \<open>The class of a size is the smallest that holds it; the code panics exactly outside the range.\<close>

lemma class_exact:
  assumes "0 < cl_n l"
  shows "case layout_class l n of
      None \<Rightarrow> n < 0 \<or> int (layout_limit l) < n
    | Some c \<Rightarrow> c < cl_n l \<and> 0 \<le> n \<and> n \<le> int (layout_size l c) \<and> (\<forall>c' < c. int (layout_size l c') < n)"
proof (cases "n < 0 \<or> n > int (layout_limit l)")
  case True then show ?thesis by (simp add: layout_class_def)
next
  case range: False
  show ?thesis
  proof (cases "n \<le> 2 ^ cl_shift l + int ClassSlack")
    case True
    then show ?thesis using range assms by (simp add: layout_class_def layout_size_def)
  next
    case False
    define x where "x = nat (n - int ClassSlack - 1)"
    define b where "b = bits_Len x"
    have "(0::int) < 2 ^ cl_shift l" by simp
    then have xn: "int x = n - 65" using False unfolding x_def ClassSlack_def by linarith
    have lo: "2 ^ cl_shift l \<le> x"
    proof -
      have "int (2 ^ cl_shift l) \<le> int x" using False xn by simp
      then show ?thesis by linarith
    qed
    moreover have "(0::nat) < 2 ^ cl_shift l" by simp
    ultimately have x: "0 < x" by linarith
    note bl = bits_Len_bounds [OF x, folded b_def]
    have sb: "cl_shift l < b"
    proof (rule ccontr)
      assume "\<not> cl_shift l < b"
      then have "(2::nat) ^ b \<le> 2 ^ cl_shift l" by (simp add: power_increasing)
      then show False using bl lo by linarith
    qed
    have hi: "x < 2 ^ (cl_shift l + (cl_n l - 1))"
    proof -
      have "int x < int (2 ^ (cl_shift l + (cl_n l - 1)))" using range xn by (simp add: layout_limit_def layout_size_def)
      then show ?thesis by linarith
    qed
    have bhi: "b \<le> cl_shift l + (cl_n l - 1)"
    proof (rule ccontr)
      assume "\<not> b \<le> cl_shift l + (cl_n l - 1)"
      then have "(2::nat) ^ (cl_shift l + (cl_n l - 1)) \<le> 2 ^ (b - 1)" by (intro power_increasing) auto
      then show False using bl hi by linarith
    qed
    have c: "layout_class l n = Some (b - cl_shift l)" using range False by (simp add: layout_class_def b_def x_def)
    have top: "cl_shift l + (b - cl_shift l) = b" using sb by simp
    have "n \<le> int (layout_size l (b - cl_shift l))"
    proof -
      have "int x < int (2 ^ b)" using bl by linarith
      then show ?thesis using xn by (simp add: layout_size_def top)
    qed
    moreover have "int (layout_size l c') < n" if h: "c' < b - cl_shift l" for c'
    proof -
      have "(2::nat) ^ (cl_shift l + c') \<le> 2 ^ (b - 1)" using h by (intro power_increasing) auto
      then have "int (2 ^ (cl_shift l + c')) \<le> int x" using bl by linarith
      then show ?thesis using xn by (simp add: layout_size_def)
    qed
    ultimately show ?thesis using c bhi assms range sb by auto
  qed
qed

section \<open>Who holds a buffer\<close>

text \<open>\<open>world_ok l w h\<close>: \<open>h\<close> is the number of references that users hold on each buffer.\<close>

definition charge_of :: "classLayout \<Rightarrow> world \<Rightarrow> nat \<Rightarrow> int" where
  "charge_of l w a = (if bu_charged (w_buf w a) then int (layout_size l (bu_class (w_buf w a))) else 0)"

definition world_ok :: "classLayout \<Rightarrow> world \<Rightarrow> (nat \<Rightarrow> nat) \<Rightarrow> bool" where
  "world_ok l w h \<longleftrightarrow> distinct (w_alloc w) \<and> (\<forall>a. a \<notin> set (w_alloc w) \<longrightarrow> h a = 0) \<and>
     (\<forall>c. distinct (w_pool w c)) \<and>
     (\<forall>c. \<forall>a \<in> set (w_pool w c). a \<in> set (w_alloc w) \<and> bu_class (w_buf w a) = c \<and> h a = 0) \<and>
     (\<forall>a \<in> set (w_alloc w). bu_refs (w_buf w a) = int (h a) \<and> (bu_charged (w_buf w a) \<longrightarrow> 0 < h a)) \<and>
     w_used w = sum_list (map (charge_of l w) (w_alloc w))"

definition pick_ok :: "nat \<Rightarrow> pick \<Rightarrow> world \<Rightarrow> bool" where
  "pick_ok c pk w = (case pk of Recycled a \<Rightarrow> a \<in> set (w_pool w c) | Fresh a \<Rightarrow> a \<notin> set (w_alloc w))"

lemma sum_update:
  "distinct xs \<Longrightarrow> a \<in> set xs \<Longrightarrow> (\<And>b. b \<noteq> a \<Longrightarrow> g b = f b) \<Longrightarrow>
    sum_list (map g xs) = sum_list (map f xs) + (g a - (f a :: int))"
proof (induction xs)
  case (Cons x xs)
  show ?case
  proof (cases "x = a")
    case True
    then have "sum_list (map g xs) = sum_list (map f xs)" using Cons.prems(1) by (intro arg_cong [where f = sum_list] map_cong refl Cons.prems(3)) auto
    then show ?thesis using True by simp
  next
    case False
    then show ?thesis using Cons by auto
  qed
qed simp

lemma charge_set_buf: "charge_of l (set_buf a b w) x = (if x = a then if bu_charged b then int (layout_size l (bu_class b)) else 0 else charge_of l w x)"
  by (simp add: charge_of_def set_buf_def)

lemma set_buf_simps [simp]:
  "w_alloc (set_buf a b w) = w_alloc w" "w_mem (set_buf a b w) = w_mem w" "w_pool (set_buf a b w) = w_pool w"
  "w_used (set_buf a b w) = w_used w" "w_max (set_buf a b w) = w_max w" "w_buf (set_buf a b w) = (w_buf w)(a := b)"
  by (simp_all add: set_buf_def)

lemma charge_more [simp]: "charge_of l (w\<lparr>w_used := u\<rparr>) = charge_of l w" "charge_of l (w\<lparr>w_pool := p\<rparr>) = charge_of l w"
  "charge_of l (w\<lparr>w_mem := m\<rparr>) = charge_of l w" "charge_of l (w\<lparr>w_alloc := al\<rparr>) = charge_of l w"
  by (simp_all add: charge_of_def fun_eq_iff)

text \<open>A buffer that is handed out was held by nobody.\<close>

lemma take_ok:
  assumes ok: "world_ok l w h" and pk: "pick_ok c pk w"
  shows "h (pick_addr pk) = 0 \<and>
    world_ok l (pool_take c charged pk (w\<lparr>w_used := w_used w + (if charged then int (layout_size l c) else 0)\<rparr>))
      (h(pick_addr pk := 1))"
proof (cases pk)
  case (Recycled a)
  have a: "a \<in> set (w_pool w c)" "a \<in> set (w_alloc w)" "bu_class (w_buf w a) = c" "h a = 0" "\<not> bu_charged (w_buf w a)"
    using ok pk Recycled by (auto simp: world_ok_def pick_ok_def)
  define w' where "w' = pool_take c charged pk (w\<lparr>w_used := w_used w + (if charged then int (layout_size l c) else 0)\<rparr>)"
  have eq: "w_alloc w' = w_alloc w" "w_buf w' = (w_buf w)(a := (w_buf w a)\<lparr>bu_charged := charged, bu_refs := 1\<rparr>)"
      "w_pool w' = (w_pool w)(c := remove1 a (w_pool w c))"
      "w_used w' = w_used w + (if charged then int (layout_size l c) else 0)"
    by (simp_all add: w'_def pool_take_def Recycled Let_def)
  have "sum_list (map (charge_of l w') (w_alloc w)) =
      sum_list (map (charge_of l w) (w_alloc w)) + (charge_of l w' a - charge_of l w a)"
    using ok a(2) by (intro sum_update) (auto simp: world_ok_def charge_of_def eq(2))
  moreover have "charge_of l w' a = (if charged then int (layout_size l c) else 0)" "charge_of l w a = 0"
    using a by (simp_all add: charge_of_def eq(2))
  moreover have "a \<notin> set (w_pool w c')" if "c' \<noteq> c" for c' using that ok a(3) by (auto simp: world_ok_def)
  ultimately have "world_ok l w' (h(a := 1))" using ok a unfolding world_ok_def eq by auto
  then show ?thesis using a(4) by (simp add: w'_def Recycled)
next
  case (Fresh a)
  have a: "a \<notin> set (w_alloc w)" "h a = 0" "\<And>c. a \<notin> set (w_pool w c)"
    using ok pk Fresh by (auto simp: world_ok_def pick_ok_def)
  define w' where "w' = pool_take c charged pk (w\<lparr>w_used := w_used w + (if charged then int (layout_size l c) else 0)\<rparr>)"
  have eq: "w_alloc w' = a # w_alloc w" "w_buf w' = (w_buf w)(a := \<lparr>bu_refs = 1, bu_class = c, bu_charged = charged\<rparr>)"
      "w_pool w' = w_pool w" "w_used w' = w_used w + (if charged then int (layout_size l c) else 0)"
    by (simp_all add: w'_def pool_take_def Fresh Let_def)
  have "sum_list (map (charge_of l w') (w_alloc w)) = sum_list (map (charge_of l w) (w_alloc w))"
    using a(1) by (intro arg_cong [where f = sum_list] map_cong refl) (auto simp: charge_of_def eq(2))
  moreover have "charge_of l w' a = (if charged then int (layout_size l c) else 0)" by (simp add: charge_of_def eq(2))
  ultimately have "world_ok l w' (h(a := 1))" using ok a unfolding world_ok_def eq by auto
  then show ?thesis using a(2) by (simp add: w'_def Fresh)
qed

lemma ref_ok:
  assumes ok: "world_ok l w h" and held: "0 < h a"
  shows "world_ok l (Buf_Ref a w) (h(a := h a + 1))"
proof -
  have a: "a \<in> set (w_alloc w)" using ok held by (force simp: world_ok_def)
  have "sum_list (map (charge_of l (Buf_Ref a w)) (w_alloc w)) = sum_list (map (charge_of l w) (w_alloc w))"
    by (intro arg_cong [where f = sum_list] map_cong) (auto simp: Buf_Ref_def charge_set_buf charge_of_def)
  then show ?thesis using ok held a by (auto simp: world_ok_def Buf_Ref_def)
qed

lemma release_ok:
  assumes ok: "world_ok l w h" and held: "0 < h a"
  shows "world_ok l (Buf_Release l (Some a) w) (h(a := h a - 1))"
proof -
  have a: "a \<in> set (w_alloc w)" "bu_refs (w_buf w a) = int (h a)" "\<And>c. a \<notin> set (w_pool w c)"
    using ok held by (force simp: world_ok_def)+
  define n where "n = bu_refs (w_buf w a) - 1"
  show ?thesis
  proof (cases "n > 0")
    case True
    then have eq: "Buf_Release l (Some a) w = set_buf a ((w_buf w a)\<lparr>bu_refs := n\<rparr>) w"
      by (simp add: Buf_Release_def Let_def n_def)
    have "sum_list (map (charge_of l (Buf_Release l (Some a) w)) (w_alloc w)) = sum_list (map (charge_of l w) (w_alloc w))"
      by (intro arg_cong [where f = sum_list] map_cong) (auto simp: eq charge_set_buf charge_of_def)
    then show ?thesis using ok held a True unfolding eq by (auto simp: world_ok_def n_def)
  next
    case False
    then have one: "h a = 1" "n = 0" using a held by (auto simp: n_def)
    define b where "b = w_buf w a"
    define w' where "w' = Buf_Release l (Some a) w"
    have eq: "w_alloc w' = w_alloc w" "w_buf w' = (w_buf w)(a := b\<lparr>bu_refs := 0, bu_charged := False\<rparr>)"
        "w_pool w' = (w_pool w)(bu_class b := a # w_pool w (bu_class b))" "w_used w' = w_used w - charge_of l w a"
      using one unfolding w'_def by (cases "w_buf w a"; auto simp: Buf_Release_def Let_def n_def b_def Budget_Release_def charge_of_def)+
    have "sum_list (map (charge_of l w') (w_alloc w)) =
        sum_list (map (charge_of l w) (w_alloc w)) + (charge_of l w' a - charge_of l w a)"
      using ok a by (intro sum_update) (auto simp: world_ok_def charge_of_def eq)
    moreover have "charge_of l w' a = 0" by (simp add: charge_of_def eq)
    ultimately have "world_ok l w' (h(a := 0))" using ok a one unfolding world_ok_def eq
      by (auto simp: b_def)
    then show ?thesis using one by (simp add: w'_def)
  qed
qed

lemma charge_ok:
  assumes ok: "world_ok l w h" and held: "0 < h a" and res: "TryCharge l budget a w = (done', w')"
  shows "world_ok l w' h"
proof (cases "budget \<and> done'")
  case True
  have a: "a \<in> set (w_alloc w)" using ok held by (force simp: world_ok_def)
  have eq: "\<not> bu_charged (w_buf w a)" "w_alloc w' = w_alloc w" "w_buf w' = (w_buf w)(a := (w_buf w a)\<lparr>bu_charged := True\<rparr>)"
      "w_pool w' = w_pool w" "w_used w' = w_used w + int (layout_size l (bu_class (w_buf w a)))"
    using res True by (auto simp: TryCharge_def TryAcquire_def Let_def split: if_splits)
  have "sum_list (map (charge_of l w') (w_alloc w)) =
      sum_list (map (charge_of l w) (w_alloc w)) + (charge_of l w' a - charge_of l w a)"
    using ok a by (intro sum_update) (auto simp: world_ok_def charge_of_def eq(3))
  moreover have "charge_of l w' a - charge_of l w a = int (layout_size l (bu_class (w_buf w a)))"
    using eq(1) by (simp add: charge_of_def eq(3))
  ultimately show ?thesis using ok a held unfolding world_ok_def eq by auto
next
  case False
  then have "w' = w" using res by (auto simp: TryCharge_def TryAcquire_def Let_def split: if_splits)
  then show ?thesis using ok by simp
qed

lemma uncharge_ok:
  assumes ok: "world_ok l w h" and held: "0 < h a"
  shows "world_ok l (Uncharge l a w) h"
proof (cases "bu_charged (w_buf w a)")
  case True
  define w' where "w' = Uncharge l a w"
  have a: "a \<in> set (w_alloc w)" using ok held by (force simp: world_ok_def)
  have eq: "w_alloc w' = w_alloc w" "w_buf w' = (w_buf w)(a := (w_buf w a)\<lparr>bu_charged := False\<rparr>)"
      "w_pool w' = w_pool w" "w_used w' = w_used w - int (layout_size l (bu_class (w_buf w a)))"
    using True by (auto simp: w'_def Uncharge_def Budget_Release_def Let_def)
  have "sum_list (map (charge_of l w') (w_alloc w)) =
      sum_list (map (charge_of l w) (w_alloc w)) + (charge_of l w' a - charge_of l w a)"
    using ok a by (intro sum_update) (auto simp: world_ok_def charge_of_def eq(2))
  moreover have "charge_of l w' a - charge_of l w a = - int (layout_size l (bu_class (w_buf w a)))"
    using True by (simp add: charge_of_def eq(2))
  ultimately show ?thesis using ok a held unfolding w'_def [symmetric] world_ok_def eq by auto
next
  case False
  then show ?thesis using ok by (simp add: Uncharge_def)
qed

section \<open>Histories\<close>

definition empty_world :: "int \<Rightarrow> world" where
  "empty_world mx = \<lparr>w_alloc = [], w_buf = (\<lambda>a. \<lparr>bu_refs = 0, bu_class = 0, bu_charged = False\<rparr>), w_mem = (\<lambda>a i. 0),
     w_pool = (\<lambda>c. []), w_used = 0, w_max = mx\<rparr>"

text \<open>Users take, share, write, charge and release buffers; only a holder touches a buffer. The runtime may drop free
  buffers from a \<open>sync.Pool\<close> at any time.\<close>

inductive pool_run :: "classLayout \<Rightarrow> world \<Rightarrow> (nat \<Rightarrow> nat) \<Rightarrow> bool" for l where
  start: "pool_run l (empty_world mx) (\<lambda>a. 0)"
| get: "pool_run l w h \<Longrightarrow> layout_class l n = Some c \<Longrightarrow> pick_ok c pk w \<Longrightarrow> Get l n ch pk w = Some (a, w') \<Longrightarrow>
    pool_run l w' (h(a := 1))"
| tryget: "pool_run l w h \<Longrightarrow> layout_class l n = Some c \<Longrightarrow> pick_ok c pk w \<Longrightarrow> TryGet l n ch pk w = Some (ao, w') \<Longrightarrow>
    pool_run l w' (case ao of None \<Rightarrow> h | Some a \<Rightarrow> h(a := 1))"
| ref: "pool_run l w h \<Longrightarrow> 0 < h a \<Longrightarrow> pool_run l (Buf_Ref a w) (h(a := h a + 1))"
| release: "pool_run l w h \<Longrightarrow> 0 < h a \<Longrightarrow> pool_run l (Buf_Release l (Some a) w) (h(a := h a - 1))"
| store: "pool_run l w h \<Longrightarrow> 0 < h a \<Longrightarrow> pool_run l (w\<lparr>w_mem := (w_mem w)(a := f)\<rparr>) h"
| charge: "pool_run l w h \<Longrightarrow> 0 < h a \<Longrightarrow> TryCharge l budget a w = (ok, w') \<Longrightarrow> pool_run l w' h"
| uncharge: "pool_run l w h \<Longrightarrow> 0 < h a \<Longrightarrow> pool_run l (Uncharge l a w) h"
| drop: "pool_run l w h \<Longrightarrow> pool_run l (w\<lparr>w_pool := (\<lambda>c. filter (keep c) (w_pool w c))\<rparr>) h"

lemma Get_eq:
  "layout_class l n = Some c \<Longrightarrow> Get l n ch pk w = Some (pick_addr pk,
     pool_take c ch pk (w\<lparr>w_used := w_used w + (if ch then int (layout_size l c) else 0)\<rparr>))"
  by (simp add: Get_def Acquire_def)

lemma TryGet_eq:
  "layout_class l n = Some c \<Longrightarrow> TryGet l n ch pk w =
     (if ch \<and> w_used w + int (layout_size l c) > w_max w then Some (None, w)
      else Some (Some (pick_addr pk),
        pool_take c ch pk (w\<lparr>w_used := w_used w + (if ch then int (layout_size l c) else 0)\<rparr>)))"
  by (simp add: TryGet_def TryAcquire_def)

lemma pool_run_ok: "pool_run l w h \<Longrightarrow> world_ok l w h"
proof (induction rule: pool_run.induct)
  case start then show ?case by (simp add: world_ok_def empty_world_def)
next
  case (get w h n c pk ch a w')
  then show ?case using take_ok [OF get.IH get.hyps(3), of ch] by (simp add: Get_eq fun_upd_def)
next
  case (tryget w h n c pk ch ao w')
  then show ?case using take_ok [OF tryget.IH tryget.hyps(3), of ch] by (auto simp: TryGet_eq fun_upd_def split: if_splits)
next
  case (ref w h a) show ?case by (rule ref_ok [OF ref.IH ref.hyps(2)])
next
  case (release w h a) show ?case by (rule release_ok [OF release.IH release.hyps(2)])
next
  case store then show ?case by (auto simp: world_ok_def)
next
  case (charge w h a budget ok w') show ?case by (rule charge_ok [OF charge.IH charge.hyps(2,3)])
next
  case uncharge then show ?case by (simp add: uncharge_ok)
next
  case drop then show ?case by (auto simp: world_ok_def)
qed

lemma take_frame:
  "b \<noteq> pick_addr pk \<Longrightarrow> w_mem (pool_take c ch pk w) b = w_mem w b \<and> w_buf (pool_take c ch pk w) b = w_buf w b"
  by (cases pk) (auto simp: pool_take_def Let_def)

lemma take_class: "world_ok l w h \<Longrightarrow> pick_ok c pk w \<Longrightarrow> bu_class (w_buf (pool_take c ch pk (w\<lparr>w_used := u\<rparr>)) (pick_addr pk)) = c"
  by (cases pk) (auto simp: pool_take_def Let_def pick_ok_def world_ok_def)

text \<open>Claim C14: buffers are exclusive and their budget is exact. In every history in which users take buffers from
  the pool, share, write and release them, the reference count is the number of references held, the budget's counter is
  exactly the capacity of the charged buffers in use, and a buffer that \<open>Get\<close> or \<open>TryGet\<close> hands out is held by nobody
  else, has the smallest class that holds the size asked for, and taking it changes no byte of a held buffer.\<close>

theorem buffers_exact:
  assumes "pool_run l w h" "0 < cl_n l"
  shows "(\<forall>a. a \<in> set (w_alloc w) \<longrightarrow> bu_refs (w_buf w a) = int (h a)) \<and>
    w_used w = (\<Sum>a \<leftarrow> w_alloc w. if bu_charged (w_buf w a) then int (layout_size l (bu_class (w_buf w a))) else 0) \<and>
    (\<forall>n c pk ch a w'. layout_class l n = Some c \<and> pick_ok c pk w \<and>
       (Get l n ch pk w = Some (a, w') \<or> TryGet l n ch pk w = Some (Some a, w')) \<longrightarrow>
       h a = 0 \<and> bu_refs (w_buf w' a) = 1 \<and> bu_class (w_buf w' a) = c \<and>
       n \<le> int (layout_size l c) \<and> (\<forall>c' < c. int (layout_size l c') < n) \<and>
       (\<forall>b. 0 < h b \<longrightarrow> w_mem w' b = w_mem w b))"
proof (intro conjI allI impI; (elim conjE)?)
  note ok = pool_run_ok [OF assms(1)]
  show "bu_refs (w_buf w a) = int (h a)" if "a \<in> set (w_alloc w)" for a using ok that by (simp add: world_ok_def)
  show "w_used w = (\<Sum>a \<leftarrow> w_alloc w. if bu_charged (w_buf w a) then int (layout_size l (bu_class (w_buf w a))) else 0)"
    using ok by (simp add: world_ok_def charge_of_def [abs_def])
  fix n c pk ch a w'
  assume c: "layout_class l n = Some c" and pk: "pick_ok c pk w"
    and g: "Get l n ch pk w = Some (a, w') \<or> TryGet l n ch pk w = Some (Some a, w')"
  have a: "a = pick_addr pk" "w' = pool_take c ch pk (w\<lparr>w_used := w_used w + (if ch then int (layout_size l c) else 0)\<rparr>)"
    using g by (auto simp: Get_eq [OF c] TryGet_eq [OF c] split: if_splits)
  note t = take_ok [OF ok pk, of ch, folded a]
  show "h a = 0" using t by simp
  show "bu_refs (w_buf w' a) = 1" "bu_class (w_buf w' a) = c"
    using take_class [OF ok pk, of ch] a by (cases pk; simp add: pool_take_def Let_def)+
  show "n \<le> int (layout_size l c)" "\<And>c'. c' < c \<Longrightarrow> int (layout_size l c') < n" using class_exact [OF assms(2), of n] c by auto
  show "w_mem w' b = w_mem w b" if "0 < h b" for b
    using that t take_frame [of b pk c ch] a by (cases "b = a") auto
qed

lemma demo_class: "layout_class streamLayout 65536 = Some 2"
  by (simp add: layout_class_def layout_limit_def layout_size_def streamLayout_def bits_Len.simps)

definition demo_world :: world where
  "demo_world = Buf_Release streamLayout (Some 7) (snd (the (Get streamLayout 65536 True (Fresh 7) (empty_world 100000))))"

lemma demo_world_eq:
  "w_used demo_world = 0" "w_pool demo_world 2 = [7]" "w_max demo_world = 100000"
  unfolding demo_world_def Get_eq [OF demo_class]
  by (simp_all add: Buf_Release_def Budget_Release_def pool_take_def Let_def empty_world_def streamLayout_def layout_size_def)

theorem buffers_exact_witness:
  "w_used demo_world = 0 \<and>
   (\<exists>w'. TryGet streamLayout 65536 True (Recycled 7) demo_world = Some (Some 7, w') \<and> bu_refs (w_buf w' 7) = 1)"
proof -
  have "pool_run streamLayout (snd (the (Get streamLayout 65536 True (Fresh 7) (empty_world 100000)))) ((\<lambda>a. 0)(7 := 1))"
    by (rule pool_run.get [OF pool_run.start demo_class, where pk = "Fresh 7" and ch = True])
      (simp_all add: Get_eq [OF demo_class] pick_ok_def empty_world_def)
  then have run: "pool_run streamLayout demo_world (((\<lambda>a. 0)(7 := 1))(7 := ((\<lambda>a. 0)((7::nat) := 1)) 7 - 1))"
    unfolding demo_world_def by (rule pool_run.release) simp
  have pk: "pick_ok 2 (Recycled 7) demo_world" by (simp add: pick_ok_def demo_world_eq)
  have "layout_size streamLayout 2 = 65600" by (simp add: layout_size_def streamLayout_def)
  then obtain w' where w': "TryGet streamLayout 65536 True (Recycled 7) demo_world = Some (Some 7, w')"
    by (simp add: TryGet_eq [OF demo_class] demo_world_eq)
  have "bu_refs (w_buf w' 7) = 1"
    using buffers_exact [OF run, THEN conjunct2, THEN conjunct2, rule_format, of 65536 2 "Recycled 7" True 7 w']
      demo_class pk w' by (simp add: streamLayout_def)
  then show ?thesis using w' demo_world_eq(1) by auto
qed

end
