(* ===== verification/Carrier_Batch.thy ===== *)
theory Carrier_Batch
  imports Carrier_Buf Wire_Dgram Go_Num
begin

text \<open>
  One writer round of a stream carrier: \<open>internal/carrier/batch.go\<close>, with the DGRAM and PACK frames of
  packet sessions on a stream batch (\<open>AddDgram\<close>, \<open>AddPack\<close> of \<open>batch_dgram.go\<close>). Endpoints append frames; the writer seals them
  (frame numbers, headers, CRC32C) and writes them. Headers, control payloads and trailers live in one arena, DATA and
  DGRAM bytes stay in the session's chunks and padding in a constant array, so a frame is split between the arena and its body.
  The datagram mode of a batch (\<open>SetDatagram\<close>, REL wrapping, packing into datagrams) and its fields, and the frames a
  shared trunk adds for its own bookkeeping, are not modelled: every branch on \<open>b.dgram\<close> is the one for false. The lemmas show that a batch of any accepted frames goes on the wire as the
  concatenation of complete, legal frames in insertion order with consecutive numbers, through either write shape.
\<close>

section \<open>Definitions\<close>

definition MaxBatchFrames :: nat where [simp]: "MaxBatchFrames = 64"
definition ControlArena :: nat where [simp]: "ControlArena = 8192"
definition DataHeadLen :: nat where [simp]: "DataHeadLen = HeaderLen + DataPrefixLen"
definition defaultBatchBudget :: int where [simp]: "defaultBatchBudget = 262144"
definition arenaSize :: nat where "arenaSize = ControlArena + MaxBatchFrames * (DataHeadLen + TrailerLen)"

text \<open>A frame's body: none, zero padding, or bytes of a chunk (its address, first position and length).\<close>

datatype body = NoBody | ZeroPad nat | InChunk nat nat nat

fun body_len :: "body \<Rightarrow> nat" where
  "body_len NoBody = 0"
| "body_len (ZeroPad n) = n"
| "body_len (InChunk a p n) = n"

fun body_bytes :: "(nat \<Rightarrow> nat \<Rightarrow> byte) \<Rightarrow> body \<Rightarrow> byte list" where
  "body_bytes m NoBody = []"
| "body_bytes m (ZeroPad n) = replicate n 0"
| "body_bytes m (InChunk a p n) = map (m a) [p ..< p + n]"

record bframe =
  bf_hdr :: header
  bf_head :: nat
  bf_ctl :: nat
  bf_off :: u64
  bf_body :: body
  bf_chunk :: "nat option"
  bf_retx :: bool
  bf_ref :: bool

text \<open>\<open>bt_panic\<close> records that the code panicked; the operation then has no other effect.\<close>

record Batch =
  bt_now :: go_time
  bt_wake :: go_time
  bt_capBlocked :: bool
  bt_budget :: int
  bt_data :: nat
  bt_retx :: nat
  bt_ctl :: nat
  bt_bodies :: nat
  bt_used :: nat
  bt_dgBytes :: nat
  bt_lastRef :: "nat option"
  bt_quota :: bool
  bt_ctlOnly :: bool
  bt_qEnd :: int
  bt_taken :: int
  bt_holdH :: u32
  bt_holdOn :: bool
  bt_frames :: "bframe list"
  bt_arena :: "byte list"
  bt_panic :: bool

definition NewBatch :: "int \<Rightarrow> Batch" where
  "NewBatch budget =
     \<lparr>bt_now = 0, bt_wake = 0, bt_capBlocked = False, bt_budget = (if budget \<le> 0 then defaultBatchBudget else budget),
      bt_data = 0, bt_retx = 0, bt_ctl = 0, bt_bodies = 0, bt_used = 0, bt_dgBytes = 0, bt_lastRef = None,
      bt_quota = False, bt_ctlOnly = False,
      bt_qEnd = 0, bt_taken = 0, bt_holdH = 0, bt_holdOn = False, bt_frames = [], bt_arena = replicate arenaSize 0,
      bt_panic = False\<rparr>"

definition batch_n :: "Batch \<Rightarrow> nat" where
  "batch_n b = length (bt_frames b)"

definition batch_Full :: "Batch \<Rightarrow> bool" where
  "batch_Full b \<longleftrightarrow> batch_n b \<ge> MaxBatchFrames \<or> bt_ctl b \<ge> ControlArena"

definition batch_Room :: "Batch \<Rightarrow> int" where
  "batch_Room b =
     (let r = bt_budget b - int (bt_data b)
      in if bt_quota b then min r (bt_qEnd b - int (bt_data b)) else r)"

definition batch_limit :: "int \<Rightarrow> Batch \<Rightarrow> Batch" where
  "batch_limit q b =
     (let b = b\<lparr>bt_taken := int (bt_data b)\<rparr>
      in if q < 0 then b\<lparr>bt_quota := False, bt_ctlOnly := False\<rparr>
         else b\<lparr>bt_quota := True, bt_ctlOnly := (q = 0), bt_qEnd := bt_taken b + q\<rparr>)"

definition MarkCapBlocked :: "Batch \<Rightarrow> Batch" where
  "MarkCapBlocked b = (if bt_ctlOnly b then b else b\<lparr>bt_capBlocked := True\<rparr>)"

definition WakeAt :: "go_time \<Rightarrow> Batch \<Rightarrow> Batch" where
  "WakeAt t b = (if \<not> IsZero t \<and> (IsZero (bt_wake b) \<or> t < bt_wake b) then b\<lparr>bt_wake := t\<rparr> else b)"

definition SetResponseHold :: "u32 \<Rightarrow> Batch \<Rightarrow> Batch" where
  "SetResponseHold handle b = b\<lparr>bt_holdH := handle, bt_holdOn := False\<rparr>"

definition heldOut :: "u32 \<Rightarrow> Batch \<Rightarrow> bool" where
  "heldOut handle b \<longleftrightarrow> bt_holdOn b \<and> handle = bt_holdH b"

definition heldBy :: "u32 \<Rightarrow> u8 \<Rightarrow> Batch \<Rightarrow> Batch" where
  "heldBy handle st b = (if handle = bt_holdH b \<and> handle \<noteq> 0 \<and> st = StatusOK then b\<lparr>bt_holdOn := True\<rparr> else b)"

definition panics :: "Batch \<Rightarrow> bool \<times> Batch" where
  "panics b = (False, b\<lparr>bt_panic := True\<rparr>)"

text \<open>\<open>reserve\<close> appends the frame record; the slice of the arena it returns is the one that starts \<open>HeaderLen\<close> bytes
  after the old end.\<close>

definition reserve :: "u8 \<Rightarrow> u8 \<Rightarrow> u32 \<Rightarrow> nat \<Rightarrow> nat \<Rightarrow> Batch \<Rightarrow> Batch" where
  "reserve t flags handle ctl body b =
     b\<lparr>bt_frames := bt_frames b @
         [\<lparr>bf_hdr = \<lparr>h_Type = t, h_Flags = flags, h_Len = of_nat (ctl + body), h_Fseq = 0, h_Handle = handle\<rparr>,
           bf_head = bt_used b, bf_ctl = ctl, bf_off = 0, bf_body = NoBody, bf_chunk = None, bf_retx = False,
           bf_ref = False\<rparr>],
       bt_used := bt_used b + HeaderLen + ctl + TrailerLen\<rparr>"

text \<open>Encoding into that slice; \<open>put\<close> is one of the encoders of \<open>internal/wire\<close>.\<close>

definition arena_put :: "(byte list \<Rightarrow> (byte list \<times> nat) option) \<Rightarrow> nat \<Rightarrow> nat \<Rightarrow> Batch \<Rightarrow> Batch" where
  "arena_put put start n b =
     (case put (bslice (bt_arena b) start (start + n)) of
        None \<Rightarrow> b\<lparr>bt_panic := True\<rparr>
      | Some (p, _) \<Rightarrow> b\<lparr>bt_arena := blit (bt_arena b) start p\<rparr>)"

definition addControl :: "u8 \<Rightarrow> u8 \<Rightarrow> u32 \<Rightarrow> nat \<Rightarrow> (byte list \<Rightarrow> (byte list \<times> nat) option) \<Rightarrow> Batch \<Rightarrow> bool \<times> Batch" where
  "addControl t flags handle n put b =
     (if batch_n b \<ge> MaxBatchFrames \<or> bt_ctl b + n > ControlArena then (False, b)
      else (True, arena_put put (bt_used b + HeaderLen) n ((reserve t flags handle n 0 b)\<lparr>bt_ctl := bt_ctl b + n\<rparr>)))"

definition addSession :: "u8 \<Rightarrow> u8 \<Rightarrow> u32 \<Rightarrow> nat \<Rightarrow> (byte list \<Rightarrow> (byte list \<times> nat) option) \<Rightarrow> Batch \<Rightarrow> bool \<times> Batch" where
  "addSession t flags handle n put b =
     (if handle = 0 then panics b
      else if heldOut handle b then (False, b)
      else addControl t flags handle n put b)"

definition AddOpenAck :: "u32 \<Rightarrow> openack_p \<Rightarrow> Batch \<Rightarrow> bool \<times> Batch" where
  "AddOpenAck handle a b =
     (let n = OpenAckFixedLen + (if oa_Status a \<noteq> StatusOK then length (oa_Msg a) else 0)
      in if length (oa_Msg a) > MaxMsg then panics b
         else case addSession TypeOpenAck 0 handle n (\<lambda>p. PutOpenAck p a) b of
                (False, b) \<Rightarrow> (False, b)
              | (True, b) \<Rightarrow> (True, heldBy handle (oa_Status a) b))"

definition AddJoinAck :: "u32 \<Rightarrow> joinack_p \<Rightarrow> Batch \<Rightarrow> bool \<times> Batch" where
  "AddJoinAck handle a b =
     (case addSession TypeJoinAck 0 handle JoinAckLen (\<lambda>p. PutJoinAck p a) b of
        (False, b) \<Rightarrow> (False, b)
      | (True, b) \<Rightarrow> (True, heldBy handle (ja_Status a) b))"

definition AddAck :: "u32 \<Rightarrow> u8 \<Rightarrow> ack_p \<Rightarrow> Batch \<Rightarrow> bool \<times> Batch" where
  "AddAck handle flags a b =
     (if flags AND NOT (AllowedFlags TypeAck) \<noteq> 0 then panics b
      else addSession TypeAck flags handle AckLen (\<lambda>p. PutAck p a) b)"

definition AddFin :: "u32 \<Rightarrow> u64 \<Rightarrow> Batch \<Rightarrow> bool \<times> Batch" where
  "AddFin handle off b = addSession TypeFin 0 handle FinLen (\<lambda>p. PutFin p off) b"

definition AddRst :: "u32 \<Rightarrow> rst_p \<Rightarrow> Batch \<Rightarrow> bool \<times> Batch" where
  "AddRst handle r b =
     (if length (r_Msg r) > MaxMsg then panics b
      else addSession TypeRst 0 handle (RstFixedLen + length (r_Msg r)) (\<lambda>p. PutRst p r) b)"

definition AddSched :: "u32 \<Rightarrow> u8 \<Rightarrow> sched_p \<Rightarrow> Batch \<Rightarrow> bool \<times> Batch" where
  "AddSched handle cause s b =
     (if cause AND NOT SchedCauseMask \<noteq> 0 then panics b
      else if s_N s < 1 \<or> s_N s > MaxSchedIDs then panics b
      else addSession TypeSched cause handle (SchedFixedLen + 4 * s_N s) (\<lambda>p. PutSched p s) b)"

text \<open>The DATA bytes are \<open>n\<close> bytes of the chunk at address \<open>a\<close> from position \<open>pos\<close>; the frame takes a reference.\<close>

definition AddData :: "u32 \<Rightarrow> u64 \<Rightarrow> nat \<Rightarrow> nat \<Rightarrow> nat \<Rightarrow> bool \<Rightarrow> Batch \<times> world \<Rightarrow> bool \<times> Batch \<times> world" where
  "AddData handle off a pos n retx bw =
     (let (b, w) = bw
      in if n = 0 \<or> n > MaxFramePayload - DataPrefixLen \<or> handle = 0 then (False, b\<lparr>bt_panic := True\<rparr>, w)
         else if batch_Full b \<or> int n > batch_Room b \<or> bt_ctlOnly b \<or> heldOut handle b then (False, b, w)
         else
          let w = Buf_Ref a w;
              start = bt_used b + HeaderLen;
              b = reserve TypeData 0 handle DataPrefixLen n b;
              b = arena_put (\<lambda>p. map_option (\<lambda>q. (q, DataPrefixLen)) (PutDataOffset p off)) start DataPrefixLen b;
              k = length (bt_frames b) - 1;
              b = b\<lparr>bt_frames := (bt_frames b)[k := (bt_frames b ! k)\<lparr>bf_off := off, bf_body := InChunk a pos n,
                                                                       bf_chunk := Some a, bf_retx := retx\<rparr>],
                    bt_data := bt_data b + n, bt_bodies := bt_bodies b + n,
                    bt_retx := bt_retx b + (if retx then n else 0)\<rparr>
          in (True, b, w))"

text \<open>PACK is an ordinary frame on a stream batch, whether or not the session asks for a reliable one.\<close>

definition AddPack :: "u32 \<Rightarrow> u8 \<Rightarrow> pack_p \<Rightarrow> bool \<Rightarrow> Batch \<Rightarrow> bool \<times> Batch" where
  "AddPack handle flags pk reliable b =
     (if flags AND NOT (AllowedFlags TypePack) \<noteq> 0 then panics b
      else addSession TypePack flags handle PackLen (\<lambda>p. PutPack p pk) b)"

definition DgramRoom :: "Batch \<Rightarrow> int" where
  "DgramRoom b = min (batch_Room b) (int MaxPacketPayload)"

text \<open>The batch takes one reference per chunk of DGRAM bodies; the result says whether this call took it.\<close>

definition holdRef :: "nat option \<Rightarrow> Batch \<times> world \<Rightarrow> bool \<times> Batch \<times> world" where
  "holdRef ref bw =
     (let (b, w) = bw
      in case ref of
           None \<Rightarrow> (False, b, w)
         | Some a \<Rightarrow>
            if bt_lastRef b = Some a then (False, b, w)
            else
             let b = b\<lparr>bt_lastRef := Some a\<rparr>
             in if list_ex (\<lambda>f. bf_ref f \<and> bf_chunk f = Some a) (rev (bt_frames b)) then (False, b, w)
                else (True, b, Buf_Ref a w))"

text \<open>The datagram is \<open>n\<close> bytes at address \<open>a\<close> from position \<open>pos\<close>, in storage held by \<open>ref\<close> (nil: none).\<close>

definition AddDgram :: "u32 \<Rightarrow> u64 \<Rightarrow> nat \<Rightarrow> nat \<Rightarrow> nat \<Rightarrow> nat option \<Rightarrow> Batch \<times> world \<Rightarrow> bool \<times> Batch \<times> world" where
  "AddDgram handle seq a pos n ref bw =
     (let (b, w) = bw
      in if n > MaxPacketPayload \<or> handle = 0 then (False, b\<lparr>bt_panic := True\<rparr>, w)
         else if batch_Full b \<or> int n > DgramRoom b then (False, b, w)
         else if bt_quota b \<and> (bt_ctlOnly b \<or> int (bt_data b) + int n > bt_qEnd b) then (False, b, w)
         else if heldOut handle b then (False, b, w)
         else
          let (took, b, w) = holdRef ref (b, w);
              start = bt_used b + HeaderLen;
              b = reserve TypeDgram 0 handle DgramPrefixLen n b;
              b = arena_put (\<lambda>p. map_option (\<lambda>q. (q, DgramPrefixLen)) (PutDgramSeq p seq)) start DgramPrefixLen b;
              k = length (bt_frames b) - 1;
              b = b\<lparr>bt_frames := (bt_frames b)[k := (bt_frames b ! k)\<lparr>bf_off := seq, bf_body := InChunk a pos n,
                                                                       bf_chunk := ref, bf_ref := took\<rparr>],
                    bt_bodies := bt_bodies b + n, bt_dgBytes := bt_dgBytes b + n, bt_data := bt_data b + n\<rparr>
          in (True, b, w))"

definition pingFits :: "Batch \<Rightarrow> bool" where
  "pingFits b \<longleftrightarrow> batch_n b < MaxBatchFrames \<and> bt_ctl b + PingFixedLen \<le> ControlArena"

definition addPingFrame :: "u8 \<Rightarrow> u8 \<Rightarrow> ping_p \<Rightarrow> Batch \<Rightarrow> bool \<times> Batch" where
  "addPingFrame t flags p b =
     (if p_Pad p < 0 \<or> p_Pad p > int MaxPingPad then panics b
      else if \<not> pingFits b then (False, b)
      else
       let start = bt_used b + HeaderLen; pad = nat (p_Pad p);
           b = reserve t flags 0 PingFixedLen pad b;
           b = arena_put (\<lambda>d. PutPing d (p\<lparr>p_Pad := 0\<rparr>)) start PingFixedLen b;
           b = b\<lparr>bt_ctl := bt_ctl b + PingFixedLen\<rparr>;
           k = length (bt_frames b) - 1
       in (True, if pad > 0 then b\<lparr>bt_frames := (bt_frames b)[k := (bt_frames b ! k)\<lparr>bf_body := ZeroPad pad\<rparr>],
                                    bt_bodies := bt_bodies b + pad\<rparr> else b))"

definition addPing :: "bool \<Rightarrow> ping_p \<Rightarrow> Batch \<Rightarrow> bool \<times> Batch" where
  "addPing busy p b = addPingFrame TypePing (if busy then FlagPingBusy else 0) p b"

definition addPong :: "ping_p \<Rightarrow> Batch \<Rightarrow> bool \<times> Batch" where
  "addPong p b = addPingFrame TypePong 0 p b"

definition addClose :: "u8 \<Rightarrow> Batch \<Rightarrow> bool \<times> Batch" where
  "addClose r b = addControl TypeClose 0 0 ReasonLen (\<lambda>p. PutReason p r) b"

definition addGoAway :: "u8 \<Rightarrow> Batch \<Rightarrow> bool \<times> Batch" where
  "addGoAway r b = addControl TypeGoAway 0 0 ReasonLen (\<lambda>p. PutReason p r) b"

section \<open>Sealing and writing\<close>

text \<open>One round of the loop of \<open>seal\<close> on the arena; \<open>None\<close> is a panic of an encoder.\<close>

definition seal_frame :: "(nat \<Rightarrow> nat \<Rightarrow> byte) \<Rightarrow> u32 \<Rightarrow> bframe \<Rightarrow> byte list \<Rightarrow> byte list option" where
  "seal_frame m fseq f arena =
     (let h = bf_head f
      in case PutHeader (drop h arena) ((bf_hdr f)\<lparr>h_Fseq := fseq\<rparr>) of
           None \<Rightarrow> None
         | Some hb \<Rightarrow>
            let arena = take h arena @ hb;
                e = h + HeaderLen + bf_ctl f;
                crc = CRC (bslice arena h e);
                crc = (if length (body_bytes m (bf_body f)) > 0 then CRCUpdate crc (body_bytes m (bf_body f)) else crc)
            in map_option (\<lambda>tl. take e arena @ tl) (PutTrailer (drop e arena) crc))"

primrec seal_loop :: "(nat \<Rightarrow> nat \<Rightarrow> byte) \<Rightarrow> bframe list \<Rightarrow> u32 \<Rightarrow> byte list \<Rightarrow> (bframe list \<times> byte list \<times> u32) option" where
  "seal_loop m [] fseq arena = Some ([], arena, fseq)"
| "seal_loop m (f # fs) fseq arena =
     (case seal_frame m fseq f arena of
        None \<Rightarrow> None
      | Some arena' \<Rightarrow>
          (case seal_loop m fs (fseq + 1) arena' of
             None \<Rightarrow> None
           | Some (fs', arena'', next) \<Rightarrow> Some (f\<lparr>bf_hdr := (bf_hdr f)\<lparr>h_Fseq := fseq\<rparr>\<rparr> # fs', arena'', next)))"

definition seal :: "(nat \<Rightarrow> nat \<Rightarrow> byte) \<Rightarrow> u32 \<Rightarrow> Batch \<Rightarrow> (Batch \<times> u32) option" where
  "seal m fseq b =
     (case seal_loop m (bt_frames b) fseq (bt_arena b) of
        None \<Rightarrow> None
      | Some (fs, arena, next) \<Rightarrow> Some (b\<lparr>bt_frames := fs, bt_arena := arena\<rparr>, next))"

definition wireLen :: "Batch \<Rightarrow> nat" where
  "wireLen b = bt_used b + bt_bodies b"

text \<open>The vectored write: arena runs and bodies alternately.\<close>

primrec buffers_loop :: "(nat \<Rightarrow> nat \<Rightarrow> byte) \<Rightarrow> byte list \<Rightarrow> bframe list \<Rightarrow> nat \<Rightarrow> byte list list \<Rightarrow> nat \<times> byte list list" where
  "buffers_loop m arena [] sg bufs = (sg, bufs)"
| "buffers_loop m arena (f # fs) sg bufs =
     (if length (body_bytes m (bf_body f)) = 0 then buffers_loop m arena fs sg bufs
      else let cut = bf_head f + HeaderLen + bf_ctl f
           in buffers_loop m arena fs cut (bufs @ [bslice arena sg cut, body_bytes m (bf_body f)]))"

definition appendBuffers :: "(nat \<Rightarrow> nat \<Rightarrow> byte) \<Rightarrow> Batch \<Rightarrow> byte list list \<Rightarrow> byte list list" where
  "appendBuffers m b bufs =
     (let (sg, bufs) = buffers_loop m (bt_arena b) (bt_frames b) 0 bufs
      in if sg < bt_used b then bufs @ [bslice (bt_arena b) sg (bt_used b)] else bufs)"

text \<open>The coalesced write.\<close>

primrec appendTo_loop :: "(nat \<Rightarrow> nat \<Rightarrow> byte) \<Rightarrow> byte list \<Rightarrow> bframe list \<Rightarrow> nat \<Rightarrow> byte list \<Rightarrow> nat \<times> byte list" where
  "appendTo_loop m arena [] sg dst = (sg, dst)"
| "appendTo_loop m arena (f # fs) sg dst =
     (if length (body_bytes m (bf_body f)) = 0 then appendTo_loop m arena fs sg dst
      else let cut = bf_head f + HeaderLen + bf_ctl f
           in appendTo_loop m arena fs cut (dst @ bslice arena sg cut @ body_bytes m (bf_body f)))"

definition appendTo :: "(nat \<Rightarrow> nat \<Rightarrow> byte) \<Rightarrow> Batch \<Rightarrow> byte list \<Rightarrow> byte list" where
  "appendTo m b dst =
     (let (sg, dst) = appendTo_loop m (bt_arena b) (bt_frames b) 0 dst
      in dst @ bslice (bt_arena b) sg (bt_used b))"

text \<open>\<open>ReleaseRefs\<close> drops the references of the DATA and DGRAM frames and their bodies; \<open>Reset\<close> starts the next round.\<close>

primrec release_frames :: "classLayout \<Rightarrow> bframe list \<Rightarrow> world \<Rightarrow> bframe list \<times> world" where
  "release_frames l [] w = ([], w)"
| "release_frames l (f # fs) w =
     (let (f, w) = (if h_Type (bf_hdr f) = TypeData
                    then (f\<lparr>bf_chunk := None, bf_body := NoBody\<rparr>, Buf_Release l (bf_chunk f) w)
                    else if h_Type (bf_hdr f) = TypeDgram
                    then (f\<lparr>bf_ref := False, bf_chunk := None, bf_body := NoBody\<rparr>,
                          if bf_ref f then Buf_Release l (bf_chunk f) w else w)
                    else (f, w));
          (fs, w) = release_frames l fs w
      in (f # fs, w))"

definition ReleaseRefs :: "classLayout \<Rightarrow> Batch \<times> world \<Rightarrow> Batch \<times> world" where
  "ReleaseRefs l bw =
     (let (b, w) = bw; (fs, w) = release_frames l (bt_frames b) w in (b\<lparr>bt_frames := fs, bt_lastRef := None\<rparr>, w))"

definition batch_Reset :: "classLayout \<Rightarrow> go_time \<Rightarrow> Batch \<times> world \<Rightarrow> Batch \<times> world" where
  "batch_Reset l now bw =
     (let (b, w) = ReleaseRefs l bw
      in (b\<lparr>bt_frames := [], bt_data := 0, bt_retx := 0, bt_ctl := 0, bt_bodies := 0, bt_used := 0, bt_dgBytes := 0, bt_now := now,
            bt_wake := 0, bt_capBlocked := False, bt_quota := False, bt_ctlOnly := False, bt_qEnd := 0, bt_taken := 0,
            bt_holdH := 0, bt_holdOn := False\<rparr>, w))"

section \<open>Layout of the arena\<close>

lemma bslice_blit_before: "e \<le> i \<Longrightarrow> i \<le> length a \<Longrightarrow> bslice (blit a i p) s e = bslice a s e"
  by (auto simp: bslice_def blit_def drop_take [symmetric])

lemma bslice_blit_at: "i + length p \<le> length a \<Longrightarrow> bslice (blit a i p) i (i + length p) = p"
  by (simp add: bslice_def blit_def)

lemma length_blit_in: "i + length p \<le> length a \<Longrightarrow> length (blit a i p) = length a"
  by (simp add: blit_def)

definition frame_size :: "bframe \<Rightarrow> nat" where
  "frame_size f = HeaderLen + bf_ctl f + TrailerLen"

primrec laid :: "bframe list \<Rightarrow> nat \<Rightarrow> nat \<Rightarrow> bool" where
  "laid [] u v \<longleftrightarrow> u = v"
| "laid (f # fs) u v \<longleftrightarrow> bf_head f = u \<and> laid fs (u + frame_size f) v"

lemma laid_append: "laid (fs @ gs) u v \<longleftrightarrow> (\<exists>k. laid fs u k \<and> laid gs k v)"
  by (induction fs arbitrary: u) auto

lemma laid_le: "laid fs u v \<Longrightarrow> u \<le> v"
  by (induction fs arbitrary: u) force+

lemma laid_sum: "laid fs u v \<Longrightarrow> v = u + sum_list (map frame_size fs)"
  by (induction fs arbitrary: u) force+

lemma laid_inside: "laid fs u v \<Longrightarrow> f \<in> set fs \<Longrightarrow> u \<le> bf_head f \<and> bf_head f + frame_size f \<le> v"
proof (induction fs arbitrary: u)
  case (Cons g fs)
  then show ?case using laid_le [of fs "u + frame_size g" v] by fastforce
qed simp

text \<open>Control payload bytes in the arena: every frame but DATA and DGRAM.\<close>

abbreviation body_type :: "u8 \<Rightarrow> bool" where
  "body_type t \<equiv> t = TypeData \<or> t = TypeDgram"

definition ctl_size :: "bframe \<Rightarrow> nat" where
  "ctl_size f = (if body_type (h_Type (bf_hdr f)) then 0 else bf_ctl f)"

definition frame_ok :: "bframe \<Rightarrow> bool" where
  "frame_ok f \<longleftrightarrow> header_ok (bf_hdr f) \<and> unat (h_Len (bf_hdr f)) = bf_ctl f + body_len (bf_body f) \<and>
     bf_ctl f + body_len (bf_body f) \<le> MaxFramePayload \<and>
     (body_type (h_Type (bf_hdr f)) \<longrightarrow> bf_ctl f = DataPrefixLen)"

definition batch_ok :: "Batch \<Rightarrow> bool" where
  "batch_ok b \<longleftrightarrow> laid (bt_frames b) 0 (bt_used b) \<and> length (bt_arena b) = arenaSize \<and>
     length (bt_frames b) \<le> MaxBatchFrames \<and> (\<forall>f \<in> set (bt_frames b). frame_ok f) \<and>
     bt_ctl b = sum_list (map ctl_size (bt_frames b)) \<and> bt_ctl b \<le> ControlArena \<and>
     bt_bodies b = sum_list (map (\<lambda>f. body_len (bf_body f)) (bt_frames b)) \<and> \<not> bt_panic b"

text \<open>What a batch holds: each frame's header, its payload bytes in the arena and its body.\<close>

definition bview :: "Batch \<Rightarrow> (header \<times> byte list \<times> body) list" where
  "bview b = map (\<lambda>f. (bf_hdr f, bslice (bt_arena b) (bf_head f + HeaderLen) (bf_head f + HeaderLen + bf_ctl f), bf_body f))
     (bt_frames b)"

lemma sizes: "\<forall>f \<in> set fs. frame_ok f \<Longrightarrow>
    sum_list (map frame_size fs) \<le> length fs * (DataHeadLen + TrailerLen) + sum_list (map ctl_size fs)"
  by (induction fs) (auto simp: frame_size_def ctl_size_def frame_ok_def)

text \<open>The arena always has room for one more frame that passes the two limits.\<close>

lemma arena_room:
  assumes ok: "batch_ok b" and n: "length (bt_frames b) < MaxBatchFrames"
    and k: "k \<le> DataPrefixLen \<or> bt_ctl b + k \<le> ControlArena"
  shows "bt_used b + HeaderLen + k + TrailerLen \<le> length (bt_arena b)"
proof -
  have "bt_used b = sum_list (map frame_size (bt_frames b))" using ok laid_sum by (fastforce simp: batch_ok_def)
  then have u: "bt_used b \<le> length (bt_frames b) * 25 + bt_ctl b" using ok sizes [of "bt_frames b"] by (simp add: batch_ok_def)
  have "length (bt_frames b) * 25 + 25 \<le> 64 * 25" using n by simp
  then show ?thesis using ok u k by (auto simp: batch_ok_def arenaSize_def)
qed

definition exact :: "(byte list \<Rightarrow> (byte list \<times> nat) option) \<Rightarrow> byte list \<Rightarrow> bool" where
  "exact put e \<longleftrightarrow> (\<forall>d. length d = length e \<longrightarrow> put d = Some (e, length e))"

text \<open>Appending one frame whose in-arena payload is \<open>e\<close>.\<close>

definition with_frame :: "header \<Rightarrow> byte list \<Rightarrow> body \<Rightarrow> Batch \<Rightarrow> Batch \<Rightarrow> bool" where
  "with_frame h e bd b b' \<longleftrightarrow> (\<exists>off chunk retx ref.
     bt_frames b' = bt_frames b @ [\<lparr>bf_hdr = h, bf_head = bt_used b, bf_ctl = length e, bf_off = off, bf_body = bd,
       bf_chunk = chunk, bf_retx = retx, bf_ref = ref\<rparr>] \<and>
     bt_used b' = bt_used b + HeaderLen + length e + TrailerLen \<and>
     bt_arena b' = blit (bt_arena b) (bt_used b + HeaderLen) e)"

lemma with_frame_view:
  assumes ok: "batch_ok b" and w: "with_frame h e bd b b'" and room: "bt_used b + HeaderLen + length e + TrailerLen \<le> length (bt_arena b)"
  shows "bview b' = bview b @ [(h, e, bd)]" "length (bt_arena b') = arenaSize" "laid (bt_frames b') 0 (bt_used b')"
proof -
  have "bslice (bt_arena b') (bf_head f + HeaderLen) (bf_head f + HeaderLen + bf_ctl f) =
      bslice (bt_arena b) (bf_head f + HeaderLen) (bf_head f + HeaderLen + bf_ctl f)" if f: "f \<in> set (bt_frames b)" for f
    using laid_inside [of "bt_frames b" 0 "bt_used b" f] f ok w room
    by (auto simp: with_frame_def batch_ok_def frame_size_def intro!: bslice_blit_before)
  moreover have "bslice (bt_arena b') (bt_used b + HeaderLen) (bt_used b + HeaderLen + length e) = e"
    using w room bslice_blit_at [of "bt_used b + HeaderLen" e "bt_arena b"] by (auto simp: with_frame_def)
  ultimately show "bview b' = bview b @ [(h, e, bd)]" using w by (auto simp: bview_def with_frame_def)
  show "length (bt_arena b') = arenaSize" using w room ok by (auto simp: with_frame_def length_blit_in batch_ok_def)
  show "laid (bt_frames b') 0 (bt_used b')" using w ok by (auto simp: with_frame_def laid_append batch_ok_def frame_size_def)
qed

lemma with_frame_ok:
  assumes ok: "batch_ok b" and w: "with_frame h e bd b b'" and n: "length (bt_frames b) < MaxBatchFrames"
    and h: "header_ok h" "unat (h_Len h) = length e + body_len bd" "length e + body_len bd \<le> MaxFramePayload"
    and c: "(if body_type (h_Type h) then length e = DataPrefixLen \<and> bt_ctl b' = bt_ctl b
             else bt_ctl b + length e \<le> ControlArena \<and> bt_ctl b' = bt_ctl b + length e)"
    and bo: "bt_bodies b' = bt_bodies b + body_len bd" and np: "\<not> bt_panic b'"
  shows "batch_ok b' \<and> bview b' = bview b @ [(h, e, bd)]"
proof -
  have room: "bt_used b + HeaderLen + length e + TrailerLen \<le> length (bt_arena b)"
    by (rule arena_room [OF ok n]) (use c in \<open>auto split: if_splits\<close>)
  note v = with_frame_view [OF ok w room]
  obtain f where f: "bt_frames b' = bt_frames b @ [f]" "bf_hdr f = h" "bf_ctl f = length e" "bf_body f = bd"
    using w by (auto simp: with_frame_def)
  have "frame_ok f" using f h c by (auto simp: frame_ok_def split: if_splits)
  then show ?thesis using ok v n c bo np f by (auto simp: batch_ok_def ctl_size_def split: if_splits)
qed

lemma header_len: "n \<le> MaxFramePayload \<Longrightarrow> unat (of_nat n :: u32) = n"
  by (rule unat_len)

lemma addControl_ok:
  assumes ok: "batch_ok b" and ex: "exact put e" and t: "\<not> body_type t"
    and h: "header_ok \<lparr>h_Type = t, h_Flags = flags, h_Len = of_nat (length e), h_Fseq = 0, h_Handle = handle\<rparr>"
    and res: "addControl t flags handle (length e) put b = (fine, b')"
  shows "batch_ok b' \<and> (if fine then bview b' = bview b @
      [(\<lparr>h_Type = t, h_Flags = flags, h_Len = of_nat (length e), h_Fseq = 0, h_Handle = handle\<rparr>, e, NoBody)] else b' = b)"
proof (cases fine)
  case False
  then show ?thesis using res ok by (auto simp: addControl_def split: if_splits)
next
  case True
  then have lim: "length (bt_frames b) < MaxBatchFrames" "bt_ctl b + length e \<le> ControlArena"
    and b': "b' = arena_put put (bt_used b + HeaderLen) (length e) ((reserve t flags handle (length e) 0 b)\<lparr>bt_ctl := bt_ctl b + length e\<rparr>)"
    using res by (auto simp: addControl_def batch_n_def split: if_splits)
  have room: "bt_used b + HeaderLen + length e + TrailerLen \<le> length (bt_arena b)"
    by (rule arena_room [OF ok lim(1)]) (use lim(2) in simp)
  then have "put (bslice (bt_arena b) (bt_used b + 13) (bt_used b + 13 + length e)) = Some (e, length e)"
    using ex by (auto simp: exact_def)
  then have b'': "b' = (reserve t flags handle (length e) 0 b)\<lparr>bt_ctl := bt_ctl b + length e,
      bt_arena := blit (bt_arena b) (bt_used b + 13) e\<rparr>"
    unfolding b' by (simp add: arena_put_def reserve_def)
  have "length e \<le> MaxFramePayload" using lim(2) by simp
  then have "batch_ok b' \<and> bview b' = bview b @
      [(\<lparr>h_Type = t, h_Flags = flags, h_Len = of_nat (length e), h_Fseq = 0, h_Handle = handle\<rparr>, e, NoBody)]"
    by (intro with_frame_ok [OF ok _ lim(1) h]) (use ok lim t in \<open>auto simp: b'' with_frame_def reserve_def batch_ok_def\<close>)
  then show ?thesis using True by simp
qed

section \<open>Placing frames\<close>

text \<open>Every codec of \<open>Wire_Payload\<close> fills its slice exactly.\<close>

context codec
begin

lemma put_exact: "valid x \<Longrightarrow> exact (\<lambda>p. put p x) (enc x)"
  by (auto simp: exact_def put_enc blit_def)

end

lemma openack_exact:
  "oa_Status a \<le> StatusGoingAway \<Longrightarrow> length (oa_Msg a) \<le> MaxMsg \<Longrightarrow> exact (\<lambda>p. PutOpenAck p a) (enc_openack (openack_norm a))"
  using openack.put_exact [of "openack_norm a"] PutOpenAck_norm [of a]
  by (auto simp: openack_norm_def openack_ok_def exact_def)

lemma joinack_exact: "ja_Status a \<le> StatusGoingAway \<Longrightarrow> exact (\<lambda>p. PutJoinAck p a) (enc_joinack (joinack_norm a))"
  using joinack.put_exact [of "joinack_norm a"]
  by (auto simp: joinack_norm_def joinack_ok_def exact_def PutJoinAck_def)

lemma reason_exact: "exact (\<lambda>p. PutReason p r) [r]"
  by (auto simp: exact_def PutReason_def blit_def)

lemma offset_exact: "exact (\<lambda>p. map_option (\<lambda>q. (q, DataPrefixLen)) (PutDataOffset p off)) (PutUint64 off)"
  by (auto simp: exact_def PutDataOffset_eq blit_def)

lemma seq_exact: "exact (\<lambda>p. map_option (\<lambda>q. (q, DgramPrefixLen)) (PutDgramSeq p seq)) (PutUint64 seq)"
  by (auto simp: exact_def PutDgramSeq_def blit_def)

lemma pack_exact: "exact (\<lambda>p. PutPack p pk) (enc_pack (pack_norm pk))"
proof -
  have "PutPack d pk = PutPack d (pack_norm pk)" for d by (simp add: PutPack_def pack_norm_def)
  then show ?thesis using pack.put_exact [of "pack_norm pk"] by (simp add: pack_norm_def pack_ok_def)
qed

datatype placement =
    POpenAck u32 openack_p | PJoinAck u32 joinack_p | PAck u32 u8 ack_p | PFin u32 u64 | PRst u32 rst_p
  | PSched u32 u8 sched_p | PPing bool ping_p | PPong ping_p | PClose u8 | PGoAway u8 | PData u32 u64 nat nat nat bool
  | PPack u32 u8 pack_p bool | PDgram u32 u64 nat nat nat "nat option"

definition keep_w :: "bool \<times> Batch \<Rightarrow> world \<Rightarrow> bool \<times> Batch \<times> world" where
  "keep_w r w = (fst r, snd r, w)"

fun place1 :: "placement \<Rightarrow> Batch \<times> world \<Rightarrow> bool \<times> Batch \<times> world" where
  "place1 (POpenAck h a) (b, w) = keep_w (AddOpenAck h a b) w"
| "place1 (PJoinAck h a) (b, w) = keep_w (AddJoinAck h a b) w"
| "place1 (PAck h fl a) (b, w) = keep_w (AddAck h fl a b) w"
| "place1 (PFin h off) (b, w) = keep_w (AddFin h off b) w"
| "place1 (PRst h r) (b, w) = keep_w (AddRst h r b) w"
| "place1 (PSched h c s) (b, w) = keep_w (AddSched h c s b) w"
| "place1 (PPing busy p) (b, w) = keep_w (addPing busy p b) w"
| "place1 (PPong p) (b, w) = keep_w (addPong p b) w"
| "place1 (PClose r) (b, w) = keep_w (addClose r b) w"
| "place1 (PGoAway r) (b, w) = keep_w (addGoAway r b) w"
| "place1 (PData h off a pos n retx) bw = AddData h off a pos n retx bw"
| "place1 (PPack h fl pk rel) (b, w) = keep_w (AddPack h fl pk rel b) w"
| "place1 (PDgram h seq a pos n ref) bw = AddDgram h seq a pos n ref bw"

text \<open>The arguments for which the code documents no panic.\<close>

fun legal :: "placement \<Rightarrow> bool" where
  "legal (POpenAck h a) \<longleftrightarrow> h \<noteq> 0 \<and> oa_Status a \<le> StatusGoingAway \<and> length (oa_Msg a) \<le> MaxMsg"
| "legal (PJoinAck h a) \<longleftrightarrow> h \<noteq> 0 \<and> ja_Status a \<le> StatusGoingAway"
| "legal (PAck h fl a) \<longleftrightarrow> h \<noteq> 0 \<and> fl AND NOT (AllowedFlags TypeAck) = 0"
| "legal (PFin h off) \<longleftrightarrow> h \<noteq> 0"
| "legal (PRst h r) \<longleftrightarrow> h \<noteq> 0 \<and> length (r_Msg r) \<le> MaxMsg"
| "legal (PSched h c s) \<longleftrightarrow> h \<noteq> 0 \<and> c AND NOT SchedCauseMask = 0 \<and> sched_ok s"
| "legal (PPing busy p) \<longleftrightarrow> 0 \<le> p_Pad p \<and> p_Pad p \<le> int MaxPingPad"
| "legal (PPong p) \<longleftrightarrow> 0 \<le> p_Pad p \<and> p_Pad p \<le> int MaxPingPad"
| "legal (PClose r) \<longleftrightarrow> True"
| "legal (PGoAway r) \<longleftrightarrow> True"
| "legal (PData h off a pos n retx) \<longleftrightarrow> h \<noteq> 0 \<and> 1 \<le> n \<and> n \<le> MaxFramePayload - DataPrefixLen"
| "legal (PPack h fl pk rel) \<longleftrightarrow> h \<noteq> 0 \<and> fl AND NOT (AllowedFlags TypePack) = 0"
| "legal (PDgram h seq a pos n ref) \<longleftrightarrow> h \<noteq> 0 \<and> n \<le> MaxPacketPayload"

fun place_hdr :: "placement \<Rightarrow> u8 \<times> u8 \<times> u32" where
  "place_hdr (POpenAck h a) = (TypeOpenAck, 0, h)"
| "place_hdr (PJoinAck h a) = (TypeJoinAck, 0, h)"
| "place_hdr (PAck h fl a) = (TypeAck, fl, h)"
| "place_hdr (PFin h off) = (TypeFin, 0, h)"
| "place_hdr (PRst h r) = (TypeRst, 0, h)"
| "place_hdr (PSched h c s) = (TypeSched, c, h)"
| "place_hdr (PPing busy p) = (TypePing, if busy then FlagPingBusy else 0, 0)"
| "place_hdr (PPong p) = (TypePong, 0, 0)"
| "place_hdr (PClose r) = (TypeClose, 0, 0)"
| "place_hdr (PGoAway r) = (TypeGoAway, 0, 0)"
| "place_hdr (PData h off a pos n retx) = (TypeData, 0, h)"
| "place_hdr (PPack h fl pk rel) = (TypePack, fl, h)"
| "place_hdr (PDgram h seq a pos n ref) = (TypeDgram, 0, h)"

fun place_ctl :: "placement \<Rightarrow> byte list" where
  "place_ctl (POpenAck h a) = enc_openack (openack_norm a)"
| "place_ctl (PJoinAck h a) = enc_joinack (joinack_norm a)"
| "place_ctl (PAck h fl a) = enc_ack a"
| "place_ctl (PFin h off) = PutUint64 off"
| "place_ctl (PRst h r) = enc_rst r"
| "place_ctl (PSched h c s) = enc_sched s"
| "place_ctl (PPing busy p) = enc_ping (p\<lparr>p_Pad := 0\<rparr>)"
| "place_ctl (PPong p) = enc_ping (p\<lparr>p_Pad := 0\<rparr>)"
| "place_ctl (PClose r) = [r]"
| "place_ctl (PGoAway r) = [r]"
| "place_ctl (PData h off a pos n retx) = PutUint64 off"
| "place_ctl (PPack h fl pk rel) = enc_pack (pack_norm pk)"
| "place_ctl (PDgram h seq a pos n ref) = PutUint64 seq"

fun place_body :: "placement \<Rightarrow> body" where
  "place_body (PPing busy p) = (if p_Pad p > 0 then ZeroPad (nat (p_Pad p)) else NoBody)"
| "place_body (PPong p) = (if p_Pad p > 0 then ZeroPad (nat (p_Pad p)) else NoBody)"
| "place_body (PData h off a pos n retx) = InChunk a pos n"
| "place_body (PDgram h seq a pos n ref) = InChunk a pos n"
| "place_body _ = NoBody"

definition place_header :: "placement \<Rightarrow> header" where
  "place_header p = (case place_hdr p of (t, fl, h) \<Rightarrow>
     \<lparr>h_Type = t, h_Flags = fl, h_Len = of_nat (length (place_ctl p) + body_len (place_body p)), h_Fseq = 0, h_Handle = h\<rparr>)"

definition payload_len :: "placement \<Rightarrow> nat" where
  "payload_len p = length (place_ctl p) + body_len (place_body p)"

lemma length_encs [simp]:
  "length (enc_ack a) = 16" "length (enc_joinack j) = 9" "length (enc_rst r) = 5 + length (r_Msg r)"
  "length (enc_openack o') = 10 + length (oa_Msg o')" "length (enc_ping p) = 20 + nat (p_Pad p)"
  "length (enc_pack k) = 20"
  by (simp_all add: enc_pack_def enc_ack_def enc_joinack_def enc_rst_def enc_openack_def enc_ping_def)

lemma length_enc_sched: "sched_ok s \<Longrightarrow> length (enc_sched s) = 29 + 4 * s_N s"
  by (simp add: enc_sched_def sched_ok_def)

lemma legal_header:
  assumes "legal p"
  shows "header_ok (place_header p) \<and> unat (h_Len (place_header p)) = payload_len p \<and> payload_len p \<le> MaxFramePayload \<and>
    h_Fseq (place_header p) = 0"
proof -
  have len: "payload_len p \<le> MaxFramePayload"
    using assms by (cases p) (auto simp: payload_len_def openack_norm_def length_enc_sched sched_ok_def split: if_splits)
  have u: "unat (h_Len (place_header p)) = payload_len p"
    using unat_len [OF len] by (simp add: place_header_def payload_len_def case_prod_unfold)
  have "header_ok (place_header p)"
    using assms len u unfolding header_ok_def
    by (cases p) (auto simp: place_header_def payload_len_def Known_def Extension_def AllowedFlags_def handleOK_def
        CarrierLevel_def PayloadBounds_def openack_norm_def length_enc_sched sched_ok_def word_le_nat_alt)
  then show ?thesis using u len by (simp add: place_header_def case_prod_unfold)
qed

lemma addControl_place:
  assumes ok: "batch_ok b" and lg: "legal p" and ex: "exact put (place_ctl p)" and hd: "place_hdr p = (t, fl, h)"
    and t: "\<not> body_type t" "place_body p = NoBody" and res: "addControl t fl h (length (place_ctl p)) put b = (fine, b')"
  shows "batch_ok b' \<and> (if fine then bview b' = bview b @ [(place_header p, place_ctl p, place_body p)] else b' = b)"
proof -
  have "place_header p = \<lparr>h_Type = t, h_Flags = fl, h_Len = of_nat (length (place_ctl p)), h_Fseq = 0, h_Handle = h\<rparr>"
    using hd t(2) by (simp add: place_header_def)
  then show ?thesis using addControl_ok [OF ok ex t(1) _ res] legal_header [OF lg] t(2) by simp
qed

lemma addSession_place:
  assumes "batch_ok b" "legal p" "exact put (place_ctl p)" "place_hdr p = (t, fl, h)" "\<not> body_type t" "place_body p = NoBody"
    and "h \<noteq> 0" "addSession t fl h (length (place_ctl p)) put b = (fine, b')"
  shows "batch_ok b' \<and> (if fine then bview b' = bview b @ [(place_header p, place_ctl p, place_body p)] else b' = b)"
  using addControl_place [OF assms(1-6)] assms(1,7,8) by (auto simp: addSession_def split: if_splits)

lemma held_ok [simp]: "batch_ok (heldBy h st b) = batch_ok b" "bview (heldBy h st b) = bview b"
  by (simp_all add: heldBy_def batch_ok_def bview_def)

lemma exact_at:
  assumes "exact put e" "i + length e \<le> length (bt_arena b)"
  shows "arena_put put i (length e) b = b\<lparr>bt_arena := blit (bt_arena b) i e\<rparr>"
  using assms by (simp add: arena_put_def exact_def)

lemma addPing_place:
  assumes ok: "batch_ok b" and lg: "legal p" and hd: "place_hdr p = (t, fl, 0)" "\<not> body_type t"
    and pp: "place_ctl p = enc_ping (pg\<lparr>p_Pad := 0\<rparr>)" "place_body p = (if p_Pad pg > 0 then ZeroPad (nat (p_Pad pg)) else NoBody)"
    and pad: "0 \<le> p_Pad pg" "p_Pad pg \<le> int MaxPingPad" and res: "addPingFrame t fl pg b = (fine, b')"
  shows "batch_ok b' \<and> (if fine then bview b' = bview b @ [(place_header p, place_ctl p, place_body p)] else b' = b)"
proof (cases "pingFits b")
  case False
  then show ?thesis using res pad ok by (auto simp: addPingFrame_def)
next
  case True
  then have lim: "length (bt_frames b) < MaxBatchFrames" "bt_ctl b + 20 \<le> ControlArena"
    by (auto simp: pingFits_def batch_n_def)
  have room: "bt_used b + HeaderLen + 20 + TrailerLen \<le> length (bt_arena b)"
    by (rule arena_room [OF ok lim(1)]) (use lim(2) in simp)
  have e: "exact (\<lambda>d. PutPing d (pg\<lparr>p_Pad := 0\<rparr>)) (place_ctl p)" "length (place_ctl p) = 20"
    using ping.put_exact [of "pg\<lparr>p_Pad := 0\<rparr>"] pp by (simp_all add: ping_ok_def)
  define b0 where "b0 = reserve t fl 0 PingFixedLen (nat (p_Pad pg)) b"
  have "arena_put (\<lambda>d. PutPing d (pg\<lparr>p_Pad := 0\<rparr>)) (bt_used b + HeaderLen) PingFixedLen b0
      = b0\<lparr>bt_arena := blit (bt_arena b0) (bt_used b + HeaderLen) (place_ctl p)\<rparr>"
    using exact_at [OF e(1), of "bt_used b + HeaderLen" b0] room e(2) by (simp add: b0_def reserve_def)
  then have b': "fine" "b' = (let b1 = b0\<lparr>bt_arena := blit (bt_arena b0) (bt_used b + HeaderLen) (place_ctl p), bt_ctl := bt_ctl b + 20\<rparr>;
        k = length (bt_frames b0) - 1
      in if p_Pad pg > 0 then b1\<lparr>bt_frames := (bt_frames b0)[k := (bt_frames b0 ! k)\<lparr>bf_body := ZeroPad (nat (p_Pad pg))\<rparr>],
                                bt_bodies := bt_bodies b + nat (p_Pad pg)\<rparr> else b1)"
    using res True pad unfolding addPingFrame_def b0_def by (auto simp: Let_def reserve_def)
  have hdr: "place_header p = \<lparr>h_Type = t, h_Flags = fl, h_Len = of_nat (20 + nat (p_Pad pg)), h_Fseq = 0, h_Handle = 0\<rparr>"
    using hd pp pad e(2) by (simp add: place_header_def)
  have "with_frame (place_header p) (place_ctl p) (place_body p) b b'"
    using e(2) pad pp(2) unfolding with_frame_def hdr b'(2) b0_def by (auto simp: reserve_def Let_def)
  then have "batch_ok b' \<and> bview b' = bview b @ [(place_header p, place_ctl p, place_body p)]"
    by (rule with_frame_ok [OF ok _ lim(1)])
      (use legal_header [OF lg] hd lim e(2) pp(2) ok pad in \<open>auto simp: payload_len_def b'(2) b0_def reserve_def Let_def batch_ok_def place_header_def\<close>)
  then show ?thesis using b'(1) by simp
qed

lemma AddData_place:
  assumes ok: "batch_ok b" and lg: "legal p" and p: "p = PData h off a pos n retx"
    and res: "AddData h off a pos n retx (b, w) = (fine, b', w')"
  shows "batch_ok b' \<and> (if fine then bview b' = bview b @ [(place_header p, place_ctl p, place_body p)] else b' = b \<and> w' = w)"
proof (cases fine)
  case False
  then show ?thesis using res lg ok by (auto simp: AddData_def p Let_def split: if_splits)
next
  case True
  have lim: "length (bt_frames b) < MaxBatchFrames" "bt_ctl b < ControlArena"
    using True res by (auto simp: AddData_def batch_Full_def batch_n_def Let_def split: if_splits)
  have room: "bt_used b + HeaderLen + 8 + TrailerLen \<le> length (bt_arena b)"
    by (rule arena_room [OF ok lim(1)]) simp
  define b0 where "b0 = reserve TypeData 0 h DataPrefixLen n b"
  have "arena_put (\<lambda>p. map_option (\<lambda>q. (q, DataPrefixLen)) (PutDataOffset p off)) (bt_used b + HeaderLen) DataPrefixLen b0
      = b0\<lparr>bt_arena := blit (bt_arena b0) (bt_used b + HeaderLen) (PutUint64 off)\<rparr>"
    using exact_at [OF offset_exact [of off], of "bt_used b + HeaderLen" b0] room by (simp add: b0_def reserve_def)
  then have b': "b' = (let k = length (bt_frames b0) - 1
      in b0\<lparr>bt_arena := blit (bt_arena b0) (bt_used b + HeaderLen) (PutUint64 off),
           bt_frames := (bt_frames b0)[k := (bt_frames b0 ! k)\<lparr>bf_off := off, bf_body := InChunk a pos n,
             bf_chunk := Some a, bf_retx := retx\<rparr>],
           bt_data := bt_data b0 + n, bt_bodies := bt_bodies b0 + n, bt_retx := bt_retx b0 + (if retx then n else 0)\<rparr>)"
    using True res unfolding AddData_def Let_def b0_def by (auto simp: reserve_def split: if_split_asm)
  have hdr: "place_header p = \<lparr>h_Type = TypeData, h_Flags = 0, h_Len = of_nat (8 + n), h_Fseq = 0, h_Handle = h\<rparr>"
    by (simp add: place_header_def p)
  have "with_frame (place_header p) (place_ctl p) (place_body p) b b'"
    unfolding with_frame_def hdr b' b0_def by (auto simp: p reserve_def Let_def)
  then have "batch_ok b' \<and> bview b' = bview b @ [(place_header p, place_ctl p, place_body p)]"
    by (rule with_frame_ok [OF ok _ lim(1)])
      (use legal_header [OF lg] lim ok in \<open>auto simp: p payload_len_def b' b0_def reserve_def Let_def batch_ok_def place_header_def\<close>)
  then show ?thesis using True by simp
qed

lemma holdRef_b:
  assumes "holdRef ref (b, w) = (took, b1, w1)"
  obtains lr where "b1 = b\<lparr>bt_lastRef := lr\<rparr>"
  using assms that [of "bt_lastRef b"] that [of ref]
  by (auto simp: holdRef_def Let_def split: option.splits if_splits)

lemma AddDgram_place:
  assumes ok: "batch_ok b" and lg: "legal p" and p: "p = PDgram h seq a pos n ref"
    and res: "AddDgram h seq a pos n ref (b, w) = (fine, b', w')"
  shows "batch_ok b' \<and> (if fine then bview b' = bview b @ [(place_header p, place_ctl p, place_body p)] else b' = b \<and> w' = w)"
proof (cases fine)
  case False
  then show ?thesis using res lg ok by (auto simp: AddDgram_def p Let_def split: if_splits prod.splits)
next
  case True
  have lim: "length (bt_frames b) < MaxBatchFrames" "bt_ctl b < ControlArena"
    using True res by (auto simp: AddDgram_def batch_Full_def batch_n_def Let_def split: if_splits)
  have room: "bt_used b + HeaderLen + 8 + TrailerLen \<le> length (bt_arena b)"
    by (rule arena_room [OF ok lim(1)]) simp
  obtain took b1 w1 where hr: "holdRef ref (b, w) = (took, b1, w1)" by (metis prod_cases3)
  obtain lr where b1: "b1 = b\<lparr>bt_lastRef := lr\<rparr>" using holdRef_b [OF hr] .
  define b0 where "b0 = reserve TypeDgram 0 h DgramPrefixLen n b1"
  have "arena_put (\<lambda>p. map_option (\<lambda>q. (q, DgramPrefixLen)) (PutDgramSeq p seq)) (bt_used b1 + HeaderLen) DgramPrefixLen b0
      = b0\<lparr>bt_arena := blit (bt_arena b0) (bt_used b + HeaderLen) (PutUint64 seq)\<rparr>"
    using exact_at [OF seq_exact [of seq], of "bt_used b + HeaderLen" b0] room by (simp add: b0_def b1 reserve_def)
  then have b': "b' = (let k = length (bt_frames b0) - 1
      in b0\<lparr>bt_arena := blit (bt_arena b0) (bt_used b + HeaderLen) (PutUint64 seq),
           bt_frames := (bt_frames b0)[k := (bt_frames b0 ! k)\<lparr>bf_off := seq, bf_body := InChunk a pos n,
             bf_chunk := ref, bf_ref := took\<rparr>],
           bt_bodies := bt_bodies b0 + n, bt_dgBytes := bt_dgBytes b0 + n, bt_data := bt_data b0 + n\<rparr>)"
    using True res hr unfolding AddDgram_def Let_def b0_def by (auto simp: reserve_def b1 split: if_split_asm)
  have hdr: "place_header p = \<lparr>h_Type = TypeDgram, h_Flags = 0, h_Len = of_nat (8 + n), h_Fseq = 0, h_Handle = h\<rparr>"
    by (simp add: place_header_def p)
  have "with_frame (place_header p) (place_ctl p) (place_body p) b b'"
    unfolding with_frame_def hdr b' b0_def b1 by (auto simp: p reserve_def Let_def)
  then have "batch_ok b' \<and> bview b' = bview b @ [(place_header p, place_ctl p, place_body p)]"
    by (rule with_frame_ok [OF ok _ lim(1)])
      (use legal_header [OF lg] lim ok in \<open>auto simp: p payload_len_def b' b0_def b1 reserve_def Let_def batch_ok_def place_header_def\<close>)
  then show ?thesis using True by simp
qed

lemma keep_w_eq: "keep_w r w = (f, b, w') \<longleftrightarrow> r = (f, b) \<and> w' = w"
  by (cases r) (auto simp: keep_w_def)

lemma place1_ok:
  assumes ok: "batch_ok b" and lg: "legal p" and res: "place1 p (b, w) = (fine, b', w')"
  shows "batch_ok b' \<and> (if fine then bview b' = bview b @ [(place_header p, place_ctl p, place_body p)] else b' = b \<and> w' = w)"
proof (cases p)
  case (POpenAck h a)
  have len: "length (place_ctl p) = OpenAckFixedLen + (if oa_Status a \<noteq> StatusOK then length (oa_Msg a) else 0)"
    using POpenAck by (simp add: openack_norm_def)
  obtain f0 b0 where r: "addSession TypeOpenAck 0 h (length (place_ctl p)) (\<lambda>p. PutOpenAck p a) b = (f0, b0)" by fastforce
  have "batch_ok b0 \<and> (if f0 then bview b0 = bview b @ [(place_header p, place_ctl p, place_body p)] else b0 = b)"
    by (rule addSession_place [OF ok lg _ _ _ _ _ r]) (use lg openack_exact [of a] in \<open>auto simp: POpenAck\<close>)
  then show ?thesis using res lg r unfolding len
    by (cases f0) (auto simp: POpenAck AddOpenAck_def keep_w_eq)
next
  case (PJoinAck h a)
  obtain f0 b0 where r: "addSession TypeJoinAck 0 h (length (place_ctl p)) (\<lambda>p. PutJoinAck p a) b = (f0, b0)" by fastforce
  have "batch_ok b0 \<and> (if f0 then bview b0 = bview b @ [(place_header p, place_ctl p, place_body p)] else b0 = b)"
    by (rule addSession_place [OF ok lg _ _ _ _ _ r]) (use lg joinack_exact [of a] in \<open>auto simp: PJoinAck\<close>)
  then show ?thesis using res r by (cases f0) (auto simp: PJoinAck AddJoinAck_def keep_w_eq)
next
  case (PAck h fl a)
  then have "addSession TypeAck fl h (length (place_ctl p)) (\<lambda>p. PutAck p a) b = (fine, b')" "w' = w"
    using res lg by (auto simp: AddAck_def keep_w_eq)
  then show ?thesis using addSession_place [OF ok lg, of "\<lambda>p. PutAck p a" TypeAck fl h] lg ack.put_exact [of a] PAck by auto
next
  case (PFin h off)
  then have "addSession TypeFin 0 h (length (place_ctl p)) (\<lambda>p. PutFin p off) b = (fine, b')" "w' = w"
    using res by (auto simp: AddFin_def keep_w_eq)
  then show ?thesis using addSession_place [OF ok lg, of "\<lambda>p. PutFin p off" TypeFin 0 h] lg fin.put_exact [of off] PFin by auto
next
  case (PRst h r)
  then have "addSession TypeRst 0 h (length (place_ctl p)) (\<lambda>p. PutRst p r) b = (fine, b')" "w' = w"
    using res lg by (auto simp: AddRst_def keep_w_eq)
  then show ?thesis using addSession_place [OF ok lg, of "\<lambda>p. PutRst p r" TypeRst 0 h] lg rst.put_exact [of r] PRst
    by (auto simp: rst_ok_def)
next
  case (PSched h c s)
  then have "addSession TypeSched c h (length (place_ctl p)) (\<lambda>p. PutSched p s) b = (fine, b')" "w' = w"
    using res lg by (auto simp: AddSched_def keep_w_eq length_enc_sched sched_ok_def)
  then show ?thesis using addSession_place [OF ok lg, of "\<lambda>p. PutSched p s" TypeSched c h] lg sched.put_exact [of s] PSched by auto
next
  case (PPing busy pg)
  then show ?thesis using addPing_place [OF ok lg, of TypePing _ pg fine b'] res lg by (auto simp: addPing_def keep_w_eq)
next
  case (PPong pg)
  then show ?thesis using addPing_place [OF ok lg, of TypePong 0 pg fine b'] res lg by (auto simp: addPong_def keep_w_eq)
next
  case (PClose r)
  then have "addControl TypeClose 0 0 (length (place_ctl p)) (\<lambda>p. PutReason p r) b = (fine, b')" "w' = w"
    using res by (auto simp: addClose_def keep_w_eq)
  then show ?thesis using addControl_place [OF ok lg, of "\<lambda>p. PutReason p r" TypeClose 0 0] reason_exact [of r] PClose by auto
next
  case (PGoAway r)
  then have "addControl TypeGoAway 0 0 (length (place_ctl p)) (\<lambda>p. PutReason p r) b = (fine, b')" "w' = w"
    using res by (auto simp: addGoAway_def keep_w_eq)
  then show ?thesis using addControl_place [OF ok lg, of "\<lambda>p. PutReason p r" TypeGoAway 0 0] reason_exact [of r] PGoAway by auto
next
  case (PData h off a pos n retx)
  then show ?thesis using AddData_place [OF ok lg PData, of w fine b' w'] res by simp
next
  case (PPack h fl pk rel)
  then have "addSession TypePack fl h (length (place_ctl p)) (\<lambda>p. PutPack p pk) b = (fine, b')" "w' = w"
    using res lg by (auto simp: AddPack_def keep_w_eq)
  then show ?thesis using addSession_place [OF ok lg, of "\<lambda>p. PutPack p pk" TypePack fl h] lg pack_exact [of pk] PPack by auto
next
  case (PDgram h seq a pos n ref)
  then show ?thesis using AddDgram_place [OF ok lg PDgram, of w fine b' w'] res by simp
qed

section \<open>The wire\<close>

definition frame_payload :: "(nat \<Rightarrow> nat \<Rightarrow> byte) \<Rightarrow> byte list \<Rightarrow> bframe \<Rightarrow> byte list" where
  "frame_payload m arena f = bslice arena (bf_head f + HeaderLen) (bf_head f + HeaderLen + bf_ctl f) @ body_bytes m (bf_body f)"

definition piece :: "(nat \<Rightarrow> nat \<Rightarrow> byte) \<Rightarrow> byte list \<Rightarrow> bframe \<Rightarrow> byte list" where
  "piece m arena f = bslice arena (bf_head f) (bf_head f + HeaderLen + bf_ctl f) @ body_bytes m (bf_body f) @
     bslice arena (bf_head f + HeaderLen + bf_ctl f) (bf_head f + frame_size f)"

primrec wires :: "(nat \<Rightarrow> nat \<Rightarrow> byte) \<Rightarrow> byte list \<Rightarrow> bframe list \<Rightarrow> u32 \<Rightarrow> byte list list" where
  "wires m arena [] q = []"
| "wires m arena (f # fs) q = enc_frame ((bf_hdr f)\<lparr>h_Fseq := q\<rparr>) (frame_payload m arena f) # wires m arena fs (q + 1)"

lemma length_body [simp]: "length (body_bytes m bd) = body_len bd"
  by (cases bd) auto

lemma appendTo_loop_spec:
  "laid fs u v \<Longrightarrow> sg \<le> u \<Longrightarrow> appendTo_loop m arena fs sg dst = (sg', d) \<Longrightarrow>
    sg' \<le> v \<and> d @ bslice arena sg' v = dst @ bslice arena sg u @ concat (map (piece m arena) fs)"
proof (induction fs arbitrary: u sg dst)
  case (Cons f fs)
  define cut where "cut = u + 13 + bf_ctl f"
  have u: "bf_head f = u" "laid fs (u + frame_size f) v" using Cons.prems(1) by auto
  have le: "u \<le> cut" "cut \<le> u + frame_size f" "sg \<le> cut" using Cons.prems(2) by (auto simp: cut_def frame_size_def)
  show ?case
  proof (cases "body_len (bf_body f) = 0")
    case True
    then have "sg' \<le> v \<and> d @ bslice arena sg' v = dst @ bslice arena sg (u + frame_size f) @ concat (map (piece m arena) fs)"
      using Cons.prems by (intro Cons.IH [OF u(2)]) auto
    moreover have "body_bytes m (bf_body f) = []" using True by (cases "bf_body f") auto
    then have "piece m arena f = bslice arena u (u + frame_size f)"
      using bslice_join [OF le(1,2), of arena] by (simp add: piece_def u(1) cut_def [symmetric])
    then have "bslice arena sg u @ piece m arena f = bslice arena sg (u + frame_size f)"
      using bslice_join [of sg u "u + frame_size f" arena] Cons.prems(2) by simp
    ultimately show ?thesis by (metis append_assoc concat.simps(2) list.simps(9))
  next
    case False
    then have "sg' \<le> v \<and> d @ bslice arena sg' v = (dst @ bslice arena sg cut @ body_bytes m (bf_body f)) @
        bslice arena cut (u + frame_size f) @ concat (map (piece m arena) fs)"
      using Cons.prems le by (intro Cons.IH [OF u(2)]) (auto simp: u(1) cut_def Let_def)
    then show ?thesis
      unfolding bslice_join [OF Cons.prems(2) le(1), of arena, symmetric]
      by (simp add: piece_def [of m arena f] u(1) cut_def [symmetric])
  qed
qed simp

lemma buffers_loop_concat:
  "buffers_loop m arena fs sg bufs = (sg', bs) \<Longrightarrow> appendTo_loop m arena fs sg (concat bufs) = (sg', concat bs)"
proof (induction fs arbitrary: sg bufs)
  case (Cons f fs)
  define cut where "cut = bf_head f + 13 + bf_ctl f"
  show ?case
    using Cons.prems Cons.IH [of sg bufs] Cons.IH [of cut "bufs @ [bslice arena sg cut, body_bytes m (bf_body f)]"]
    by (auto simp: Let_def cut_def [symmetric] split: if_splits)
qed simp

lemma appendBuffers_concat: "concat (appendBuffers m b bufs) = appendTo m b (concat bufs)"
proof -
  obtain sg bs where r: "buffers_loop m (bt_arena b) (bt_frames b) 0 bufs = (sg, bs)" by fastforce
  then show ?thesis using buffers_loop_concat [OF r] by (simp add: appendBuffers_def appendTo_def bslice_def)
qed

lemma seal_frame_spec:
  assumes u: "bf_head f + frame_size f \<le> length arena" and l: "unat (h_Len (bf_hdr f)) \<le> MaxFramePayload"
  shows "seal_frame m q f arena = Some (take (bf_head f) arena @ enc_header ((bf_hdr f)\<lparr>h_Fseq := q\<rparr>) @
      bslice arena (bf_head f + HeaderLen) (bf_head f + HeaderLen + bf_ctl f) @
      trailer_bytes (CRC (enc_header ((bf_hdr f)\<lparr>h_Fseq := q\<rparr>) @ frame_payload m arena f)) @
      drop (bf_head f + frame_size f) arena)"
proof -
  define h where "h = bf_head f"
  define hb where "hb = enc_header ((bf_hdr f)\<lparr>h_Fseq := q\<rparr>)"
  define ctl where "ctl = bslice arena (h + 13) (h + 13 + bf_ctl f)"
  have fs: "frame_size f = 13 + bf_ctl f + 4" by (simp add: frame_size_def)
  have len: "length hb = 13" "length ctl = bf_ctl f" "h + 13 + bf_ctl f + 4 \<le> length arena"
    using u by (auto simp: hb_def ctl_def h_def fs)
  have ph: "PutHeader (drop h arena) ((bf_hdr f)\<lparr>h_Fseq := q\<rparr>) = Some (hb @ drop (h + 13) arena)"
    using u l by (simp add: PutHeader_enc h_def hb_def blit_def fs add.commute)
  define ar where "ar = take h arena @ hb @ drop (h + 13) arena"
  have sl: "drop (h + 13) arena = ctl @ drop (h + 13 + bf_ctl f) arena"
    using len by (simp add: ctl_def bslice_def add.commute append_take_drop_id [symmetric] drop_drop [symmetric] del: drop_drop append_take_drop_id)
  have "take h arena @ hb @ ctl @ drop (h + 13 + bf_ctl f) arena = ar" by (simp add: ar_def sl)
  then have ar: "take (h + 13 + bf_ctl f) ar = take h arena @ hb @ ctl" "drop (h + 13 + bf_ctl f) ar = drop (h + 13 + bf_ctl f) arena"
      "bslice ar h (h + 13 + bf_ctl f) = hb @ ctl"
    using len by (auto simp: bslice_def)
  have crc: "(if body_len (bf_body f) > 0 then CRCUpdate (CRC (hb @ ctl)) (body_bytes m (bf_body f)) else CRC (hb @ ctl))
      = CRC (hb @ frame_payload m arena f)"
    by (cases "bf_body f") (auto simp: CRC_def CRCUpdate_append frame_payload_def ctl_def h_def)
  have "seal_frame m q f arena = map_option (\<lambda>tl. take (h + 13 + bf_ctl f) ar @ tl)
      (PutTrailer (drop (h + 13 + bf_ctl f) ar) (CRC (hb @ frame_payload m arena f)))"
    unfolding seal_frame_def Let_def h_def [symmetric] ph
    by (simp add: ar_def [symmetric] ar(3) crc [symmetric] del: ar_def)
  then show ?thesis
    using len unfolding ar by (simp add: PutTrailer_def trailer_bytes_def blit_def h_def [symmetric] hb_def [symmetric] ctl_def fs add.commute add.left_commute)
qed

lemma bslice_take_eq: "take u a = take u b \<Longrightarrow> y \<le> u \<Longrightarrow> bslice a x y = bslice b x y"
  by (metis (no_types) bslice_def drop_take min.absorb1 take_take)

lemma bslice_drop_eq: "drop u a = drop u b \<Longrightarrow> u \<le> x \<Longrightarrow> bslice a x y = bslice b x y"
  by (metis bslice_def drop_drop le_add_diff_inverse2)

lemma payload_drop_eq:
  "drop u a = drop u b \<Longrightarrow> laid fs u v \<Longrightarrow> wires m a fs q = wires m b fs q"
proof (induction fs arbitrary: u q)
  case (Cons f fs)
  have "drop (u + frame_size f) a = drop (u + frame_size f) b" using Cons.prems(1) by (metis add.commute drop_drop)
  then have "wires m a fs (q + 1) = wires m b fs (q + 1)" using Cons.prems(2) by (intro Cons.IH) auto
  moreover have "frame_payload m a f = frame_payload m b f"
    using Cons.prems by (auto simp: frame_payload_def intro: bslice_drop_eq)
  ultimately show ?case by simp
qed simp

lemma seal_loop_spec:
  "laid fs u v \<Longrightarrow> v \<le> length arena \<Longrightarrow> \<forall>f \<in> set fs. frame_ok f \<Longrightarrow>
    \<exists>fs' arena'. seal_loop m fs q arena = Some (fs', arena', q + of_nat (length fs)) \<and> length arena' = length arena \<and>
      take u arena' = take u arena \<and> laid fs' u v \<and> map (piece m arena') fs' = wires m arena fs q \<and>
      map bf_body fs' = map bf_body fs"
proof (induction fs arbitrary: u q arena)
  case Nil then show ?case by auto
next
  case (Cons f fs)
  define u' where "u' = u + frame_size f"
  define hb where "hb = enc_header ((bf_hdr f)\<lparr>h_Fseq := q\<rparr>)"
  define ctl where "ctl = bslice arena (u + 13) (u + 13 + bf_ctl f)"
  define tr where "tr = trailer_bytes (CRC (hb @ frame_payload m arena f))"
  define ar where "ar = take u arena @ hb @ ctl @ tr @ drop u' arena"
  have u: "bf_head f = u" "laid fs u' v" "u' \<le> v" using Cons.prems(1) laid_le by (auto simp: u'_def)
  have fok: "frame_ok f" using Cons.prems(3) by simp
  have le: "u' \<le> length arena" "u' = u + 13 + bf_ctl f + 4" using u(3) Cons.prems(2) by (auto simp: u'_def frame_size_def)
  have sf: "seal_frame m q f arena = Some ar"
    using seal_frame_spec [of f arena m q] le fok
    by (simp add: ar_def hb_def ctl_def tr_def u(1) u'_def [symmetric] frame_ok_def)
  have len: "length hb = 13" "length ctl = bf_ctl f" "length tr = 4" "u \<le> length arena"
    using le by (auto simp: hb_def ctl_def tr_def)
  have ar: "length ar = length arena" "take u' ar = take u arena @ hb @ ctl @ tr" "drop u' ar = drop u' arena" "take u ar = take u arena"
    using len le by (auto simp: ar_def)
  obtain fs' arena' where ih: "seal_loop m fs (q + 1) ar = Some (fs', arena', q + 1 + of_nat (length fs))" "length arena' = length ar"
      "take u' arena' = take u' ar" "laid fs' u' v" "map (piece m arena') fs' = wires m ar fs (q + 1)"
      "map bf_body fs' = map bf_body fs"
    using Cons.IH [OF u(2), of ar "q + 1"] Cons.prems(2,3) ar(1) by auto
  define f' where "f' = f\<lparr>bf_hdr := (bf_hdr f)\<lparr>h_Fseq := q\<rparr>\<rparr>"
  have "take u arena' = take u arena" using ih(3) ar(4) le(2) by (metis le_add1 add.assoc min.absorb1 take_take)
  moreover have "piece m arena' f' = enc_frame ((bf_hdr f)\<lparr>h_Fseq := q\<rparr>) (frame_payload m arena f)"
  proof -
    have "bslice arena' u (u + 13 + bf_ctl f) = hb @ ctl"
    proof -
      have "bslice arena' u (u + 13 + bf_ctl f) = bslice ar u (u + 13 + bf_ctl f)" by (rule bslice_take_eq [OF ih(3)]) (simp add: le)
      also have "\<dots> = bslice (take u' ar) u (u + 13 + bf_ctl f)" by (rule bslice_take_eq [of u']) (simp_all add: le)
      finally show ?thesis using len by (simp add: ar(2) bslice_def)
    qed
    moreover have "bslice arena' (u + 13 + bf_ctl f) u' = tr"
    proof -
      have "bslice arena' (u + 13 + bf_ctl f) u' = bslice ar (u + 13 + bf_ctl f) u'" by (rule bslice_take_eq [OF ih(3)]) simp
      also have "\<dots> = bslice (take u' ar) (u + 13 + bf_ctl f) u'" by (rule bslice_take_eq [of u']) simp_all
      also have "\<dots> = tr" unfolding ar(2) using len by (simp add: bslice_def le(2))
      finally show ?thesis .
    qed
    moreover have "bf_head f' + frame_size f' = u'" "bf_head f' + HeaderLen + bf_ctl f' = u + 13 + bf_ctl f" "bf_head f' = u"
      by (simp_all add: f'_def u(1) frame_size_def u'_def)
    ultimately have "piece m arena' f' = hb @ ctl @ body_bytes m (bf_body f) @ tr"
      unfolding piece_def by (simp add: f'_def)
    moreover have "(bf_hdr f)\<lparr>h_Fseq := q, h_Len := of_nat (length (frame_payload m arena f))\<rparr> = (bf_hdr f)\<lparr>h_Fseq := q\<rparr>"
    proof -
      have "length (frame_payload m arena f) = unat (h_Len (bf_hdr f))"
        using fok le by (simp add: frame_payload_def frame_ok_def u(1))
      then have "of_nat (length (frame_payload m arena f)) = h_Len (bf_hdr f)" by simp
      then show ?thesis by simp
    qed
    ultimately show ?thesis by (simp add: enc_frame_def Let_def tr_def hb_def frame_payload_def ctl_def u(1))
  qed
  moreover have "wires m ar fs (q + 1) = wires m arena fs (q + 1)" by (rule payload_drop_eq [OF ar(3) u(2)])
  moreover have "laid (f' # fs') u v" using ih(4) u(1) by (simp add: f'_def u'_def frame_size_def)
  ultimately show ?case using sf ih ar(1) by (auto simp: f'_def algebra_simps)
qed

primrec decode_n :: "nat \<Rightarrow> byte list \<Rightarrow> werr + (frame list \<times> byte list)" where
  "decode_n 0 p = Inr ([], p)"
| "decode_n (Suc k) p =
     (case DecodeFrame p of
        Inl e \<Rightarrow> Inl e
      | Inr (f, n) \<Rightarrow> (case decode_n k (drop n p) of Inl e \<Rightarrow> Inl e | Inr (fs, rest) \<Rightarrow> Inr (f # fs, rest)))"

text \<open>The frames that reach the peer for a list of placements.\<close>

primrec frames_of :: "(nat \<Rightarrow> nat \<Rightarrow> byte) \<Rightarrow> u32 \<Rightarrow> placement list \<Rightarrow> frame list" where
  "frames_of m q [] = []"
| "frames_of m q (p # ps) = \<lparr>f_Header = (place_header p)\<lparr>h_Fseq := q\<rparr>, f_Payload = place_ctl p @ body_bytes m (place_body p)\<rparr> #
     frames_of m (q + 1) ps"

lemma header_ok_fseq [simp]: "header_ok (h\<lparr>h_Fseq := q\<rparr>) = header_ok h"
  by (simp add: header_ok_def)

lemma wires_decode:
  "\<forall>p \<in> set ps. legal p \<Longrightarrow>
    map (\<lambda>f. (bf_hdr f, bslice arena (bf_head f + HeaderLen) (bf_head f + HeaderLen + bf_ctl f), bf_body f)) fs =
      map (\<lambda>p. (place_header p, place_ctl p, place_body p)) ps \<Longrightarrow>
    decode_n (length ps) (concat (wires m arena fs q) @ rest) = Inr (frames_of m q ps, rest)"
proof (induction ps arbitrary: fs q)
  case (Cons p ps)
  obtain f fs' where fs: "fs = f # fs'" using Cons.prems(2) by (cases fs) auto
  have f: "bf_hdr f = place_header p" "frame_payload m arena f = place_ctl p @ body_bytes m (place_body p)"
    using Cons.prems(2) by (auto simp: fs frame_payload_def)
  define h where "h = (place_header p)\<lparr>h_Fseq := q\<rparr>"
  define pl where "pl = place_ctl p @ body_bytes m (place_body p)"
  have lp: "length pl = payload_len p" by (simp add: pl_def payload_len_def)
  note lh = legal_header [of p]
  have le: "length pl \<le> MaxFramePayload" using lh Cons.prems(1) by (simp add: lp)
  have "(of_nat (unat (h_Len (place_header p))) :: u32) = h_Len (place_header p)" by simp
  then have hl: "of_nat (length pl) = h_Len (place_header p)" using lh Cons.prems(1) by (simp add: lp del: of_nat_unat)
  have hh: "h\<lparr>h_Len := of_nat (length pl)\<rparr> = h" by (simp add: h_def hl)
  have "header_ok h" using lh Cons.prems(1) by (simp add: h_def)
  then have "DecodeFrame (enc_frame h pl @ concat (wires m arena fs' (q + 1)) @ rest) =
      Inr (\<lparr>f_Header = h, f_Payload = pl\<rparr>, length (enc_frame h pl))"
    using DecodeFrame_enc [where h = h and p = pl] le by (simp add: hh)
  moreover have "decode_n (length ps) (concat (wires m arena fs' (q + 1)) @ rest) = Inr (frames_of m (q + 1) ps, rest)"
    using Cons.prems by (intro Cons.IH) (auto simp: fs)
  ultimately show ?case by (simp add: fs f h_def [symmetric] pl_def [symmetric])
qed simp

text \<open>A writer round: a list of placements, some of which the batch refuses for want of room.\<close>

primrec place_all :: "placement list \<Rightarrow> Batch \<times> world \<Rightarrow> placement list \<times> Batch \<times> world" where
  "place_all [] bw = ([], bw)"
| "place_all (p # ps) bw =
     (let (fine, bw) = place1 p bw; (acc, bw) = place_all ps bw in (if fine then p # acc else acc, bw))"

lemma place_all_ok:
  "batch_ok b \<Longrightarrow> \<forall>p \<in> set ps. legal p \<Longrightarrow> place_all ps (b, w) = (acc, b', w') \<Longrightarrow>
    batch_ok b' \<and> bview b' = bview b @ map (\<lambda>p. (place_header p, place_ctl p, place_body p)) acc \<and> (\<forall>p \<in> set acc. legal p)"
proof (induction ps arbitrary: b w acc)
  case (Cons p ps)
  obtain fine b1 w1 where p1: "place1 p (b, w) = (fine, b1, w1)" by (metis prod_cases3)
  obtain acc1 where r: "place_all ps (b1, w1) = (acc1, b', w')" "acc = (if fine then p # acc1 else acc1)"
    using Cons.prems(3) p1 by (auto split: prod.splits)
  have k: "batch_ok b1 \<and> (if fine then bview b1 = bview b @ [(place_header p, place_ctl p, place_body p)] else b1 = b \<and> w1 = w)"
    using place1_ok [OF Cons.prems(1) _ p1] Cons.prems(2) by simp
  then have "batch_ok b' \<and> bview b' = bview b1 @ map (\<lambda>p. (place_header p, place_ctl p, place_body p)) acc1 \<and> (\<forall>p \<in> set acc1. legal p)"
    using Cons.prems(2) r(1) by (intro Cons.IH) auto
  then show ?case using k Cons.prems(2) by (auto simp: r(2))
qed auto

lemma NewBatch_ok: "batch_ok (NewBatch budget)"
  by (simp add: batch_ok_def NewBatch_def)

lemma sealed_wire:
  assumes ok: "batch_ok b" and view: "bview b = map (\<lambda>p. (place_header p, place_ctl p, place_body p)) ps" "\<forall>p \<in> set ps. legal p"
  shows "\<exists>b'. seal m q b = Some (b', q + of_nat (length ps)) \<and>
    appendTo m b' dst = dst @ concat (wires m (bt_arena b) (bt_frames b) q) \<and>
    length (appendTo m b' []) = wireLen b' \<and>
    decode_n (length ps) (concat (wires m (bt_arena b) (bt_frames b) q)) = Inr (frames_of m q ps, [])"
proof -
  have room: "bt_used b \<le> length (bt_arena b)"
  proof -
    have "bt_used b = sum_list (map frame_size (bt_frames b))" using ok laid_sum by (fastforce simp: batch_ok_def)
    then have "bt_used b \<le> length (bt_frames b) * 25 + bt_ctl b" using ok sizes [of "bt_frames b"] by (simp add: batch_ok_def)
    then show ?thesis using ok by (auto simp: batch_ok_def arenaSize_def)
  qed
  obtain fs' arena' where s: "seal_loop m (bt_frames b) q (bt_arena b) = Some (fs', arena', q + of_nat (length (bt_frames b)))"
      "laid fs' 0 (bt_used b)" "map (piece m arena') fs' = wires m (bt_arena b) (bt_frames b) q"
      "map bf_body fs' = map bf_body (bt_frames b)" "length arena' = length (bt_arena b)"
    using seal_loop_spec [of "bt_frames b" 0 "bt_used b" "bt_arena b" m q] ok room by (auto simp: batch_ok_def)
  define b' where "b' = b\<lparr>bt_frames := fs', bt_arena := arena'\<rparr>"
  have n: "length (bt_frames b) = length ps" using arg_cong [OF view(1), of length] by (simp add: bview_def)
  have seal: "seal m q b = Some (b', q + of_nat (length ps))" using s(1) by (simp add: seal_def b'_def n)
  have app: "appendTo m b' d = d @ concat (wires m (bt_arena b) (bt_frames b) q)" for d
  proof -
    obtain sg' d' where r: "appendTo_loop m arena' fs' 0 d = (sg', d')" by fastforce
    show ?thesis using appendTo_loop_spec [OF s(2) _ r] s(3) r by (simp add: appendTo_def b'_def bslice_def)
  qed
  have "length (concat (map (piece m arena') fs')) = bt_used b + bt_bodies b"
  proof -
    have "length (concat (map (piece m arena') fs)) = sum_list (map frame_size fs) + sum_list (map (body_len \<circ> bf_body) fs)"
      if "laid fs u v" "v \<le> length arena'" for fs u v
      using that
    proof (induction fs arbitrary: u)
      case (Cons f fs)
      have "u + frame_size f \<le> v" using laid_le [of fs "u + frame_size f" v] Cons.prems by simp
      then have "length (piece m arena' f) = frame_size f + body_len (bf_body f)"
        using Cons.prems by (simp add: piece_def frame_size_def)
      then show ?case using Cons.IH [of "u + frame_size f"] Cons.prems by simp
    qed simp
    then have "length (concat (map (piece m arena') fs')) = sum_list (map frame_size fs') + sum_list (map (body_len \<circ> bf_body) fs')"
      using s(2,5) room by simp
    moreover have "bt_used b = sum_list (map frame_size fs')" using laid_sum [OF s(2)] by simp
    moreover have "sum_list (map (body_len \<circ> bf_body) fs') = bt_bodies b"
    proof -
      have "map (body_len \<circ> bf_body) fs' = map (\<lambda>f. body_len (bf_body f)) (bt_frames b)"
        using arg_cong [OF s(4), of "map body_len"] by (simp add: comp_def)
      then show ?thesis using ok by (simp only: batch_ok_def)
    qed
    ultimately show ?thesis by simp
  qed
  then have "length (appendTo m b' []) = wireLen b'" using app [of "[]"] s(3) by (simp add: wireLen_def b'_def)
  moreover have "decode_n (length ps) (concat (wires m (bt_arena b) (bt_frames b) q)) = Inr (frames_of m q ps, [])"
    using wires_decode [OF view(2), of "bt_arena b" "bt_frames b" m q "[]"] view(1) by (simp add: bview_def)
  ultimately show ?thesis using seal app by blast
qed

text \<open>Claim C5: a batch goes on the wire as its frames. Whatever legal frames (OPEN_ACK, JOIN_ACK, ACK, FIN, RST, SCHED, PING,
  PONG, CLOSE, GOAWAY, DATA, PACK, DGRAM) a round on a new stream batch places, refused ones apart, sealing never panics, numbers the frames consecutively, and both write shapes, the vectored and the coalesced one,
  put the same \<open>wireLen\<close> bytes on the wire; decoding them returns exactly the accepted frames, in order, with their payloads,
  the DATA and DGRAM bytes taken from the session's chunks, and nothing else. At most 64 frames are placed.\<close>

theorem batch_on_wire:
  assumes "\<forall>p \<in> set ps. legal p" "place_all ps (NewBatch budget, w) = (acc, b, w')"
  shows "\<exists>b' bytes. seal m q b = Some (b', q + of_nat (length acc)) \<and> appendTo m b' dst = dst @ bytes \<and>
    concat (appendBuffers m b' []) = bytes \<and> length bytes = wireLen b' \<and> length acc \<le> MaxBatchFrames \<and>
    decode_n (length acc) bytes = Inr (frames_of m q acc, [])"
proof -
  have k: "batch_ok b" "bview b = map (\<lambda>p. (place_header p, place_ctl p, place_body p)) acc" "\<forall>p \<in> set acc. legal p"
    using place_all_ok [OF NewBatch_ok assms] by (auto simp: bview_def NewBatch_def)
  obtain b' where b': "seal m q b = Some (b', q + of_nat (length acc))"
      "appendTo m b' dst = dst @ concat (wires m (bt_arena b) (bt_frames b) q)" "length (appendTo m b' []) = wireLen b'"
      "decode_n (length acc) (concat (wires m (bt_arena b) (bt_frames b) q)) = Inr (frames_of m q acc, [])"
    using sealed_wire [OF k, of m q dst] by blast
  have "appendTo m b' [] = concat (wires m (bt_arena b) (bt_frames b) q)" using sealed_wire [OF k, of m q "[]"] b'(1) by auto
  moreover have "length acc \<le> MaxBatchFrames" using arg_cong [OF k(2), of length] k(1) by (simp add: bview_def batch_ok_def)
  ultimately show ?thesis using b' appendBuffers_concat [of m b' "[]"] by auto
qed

theorem batch_on_wire_witness:
  "\<exists>b' bytes. seal (\<lambda>a i. word_of_nat i) 7 (fst (snd (place_all [PData 1 0 3 10 2 False, PFin 1 2] (NewBatch 100, empty_world 0))))
      = Some (b', 9) \<and> appendTo (\<lambda>a i. word_of_nat i) b' [] = bytes \<and> length bytes = 52 \<and>
    decode_n 2 bytes = Inr (frames_of (\<lambda>a i. word_of_nat i) 7 [PData 1 0 3 10 2 False, PFin 1 2], [])"
proof -
  define ps where "ps = [PData 1 0 3 10 2 False, PFin 1 2]"
  obtain acc b w' where r: "place_all ps (NewBatch 100, empty_world 0) = (acc, b, w')" by (metis prod_cases3)
  have acc: "acc = ps" using r unfolding ps_def
    by (simp add: AddData_def AddFin_def addSession_def addControl_def NewBatch_def batch_Full_def batch_n_def batch_Room_def
        heldOut_def reserve_def arena_put_def PutDataOffset_def arenaSize_def PutFin_def keep_w_def Let_def)
  have "\<forall>p \<in> set ps. legal p" by (simp add: ps_def)
  from batch_on_wire [OF this r, of "\<lambda>a i. word_of_nat i" 7 "[]"]
  obtain b' bytes where b': "seal (\<lambda>a i. word_of_nat i) 7 b = Some (b', 9)" "appendTo (\<lambda>a i. word_of_nat i) b' [] = bytes"
      "decode_n 2 bytes = Inr (frames_of (\<lambda>a i. word_of_nat i) 7 ps, [])" "length bytes = wireLen b'"
    by (auto simp: acc ps_def numeral_2_eq_2)
  have "wireLen b' = 52"
  proof -
    have "bt_used b = 50" "bt_bodies b = 2" using r unfolding ps_def
      by (auto simp: AddData_def AddFin_def addSession_def addControl_def NewBatch_def batch_Full_def batch_n_def batch_Room_def
        heldOut_def reserve_def arena_put_def PutDataOffset_def arenaSize_def PutFin_def keep_w_def Let_def)
    then show ?thesis using b'(1) by (auto simp: seal_def wireLen_def split: option.splits prod.splits)
  qed
  then show ?thesis using b' r by (auto simp: ps_def)
qed

end
