(* ===== verification/Spec2Isabelle.thy ===== *)
theory Spec2Isabelle
  imports Wire_Preface Wire_Window Sched_Timing Sched_Cadence Sched_Selector Sched_Aggregator Sess_History Carrier_Batch
begin

text \<open>
  This library verifies the protocol core of \<^bold>\<open>rendr\<close>, a Go library that carries one session over several
  connections (carriers) at once and moves it between them without losing or repeating data.

  \<^bold>\<open>The program.\<close> A runtime (package \<open>rendr\<close>, the root directory) opens sessions to peers. A session
  (\<open>internal/session\<close>) is one byte stream or one datagram flow; it owns lanes, and each lane is one
  incarnation of a carrier (\<open>internal/carrier\<close>), a TCP, UDP or QUIC connection or a view of a shared
  trunk. Carriers exchange frames (\<open>internal/wire\<close>). Which carriers are dialled, raced, switched to and
  redialled is decided by pure rules (\<open>internal/sched\<close>) that the session's actor goroutine applies.
  \<open>l4\<close>, \<open>quic\<close>, \<open>carrier/tcp\<close>, \<open>carrier/udp\<close> and the examples sit on top of or below this core.

  \<^bold>\<open>The theories and what they model.\<close>
  \<^item> \<open>Prelude\<close>: machine words, slices, big-endian integers; \<open>Codec\<close>: the locale of one payload codec.
  \<^item> \<open>Wire_Frame\<close> (\<open>wire/const.go\<close>, \<open>errors.go\<close>, \<open>frame.go\<close>): header, CRC32C, frames.
  \<^item> \<open>Wire_Payload\<close> (\<open>wire/payload.go\<close>, \<open>detach.go\<close>, \<open>down.go\<close>), \<open>Wire_Dgram\<close> (\<open>wire/dgram.go\<close>),
    \<open>Wire_Preface\<close> (\<open>wire/preface.go\<close>): every payload and preface, each an interpretation of \<open>codec\<close>.
  \<^item> \<open>Wire_Window\<close> (\<open>wire/window.go\<close>, the window step of \<open>carrier/dgread.go\<close>): the two circular bitmaps.
  \<^item> \<open>Go_Num\<close>, \<open>Go_Float\<close>: durations, times and IEEE binary64 arithmetic of Go; \<open>Go_Approx\<close>: the error of a
    formula computed in it, overflow and underflow included.
  \<^item> \<open>Sched_Timing\<close> (\<open>sched/rto.go\<close>), \<open>Sched_Formula\<close> (\<open>formula.go\<close>), \<open>Sched_Evidence\<close> and
    \<open>Sched_Aggregator\<close> (\<open>evidence.go\<close>), \<open>Sched_Rank\<close> (\<open>rank.go\<close>, \<open>group.go\<close>), \<open>Sched_Cadence\<close>
    (\<open>cadence.go\<close>), \<open>Sched_Race\<close> (\<open>race.go\<close>), \<open>Sched_Selector\<close> (\<open>selector.go\<close>).
  \<^item> \<open>Sess_Spans\<close> and \<open>Sess_Rings\<close> (\<open>session/stream.go\<close>): span lists and the two rings; the locale
    \<open>fifo_queue\<close> is what their clients rely on.
  \<^item> \<open>Sess_Segs\<close>, \<open>Sess_Recv\<close> (\<open>session/recv.go\<close>, \<open>early_recv.go\<close>, and the receive half of
    \<open>fin.go\<close>, \<open>ack.go\<close>, \<open>app.go\<close>, \<open>helpers.go\<close>): the receive side of a stream. The state record
    \<open>rcv\<close> has the fields of \<open>stream\<close> in \<open>state.go\<close>; \<open>recvData\<close> is \<open>recvDataLocked\<close>, \<open>readBegin\<close> and
    \<open>readCommit\<close> are the two critical sections of \<open>Read\<close>, and so on by name.
  \<^item> \<open>Sess_Place\<close>, \<open>Sess_Data\<close>, \<open>Sess_Ref\<close>, \<open>Sess_Stream\<close>: the invariant of the receive side and that
    every operation keeps it; \<open>Sess_Deliver\<close>: properties of one call; \<open>Sess_History\<close>: whole histories.

  \<^item> \<open>Carrier_Buf\<close> (\<open>carrier/buf.go\<close>): the byte budget and the reference-counted buffer pools over an explicit
    memory; \<open>Carrier_Batch\<close> (\<open>carrier/batch.go\<close>, \<open>AddDgram\<close> and \<open>AddPack\<close> of \<open>batch_dgram.go\<close>): the
    writer's batch on a stream carrier.

  \<^bold>\<open>What the theorems show.\<close> Frames, payloads and prefaces round-trip, are canonical, and a corrupted
  byte is always noticed. The receive windows accept each number at most once and classify exactly. The
  deadlines and capacities are the clamped values of their formulas up to rounding; the
  scheduling rules stay inside their documented bounds, rank by the documented key, start every candidate,
  redial in time and never too often, and switch only after a continuous dwell, without missing a wake-up.
  Span lists and rings are exact. The receive side keeps the first copy of every byte, reports exactly the
  documented violations, stays within its memory limits, always takes a matching in-order frame, and the
  bytes that \<open>Read\<close> returns in any history are a prefix of the stream that was sent. Buffers are never recycled
  while referenced and the budget is exact; a sealed batch is on the wire exactly the frames that were placed.

  \<^bold>\<open>How state, effects and errors are represented.\<close> A Go struct is a record, an error a value of a sum or
  option type, a panic \<open>None\<close>; a critical section is one function on the state. What a critical section does
  to other goroutines (waking a writer, ringing the actor, signalling a reader) is recorded in a list of
  effects. Words keep their width where the code relies on wrap-around; stream offsets are natural numbers
  with the 64-bit wrap written out where a frame enters and in every sum and difference of a span list. A buffer's
  reference count is unbounded, and one budget serves every buffer. Times are integers in nanoseconds with 0 for the
  zero \<open>time.Time\<close>.

  \<^bold>\<open>Bounds and fuel.\<close> No definition uses fuel: every loop is structural or has a termination proof. The loops of
  the receive path recurse over the list they walk; the Go loops stop at the same point because each round
  removes or passes one element.

  \<^bold>\<open>Not modelled.\<close> Goroutines, locks, sockets and timers themselves: the rest of the carrier package (readers,
  writers, datagram batches, establishment, trunks, estimators, reliable control on datagram carriers), the session's actor with opening,
  joining and termination, the packet data plane, UDP sharing, \<open>l4\<close>, \<open>quic\<close>, the public runtime, examples and
  the test kit. They are concurrent programs over \<open>net.Conn\<close>, contexts and timers whose behaviour lies in
  the interleaving; the rules and encodings they apply are modelled. Of the receive side the idle clock
  \<open>lastData\<close> is left out (no modelled operation reads it), test hooks are absent, and which lane carries an ACK is
  an effect. In \<open>Sched_Formula\<close> each floating-point operation rounds on its own: Go may fuse a multiplication
  and an addition on some architectures.
\<close>

end
